(* ===== verification/LT_Prelude.thy ===== *)
theory LT_Prelude
  imports Main "HOL-Library.Char_ord" "HOL-Library.List_Lexorder" "HOL-Library.Product_Lexorder"
    "HOL-Library.AList"
begin

text \<open>
  Shared vocabulary of the development: the types the components use for time, strings, JSON-free
  rows and tables; the relational operations the SQL statements of \<^verbatim>\<open>crates/store/src/sqlite\<close>
  are read as; the string functions of the Rust standard library that the sources call; and the
  interface of a closed vocabulary (an enum with \<open>ALL\<close>, \<open>as_str\<close> and \<open>from_wire\<close>),
  which many enums of the workspace share.
\<close>

section \<open>Collections of rules\<close>

named_theorems table_simps \<open>laws of the relational operations\<close>
named_theorems str_simps \<open>laws of the string functions\<close>

section \<open>Time\<close>

text \<open>
  An instant (\<^verbatim>\<open>DateTime<Utc>\<close>, \<^verbatim>\<open>std::time::Instant\<close>) is the integer number of
  nanoseconds since some origin; a \<^verbatim>\<open>std::time::Duration\<close> is a natural number of nanoseconds,
  a \<^verbatim>\<open>chrono::Duration\<close> an integer one. Reading the clock is an argument (\<open>now\<close>) of the
  operation that reads it.
\<close>

type_synonym instant = int
type_synonym duration = nat

abbreviation (input) nanos_per_sec :: nat where
  "nanos_per_sec \<equiv> 1000000000"

definition duration_of_secs :: "nat \<Rightarrow> duration" where
  "duration_of_secs s = s * nanos_per_sec"

definition as_secs :: "duration \<Rightarrow> nat" where
  "as_secs d = d div nanos_per_sec"

text \<open>\<^verbatim>\<open>a - b\<close> and \<^verbatim>\<open>duration_since\<close> on instants saturate at zero.\<close>

definition duration_since :: "instant \<Rightarrow> instant \<Rightarrow> duration" where
  "duration_since a b = nat (a - b)"

definition chrono_secs :: "int \<Rightarrow> int" where
  "chrono_secs s = s * 1000000000"

lemma as_secs_of_secs [simp]: "as_secs (duration_of_secs s) = s"
  by (simp add: as_secs_def duration_of_secs_def)

lemma as_secs_mono: "d \<le> e \<Longrightarrow> as_secs d \<le> as_secs e"
  by (simp add: as_secs_def div_le_mono)

section \<open>Tables\<close>

text \<open>
  A table is the list of its rows in rowid order. One SQL \<^verbatim>\<open>UPDATE\<close> rewrites the rows its
  \<^verbatim>\<open>WHERE\<close> clause selects, a \<^verbatim>\<open>DELETE\<close> drops them, a lookup by primary key finds the first.
  A comparison with \<^verbatim>\<open>NULL\<close> is not true, so it selects nothing.
\<close>

definition update_where :: "('r \<Rightarrow> bool) \<Rightarrow> ('r \<Rightarrow> 'r) \<Rightarrow> 'r list \<Rightarrow> 'r list" where
  "update_where p f t = map (\<lambda>r. if p r then f r else r) t"

definition delete_where :: "('r \<Rightarrow> bool) \<Rightarrow> 'r list \<Rightarrow> 'r list" where
  "delete_where p t = filter (\<lambda>r. \<not> p r) t"

definition row_by :: "('r \<Rightarrow> 'k) \<Rightarrow> 'k \<Rightarrow> 'r list \<Rightarrow> 'r option" where
  "row_by key k t = find (\<lambda>r. key r = k) t"

definition sql_lt :: "int option \<Rightarrow> int \<Rightarrow> bool" where
  "sql_lt a b = (case a of None \<Rightarrow> False | Some x \<Rightarrow> x < b)"

definition sql_eq :: "'a option \<Rightarrow> 'a \<Rightarrow> bool" where
  "sql_eq a b = (case a of None \<Rightarrow> False | Some x \<Rightarrow> x = b)"

lemma sql_lt_simps [simp]:
  "sql_lt None b = False" "sql_lt (Some x) b = (x < b)"
  by (simp_all add: sql_lt_def)

lemma sql_eq_iff [simp]: "sql_eq a b \<longleftrightarrow> a = Some b"
  by (cases a) (auto simp: sql_eq_def)

lemma length_update_where [table_simps]: "length (update_where p f t) = length t"
  by (simp add: update_where_def)

lemma update_where_Nil [table_simps]: "update_where p f [] = []"
  by (simp add: update_where_def)

lemma update_where_Cons [table_simps]:
  "update_where p f (r # t) = (if p r then f r else r) # update_where p f t"
  by (simp add: update_where_def)

lemma set_update_where: "set (update_where p f t) = (\<lambda>r. if p r then f r else r) ` set t"
  by (simp add: update_where_def)

lemma map_update_where [table_simps]:
  "(\<And>r. p r \<Longrightarrow> g (f r) = g r) \<Longrightarrow> map g (update_where p f t) = map g t"
  by (induction t) (auto simp: update_where_def)

lemma update_where_none: "(\<And>r. r \<in> set t \<Longrightarrow> \<not> p r) \<Longrightarrow> update_where p f t = t"
  by (induction t) (auto simp: update_where_def)

lemma row_by_Nil [table_simps]: "row_by key k [] = None"
  by (simp add: row_by_def)

lemma row_by_Cons [table_simps]:
  "row_by key k (r # t) = (if key r = k then Some r else row_by key k t)"
  by (simp add: row_by_def)

lemma row_by_Some: "row_by key k t = Some r \<Longrightarrow> r \<in> set t \<and> key r = k"
  by (induction t) (auto simp: table_simps split: if_splits)

lemma row_by_None: "row_by key k t = None \<longleftrightarrow> (\<forall>r \<in> set t. key r \<noteq> k)"
  by (induction t) (auto simp: table_simps)

lemma row_by_distinct:
  assumes "distinct (map key t)" and "r \<in> set t"
  shows "row_by key (key r) t = Some r"
  using assms by (induction t) (force simp: table_simps)+

text \<open>An update that leaves the primary key alone commutes with the lookup by that key.\<close>

lemma row_by_update_where:
  assumes "\<And>r. key (f r) = key r"
  shows "row_by key k (update_where p f t)
       = map_option (\<lambda>r. if p r then f r else r) (row_by key k t)"
  by (induction t) (auto simp: table_simps assms)

lemma row_by_update_where_key:
  assumes "\<And>r. key (f r) = key r"
  shows "row_by key k (update_where (\<lambda>r. key r = i \<and> q r) f t)
       = (if k = i then map_option (\<lambda>r. if q r then f r else r) (row_by key k t)
          else row_by key k t)"
proof -
  have "map_option (\<lambda>r. if key r = i \<and> q r then f r else r) (row_by key k t)
      = (if k = i then map_option (\<lambda>r. if q r then f r else r) (row_by key k t)
         else row_by key k t)"
    by (cases "row_by key k t") (auto dest: row_by_Some)
  then show ?thesis by (simp add: row_by_update_where assms)
qed

lemma row_by_append: "row_by key k (t @ u)
  = (case row_by key k t of None \<Rightarrow> row_by key k u | Some r \<Rightarrow> Some r)"
  by (induction t) (auto simp: table_simps)

text \<open>
  \<^verbatim>\<open>SELECT \<dots> ORDER BY k LIMIT 1\<close>: the first row, in table order, among those with the
  smallest key. Which of several rows with equal keys comes first SQLite leaves open; the model takes
  table order, and no property below depends on it.
\<close>

fun min_row :: "('r \<Rightarrow> int) \<Rightarrow> 'r list \<Rightarrow> 'r option" where
  "min_row k [] = None"
| "min_row k (r # t) =
     (case min_row k t of None \<Rightarrow> Some r | Some m \<Rightarrow> if k r \<le> k m then Some r else Some m)"

lemma min_row_None [simp]: "min_row k t = None \<longleftrightarrow> t = []"
  by (cases t) (auto split: option.splits)

lemma min_row_Some: "min_row k t = Some m \<Longrightarrow> m \<in> set t \<and> (\<forall>r \<in> set t. k m \<le> k r)"
proof (induction t arbitrary: m)
  case Nil
  then show ?case by simp
next
  case (Cons r t)
  show ?case
  proof (cases "min_row k t")
    case None
    with Cons.prems show ?thesis by simp
  next
    case (Some m')
    with Cons.IH have "m' \<in> set t" "\<forall>r \<in> set t. k m' \<le> k r" by blast+
    with Cons.prems Some show ?thesis by (fastforce split: if_splits)
  qed
qed

section \<open>Hash maps\<close>

text \<open>
  A \<^verbatim>\<open>HashMap\<close> the code iterates over is an association list with distinct keys
  (\<^theory_text>\<open>AList.update\<close> inserts, \<^theory_text>\<open>AList.delete\<close> removes, \<^term>\<open>map_of\<close> looks up);
  its iteration order is the list's, which no property depends on.
\<close>

abbreviation hm_wf :: "('k \<times> 'v) list \<Rightarrow> bool" where
  "hm_wf m \<equiv> distinct (map fst m)"

lemma map_of_update [simp]: "map_of (AList.update k v m) = (map_of m)(k \<mapsto> v)"
  by (simp add: update_conv')

lemma map_of_delete [simp]: "map_of (AList.delete k m) = (map_of m)(k := None)"
  by (simp add: delete_conv')

lemma hm_wf_update [simp]: "hm_wf m \<Longrightarrow> hm_wf (AList.update k v m)"
  by (rule distinct_update)

lemma hm_wf_delete [simp]: "hm_wf m \<Longrightarrow> hm_wf (AList.delete k m)"
  by (rule distinct_delete)

lemma length_update: "length (AList.update k v m)
  = (if k \<in> fst ` set m then length m else Suc (length m))"
  by (induction m) auto

lemma length_delete: "hm_wf m \<Longrightarrow> k \<in> fst ` set m \<Longrightarrow> Suc (length (AList.delete k m)) = length m"
proof (induction m)
  case Nil
  then show ?case by simp
next
  case (Cons p m)
  obtain a b where p: "p = (a, b)" by (cases p)
  show ?case
  proof (cases "a = k")
    case True
    with Cons.prems p have "k \<notin> fst ` set m" by auto
    then have "AList.delete k m = m" by (rule delete_id)
    with True p show ?thesis by simp
  next
    case False
    with Cons p show ?thesis by auto
  qed
qed

lemma map_of_dom: "map_of m k \<noteq> None \<longleftrightarrow> k \<in> fst ` set m"
  by (simp add: map_of_eq_None_iff)

section \<open>Strings\<close>

text \<open>
  A Rust string is the list of its UTF-8 bytes. The ASCII functions act on the bytes below 128;
  \<open>str_trim\<close> strips ASCII white space (the non-ASCII white space that \<^verbatim>\<open>str::trim\<close> also strips
  does not occur in the vocabularies modelled here).
\<close>

definition lower_char :: "char \<Rightarrow> char" where
  "lower_char c = (if (65::nat) \<le> of_char c \<and> of_char c \<le> (90::nat) then char_of (of_char c + 32 :: nat) else c)"

definition to_ascii_lowercase :: "string \<Rightarrow> string" where
  "to_ascii_lowercase s = map lower_char s"

definition is_space :: "char \<Rightarrow> bool" where
  "is_space c \<longleftrightarrow> ((9::nat) \<le> of_char c \<and> of_char c \<le> (13::nat)) \<or> c = CHR '' ''"

definition is_digit :: "char \<Rightarrow> bool" where
  "is_digit c \<longleftrightarrow> (48::nat) \<le> of_char c \<and> of_char c \<le> (57::nat)"

definition str_trim :: "string \<Rightarrow> string" where
  "str_trim s = rev (dropWhile is_space (rev (dropWhile is_space s)))"

definition str_is_empty :: "string \<Rightarrow> bool" where
  "str_is_empty s \<longleftrightarrow> s = []"

fun str_contains :: "string \<Rightarrow> string \<Rightarrow> bool" where
  "str_contains [] p \<longleftrightarrow> p = []"
| "str_contains (c # s) p \<longleftrightarrow> take (length p) (c # s) = p \<or> str_contains s p"

fun split_once :: "char \<Rightarrow> string \<Rightarrow> (string \<times> string) option" where
  "split_once c [] = None"
| "split_once c (x # s) =
     (if x = c then Some ([], s)
      else map_option (\<lambda>(a, b). (x # a, b)) (split_once c s))"

lemma split_once_None [str_simps]: "split_once c s = None \<longleftrightarrow> c \<notin> set s"
  by (induction s) auto

lemma split_once_Some: "split_once c s = Some (a, b) \<longleftrightarrow> s = a @ c # b \<and> c \<notin> set a"
proof (induction s arbitrary: a)
  case Nil
  then show ?case by simp
next
  case (Cons x s)
  then show ?case by (cases a) auto
qed

lemma split_once_append [str_simps]: "c \<notin> set a \<Longrightarrow> split_once c (a @ c # b) = Some (a, b)"
  by (simp add: split_once_Some)

lemma dropWhile_idem [simp]: "dropWhile p (dropWhile p xs) = dropWhile p xs"
  by (induction xs) auto

lemma dropWhile_head: "dropWhile p xs = x # ys \<Longrightarrow> \<not> p x"
  by (induction xs) (auto split: if_splits)

lemma str_trim_idem [str_simps]: "str_trim (str_trim s) = str_trim s"
proof -
  let ?t = "dropWhile is_space s"
  let ?u = "rev (dropWhile is_space (rev ?t))"
  have front: "dropWhile is_space ?u = ?u"
  proof (cases ?u)
    case Nil
    then show ?thesis by (simp only: Nil dropWhile.simps)
  next
    case (Cons c cs)
    have "rev ?t = takeWhile is_space (rev ?t) @ dropWhile is_space (rev ?t)" by simp
    then have "?t = ?u @ rev (takeWhile is_space (rev ?t))"
      by (metis rev_append rev_rev_ident)
    with Cons have "?t = c # cs @ rev (takeWhile is_space (rev ?t))" by (metis append_Cons)
    then have "\<not> is_space c" by (rule dropWhile_head)
    then show ?thesis by (simp only: Cons dropWhile.simps if_False)
  qed
  show ?thesis unfolding str_trim_def by (simp only: front rev_rev_ident dropWhile_idem)
qed

lemma lower_char_idem: "lower_char (lower_char c) = lower_char c"
proof (cases "(65::nat) \<le> of_char c \<and> of_char c \<le> (90::nat)")
  case True
  then have "of_char (char_of (of_char c + 32 :: nat)) = (of_char c + 32 :: nat)"
    by simp
  with True show ?thesis by (simp add: lower_char_def)
next
  case False
  then have "lower_char c = c" unfolding lower_char_def by (rule if_not_P)
  then show ?thesis by simp
qed

lemma to_ascii_lowercase_idem [str_simps]:
  "to_ascii_lowercase (to_ascii_lowercase s) = to_ascii_lowercase s"
  by (simp add: to_ascii_lowercase_def lower_char_idem comp_def)

section \<open>Closed vocabularies\<close>

text \<open>
  The workspace writes every closed vocabulary the same way: an enum with the constant \<open>ALL\<close>, a
  literal \<open>as_str\<close> for each member, and \<open>from_wire\<close>, the linear search of \<open>ALL\<close> for the
  literal. Its contract is that \<open>ALL\<close> is exhaustive and the literals are distinct; then parsing
  inverts printing and accepts nothing else.
\<close>

definition wire_search :: "'v list \<Rightarrow> ('v \<Rightarrow> string) \<Rightarrow> string \<Rightarrow> 'v option" where
  "wire_search all lit s = find (\<lambda>v. lit v = s) all"

locale closed_vocabulary =
  fixes all_values :: "'v list"
    and literal :: "'v \<Rightarrow> string"
    and parse :: "string \<Rightarrow> 'v option"
  assumes parse_is_search: "parse s = wire_search all_values literal s"
    and exhaustive: "v \<in> set all_values"
    and literals_distinct: "distinct (map literal all_values)"
begin

lemma literal_inj: "literal v = literal w \<Longrightarrow> v = w"
  using literals_distinct exhaustive by (metis distinct_map inj_onD)

lemma parse_literal: "parse (literal v) = Some v"
proof -
  have "find (\<lambda>w. literal w = literal v) xs = Some v" if "v \<in> set xs" for xs
    using that by (induction xs) (auto dest: literal_inj)
  then show ?thesis by (simp add: parse_is_search wire_search_def exhaustive)
qed

lemma parse_sound: "parse s = Some v \<Longrightarrow> literal v = s"
  by (auto simp: parse_is_search wire_search_def find_Some_iff)

lemma parse_iff: "parse s = Some v \<longleftrightarrow> s = literal v"
  using parse_sound parse_literal by blast

lemma parse_rejects: "s \<notin> literal ` UNIV \<Longrightarrow> parse s = None"
  by (cases "parse s") (auto dest: parse_sound)

end

end
