(* ===== verification/ProviderModel.thy ===== *)
theory ProviderModel
  imports LT_Prelude
begin

text \<open>
  \<^verbatim>\<open>crates/core/src/provider.rs\<close>, \<^verbatim>\<open>crates/core/src/model_id.rs\<close> and
  \<^verbatim>\<open>crates/core/src/alias_table.rs\<close>: the open provider id, the coarse lab family, and the one
  canonicalizer of \<open>(provider, model)\<close> pairs that prices, limit scopes and rollups share.
\<close>

section \<open>Provider ids\<close>

definition UNKNOWN_PROVIDER :: string where
  "UNKNOWN_PROVIDER = ''unknown''"

definition is_ascii_alnum :: "char \<Rightarrow> bool" where
  "is_ascii_alnum c \<longleftrightarrow> is_digit c
     \<or> ((65::nat) \<le> of_char c \<and> of_char c \<le> (90::nat))
     \<or> ((97::nat) \<le> of_char c \<and> of_char c \<le> (122::nat))"

definition id_char :: "char \<Rightarrow> bool" where
  "id_char c \<longleftrightarrow> is_ascii_alnum c \<or> c = CHR ''.'' \<or> c = CHR ''_'' \<or> c = CHR ''-''"

text \<open>The scan of \<open>ProviderId::new\<close>: the output so far and whether a separator is pending.\<close>

fun id_scan :: "string \<Rightarrow> bool \<Rightarrow> string \<Rightarrow> string" where
  "id_scan out pending [] = out"
| "id_scan out pending (c # cs) =
     (let c = lower_char c in
      if id_char c then
        id_scan ((if pending \<and> out \<noteq> [] then out @ ''-'' else out) @ [c]) False cs
      else id_scan out True cs)"

definition trim_dashes :: "string \<Rightarrow> string" where
  "trim_dashes s = rev (dropWhile (\<lambda>c. c = CHR ''-'') (rev (dropWhile (\<lambda>c. c = CHR ''-'') s)))"

definition provider_id :: "string \<Rightarrow> string" where
  "provider_id s = (let trimmed = trim_dashes (id_scan [] False (str_trim s)) in
     if trimmed = [] then UNKNOWN_PROVIDER else trimmed)"

definition provider_is_unknown :: "string \<Rightarrow> bool" where
  "provider_is_unknown p \<longleftrightarrow> p = UNKNOWN_PROVIDER"

section \<open>Lab families\<close>

datatype provider_family = OpenAi | Anthropic | Google | Mistral | Meta | OtherFamily

fun family_as_str :: "provider_family \<Rightarrow> string" where
  "family_as_str OpenAi = ''openai''"
| "family_as_str Anthropic = ''anthropic''"
| "family_as_str Google = ''google''"
| "family_as_str Mistral = ''mistral''"
| "family_as_str Meta = ''meta''"
| "family_as_str OtherFamily = UNKNOWN_PROVIDER"

definition family_is_known :: "provider_family \<Rightarrow> bool" where
  "family_is_known f \<longleftrightarrow> f \<noteq> OtherFamily"

definition starts_with :: "string \<Rightarrow> string \<Rightarrow> bool" where
  "starts_with s p \<longleftrightarrow> take (length p) s = p"

definition starts_any :: "string \<Rightarrow> string list \<Rightarrow> bool" where
  "starts_any s markers \<longleftrightarrow>
     list_ex (\<lambda>m. starts_with s m \<and>
       (let rest = drop (length m) s in
        rest = [] \<or> starts_with rest ''-'' \<or> starts_with rest ''.'')) markers"

definition family_of :: "string \<Rightarrow> provider_family" where
  "family_of s0 = (let s = to_ascii_lowercase (str_trim s0) in
     if s = [] then OtherFamily
     else if str_contains s ''anthropic'' \<or> str_contains s ''claude''
       \<or> starts_any s [''haiku'', ''sonnet'', ''opus''] then Anthropic
     else if str_contains s ''openai'' \<or> str_contains s ''gpt''
       \<or> starts_any s [''azure'', ''o1'', ''o3'', ''o4''] then OpenAi
     else if str_contains s ''google'' \<or> str_contains s ''gemini'' \<or> str_contains s ''gemma''
       \<or> str_contains s ''vertex'' \<or> str_contains s ''bison'' \<or> starts_with s ''gcp'' then Google
     else if str_contains s ''mistral'' \<or> str_contains s ''mixtral'' \<or> str_contains s ''codestral''
       then Mistral
     else if str_contains s ''llama'' \<or> starts_with s ''meta'' then Meta
     else OtherFamily)"

section \<open>Model ids\<close>

record model_id =
  mi_provider :: string
  mi_family :: string
  mi_variant :: "string option"
  mi_lane :: "string option"

definition PROVIDER_SYNONYMS :: "(string \<times> string) list" where
  "PROVIDER_SYNONYMS =
    [(''azure-openai'', ''openai''), (''azure'', ''openai''), (''google-vertex'', ''google''),
     (''vertex'', ''google''), (''vertex_ai'', ''google''), (''vertex-ai'', ''google''),
     (''gemini'', ''google''), (''anthropic-bedrock'', ''anthropic''),
     (''bedrock-anthropic'', ''anthropic'')]"

definition synonym :: "string \<Rightarrow> string" where
  "synonym i = (case map_of PROVIDER_SYNONYMS i of Some canon \<Rightarrow> provider_id canon | None \<Rightarrow> i)"

text \<open>\<open>split_date_suffix\<close> reads the bytes from the end: \<open>-YYYY-MM-DD\<close> first, then \<open>-YYYYMMDD\<close>.\<close>

definition all_digits :: "string \<Rightarrow> bool" where
  "all_digits s \<longleftrightarrow> list_all is_digit s"

definition slice :: "nat \<Rightarrow> nat \<Rightarrow> string \<Rightarrow> string" where
  "slice i j s = take (j - i) (drop i s)"

definition split_date_suffix :: "string \<Rightarrow> string \<times> string option" where
  "split_date_suffix model = (let n = length model in
     if 11 < n \<and> (let s = n - 11 in model ! s = CHR ''-'' \<and> model ! (s + 5) = CHR ''-''
         \<and> model ! (s + 8) = CHR ''-'' \<and> all_digits (slice (s + 1) (s + 5) model)
         \<and> all_digits (slice (s + 6) (s + 8) model) \<and> all_digits (slice (s + 9) n model))
     then (take (n - 11) model, Some (drop (n - 11 + 1) model))
     else if 9 < n \<and> (let s = n - 9 in model ! s = CHR ''-'' \<and> all_digits (slice (s + 1) n model))
     then (take (n - 9) model, Some (drop (n - 9 + 1) model))
     else (model, None))"

definition model_prefix :: "string \<Rightarrow> string option \<times> string" where
  "model_prefix model =
     (case split_once (CHR ''/'') model of
        Some (pre, rest) \<Rightarrow>
          if str_trim pre \<noteq> [] \<and> str_trim rest \<noteq> [] then (Some (str_trim pre), str_trim rest)
          else (None, model)
      | None \<Rightarrow> (None, model))"

definition split_lane :: "string \<Rightarrow> string \<times> string option" where
  "split_lane model =
     (case split_once (CHR ''@'') model of
        Some (head, tail) \<Rightarrow>
          if head \<noteq> [] \<and> tail \<noteq> [] then (head, Some tail) else (model, None)
      | None \<Rightarrow> (model, None))"

definition canonicalize :: "string \<Rightarrow> string \<Rightarrow> model_id" where
  "canonicalize provider model0 =
     (let (prefix, model) = model_prefix (to_ascii_lowercase (str_trim model0));
          i = provider_id provider;
          i = (if provider_is_unknown i then
                 (case prefix of Some p \<Rightarrow> provider_id p | None \<Rightarrow> i) else i);
          (rest, lane) = split_lane model;
          (family, variant) = split_date_suffix rest
      in \<lparr>mi_provider = synonym i, mi_family = family, mi_variant = variant, mi_lane = lane\<rparr>)"

definition model_key :: "model_id \<Rightarrow> string" where
  "model_key m = mi_provider m @ ''/'' @ mi_family m"

definition model_provider_family :: "model_id \<Rightarrow> provider_family" where
  "model_provider_family m =
     (case family_of (mi_family m) of OtherFamily \<Rightarrow> family_of (mi_provider m) | f \<Rightarrow> f)"

definition dated :: "model_id \<Rightarrow> string" where
  "dated m = (case mi_variant m of Some v \<Rightarrow> mi_family m @ ''-'' @ v | None \<Rightarrow> mi_family m)"

definition judge_family :: "string \<Rightarrow> provider_family" where
  "judge_family spec0 = (let spec = str_trim spec0 in
     if spec = [] then OtherFamily
     else case split_once (CHR ''/'') spec of
       Some (pre, rest) \<Rightarrow>
         (let f = family_of pre in
          if family_is_known f then f
          else if str_trim rest \<noteq> [] then family_of rest
          else family_of spec)
     | None \<Rightarrow> family_of spec)"

section \<open>Declared aliases\<close>

type_synonym alias_table = "(string \<times> string) list"

text \<open>Collecting into a \<^verbatim>\<open>HashMap\<close>: a later pair overwrites an earlier one with the same key.\<close>

definition alias_from_pairs :: "(string \<times> string) list \<Rightarrow> alias_table" where
  "alias_from_pairs pairs =
     fold (\<lambda>(a, c) t. AList.update a c t)
       (filter (\<lambda>(a, c). a \<noteq> [] \<and> c \<noteq> [] \<and> a \<noteq> c)
         (map (\<lambda>(a, c). (to_ascii_lowercase (str_trim a), to_ascii_lowercase (str_trim c))) pairs))
       []"

definition alias_resolve :: "alias_table \<Rightarrow> string \<Rightarrow> string \<Rightarrow> string option" where
  "alias_resolve t provider model =
     (case map_of t (provider @ ''/'' @ model) of Some c \<Rightarrow> Some c | None \<Rightarrow> map_of t model)"

definition with_aliases :: "alias_table \<Rightarrow> model_id \<Rightarrow> model_id" where
  "with_aliases t m =
     (case (if mi_variant m \<noteq> None then alias_resolve t (mi_provider m) (dated m) else None) of
        Some target \<Rightarrow> m\<lparr>mi_family := target, mi_variant := None\<rparr>
      | None \<Rightarrow>
          (case alias_resolve t (mi_provider m) (mi_family m) of
             Some target \<Rightarrow> m\<lparr>mi_family := target\<rparr>
           | None \<Rightarrow> m))"

definition canonicalize_with :: "string \<Rightarrow> string \<Rightarrow> alias_table \<Rightarrow> model_id" where
  "canonicalize_with provider model t = with_aliases t (canonicalize provider model)"

section \<open>Facts about ids\<close>

lemma lower_char_fix: "id_char (lower_char c) \<Longrightarrow> lower_char (lower_char c) = lower_char c"
  by (rule lower_char_idem)

definition canon_char :: "char \<Rightarrow> bool" where
  "canon_char c \<longleftrightarrow> id_char c \<and> lower_char c = c"

lemma id_scan_canon: "list_all canon_char out \<Longrightarrow> list_all canon_char (id_scan out b s)"
proof (induction out b s rule: id_scan.induct)
  case (1 out pending)
  then show ?case by simp
next
  case (2 out pending c cs)
  have dash: "canon_char (CHR ''-'')" by (simp add: canon_char_def id_char_def lower_char_def)
  show ?case
  proof (cases "id_char (lower_char c)")
    case True
    then have "canon_char (lower_char c)" by (simp add: canon_char_def lower_char_idem)
    with 2 True dash show ?thesis by (simp add: Let_def)
  next
    case False
    with 2 show ?thesis by (simp add: Let_def)
  qed
qed

text \<open>On a string that is already canonical the scan changes nothing.\<close>

lemma id_scan_id: "list_all canon_char s \<Longrightarrow> id_scan out False s = out @ s"
  by (induction s arbitrary: out) (simp_all add: canon_char_def Let_def)

lemma trim_dashes_ends:
  assumes "trim_dashes s = x # xs"
  shows "x \<noteq> CHR ''-''" "last (x # xs) \<noteq> CHR ''-''"
proof -
  let ?p = "\<lambda>c. c = CHR ''-''" and ?t = "dropWhile (\<lambda>c. c = CHR ''-'') s"
  have t: "?t = trim_dashes s @ rev (takeWhile ?p (rev ?t))"
    unfolding trim_dashes_def by (metis rev_append rev_rev_ident takeWhile_dropWhile_id)
  then have "?t = x # (xs @ rev (takeWhile ?p (rev ?t)))" using assms by simp
  then show "x \<noteq> CHR ''-''" by (rule dropWhile_head)
  have "dropWhile ?p (rev ?t) = last (x # xs) # rev (butlast (x # xs))"
    using assms unfolding trim_dashes_def
    by (metis append_butlast_last_id list.distinct(1) rev.simps(2) rev_append rev_rev_ident
        append_Cons append_Nil rev_singleton_conv)
  then show "last (x # xs) \<noteq> CHR ''-''" by (rule dropWhile_head)
qed

lemma trim_dashes_id:
  assumes "s = [] \<or> hd s \<noteq> CHR ''-'' \<and> last s \<noteq> CHR ''-''"
  shows "trim_dashes s = s"
proof (cases "s = []")
  case True
  then show ?thesis by (simp add: trim_dashes_def)
next
  case False
  with assms have "dropWhile (\<lambda>c. c = CHR ''-'') s = s" by (cases s) auto
  moreover have "dropWhile (\<lambda>c. c = CHR ''-'') (rev s) = rev s"
    using assms False by (cases s rule: rev_cases) auto
  ultimately show ?thesis by (simp add: trim_dashes_def)
qed

lemma canon_not_space: "canon_char c \<Longrightarrow> \<not> is_space c"
  by (auto simp: canon_char_def id_char_def is_ascii_alnum_def is_digit_def is_space_def)

lemma str_trim_canon: "list_all canon_char s \<Longrightarrow> str_trim s = s"
proof -
  have *: "dropWhile is_space t = t" if "list_all canon_char t" for t
    using that canon_not_space by (cases t) auto
  assume "list_all canon_char s"
  moreover from this have "list_all canon_char (rev s)" by (simp add: list_all_iff)
  ultimately show ?thesis by (simp add: str_trim_def *)
qed

lemma list_all_trim_dashes: "list_all P s \<Longrightarrow> list_all P (trim_dashes s)"
  unfolding trim_dashes_def list_all_iff by (auto dest!: set_dropWhileD)

lemma provider_id_canon: "list_all canon_char (provider_id s)"
proof -
  have "list_all canon_char (trim_dashes (id_scan [] False (str_trim s)))"
    by (intro list_all_trim_dashes id_scan_canon) simp
  moreover have "list_all canon_char UNKNOWN_PROVIDER"
    by (simp add: UNKNOWN_PROVIDER_def canon_char_def id_char_def is_ascii_alnum_def lower_char_def)
  ultimately show ?thesis by (simp add: provider_id_def Let_def)
qed

lemma provider_id_nonempty: "provider_id s \<noteq> []"
  by (simp add: provider_id_def Let_def UNKNOWN_PROVIDER_def)

lemma provider_id_ends: "hd (provider_id s) \<noteq> CHR ''-'' \<and> last (provider_id s) \<noteq> CHR ''-''"
proof (cases "trim_dashes (id_scan [] False (str_trim s))")
  case Nil
  then show ?thesis by (simp add: provider_id_def UNKNOWN_PROVIDER_def)
next
  case (Cons x xs)
  from trim_dashes_ends[OF Cons] show ?thesis using Cons by (simp add: provider_id_def)
qed

lemma provider_id_idem: "provider_id (provider_id s) = provider_id s"
proof -
  have "id_scan [] False (str_trim (provider_id s)) = provider_id s"
    by (simp add: str_trim_canon provider_id_canon id_scan_id)
  moreover have "trim_dashes (provider_id s) = provider_id s"
    by (rule trim_dashes_id) (simp add: provider_id_ends)
  ultimately show ?thesis
    by (subst provider_id_def) (simp add: Let_def provider_id_nonempty)
qed


section \<open>Facts about models\<close>

text \<open>Every step that takes a suffix off a name keeps what it took.\<close>

lemma split_date_suffix_dated:
  "split_date_suffix m = (f, v) \<Longrightarrow> m = (case v of Some d \<Rightarrow> f @ ''-'' @ d | None \<Rightarrow> f)"
proof -
  have cut: "m = take s m @ ''-'' @ drop (s + 1) m" if "s < length m" "m ! s = CHR ''-''" for s
    using id_take_nth_drop [OF that(1)] that(2) by simp
  assume "split_date_suffix m = (f, v)"
  then show ?thesis
    using cut [of "length m - 11"] cut [of "length m - 9"]
    by (auto simp: split_date_suffix_def Let_def split: if_splits)
qed

lemma split_date_suffix_shape:
  "split_date_suffix m = (f, Some v) \<Longrightarrow> f \<noteq> [] \<and> length v \<in> {8, 10}"
  by (auto simp: split_date_suffix_def Let_def split: if_splits)

lemma split_lane_join:
  "split_lane m = (h, l) \<Longrightarrow> m = h @ (case l of Some t \<Rightarrow> ''@'' @ t | None \<Rightarrow> [])"
  by (auto simp: split_lane_def split_once_Some split: option.splits if_splits)

lemma canonicalize_parts:
  "split_lane (snd (model_prefix (to_ascii_lowercase (str_trim m))))
     = (dated (canonicalize p m), mi_lane (canonicalize p m))"
proof -
  obtain prefix model where pm: "model_prefix (to_ascii_lowercase (str_trim m)) = (prefix, model)"
    by (cases "model_prefix (to_ascii_lowercase (str_trim m))")
  obtain rest lane where rl: "split_lane model = (rest, lane)" by (cases "split_lane model")
  obtain family variant where fv: "split_date_suffix rest = (family, variant)"
    by (cases "split_date_suffix rest")
  have c: "canonicalize p m = \<lparr>mi_provider = mi_provider (canonicalize p m),
      mi_family = family, mi_variant = variant, mi_lane = lane\<rparr>"
    by (simp add: canonicalize_def pm rl fv Let_def)
  have "dated (canonicalize p m) = rest"
    by (subst c) (simp add: dated_def split_date_suffix_dated [OF fv] split: option.splits)
  moreover have "mi_lane (canonicalize p m) = lane" by (subst c) simp
  ultimately show ?thesis by (simp add: pm rl)
qed

lemma lab_ids:
  "synonym (provider_id ''openai'') = provider_id ''openai''"
  "synonym (provider_id ''google'') = provider_id ''google''"
  "synonym (provider_id ''anthropic'') = provider_id ''anthropic''"
  by code_simp+

lemma synonym_idem:
  assumes "provider_id i = i"
  shows "synonym (synonym i) = synonym i \<and> provider_id (synonym i) = synonym i"
proof (cases "map_of PROVIDER_SYNONYMS i")
  case None
  then show ?thesis using assms by (simp add: synonym_def)
next
  case (Some canon)
  then have "canon \<in> {''openai'', ''google'', ''anthropic''}"
    by (auto simp: PROVIDER_SYNONYMS_def split: if_splits)
  then have "synonym (provider_id canon) = provider_id canon" by (auto simp: lab_ids)
  then show ?thesis using Some by (simp add: synonym_def provider_id_idem)
qed

lemma canonicalize_provider:
  "mi_provider (canonicalize p m) = synonym
     (if provider_id p = UNKNOWN_PROVIDER
      then (case fst (model_prefix (to_ascii_lowercase (str_trim m))) of
              Some q \<Rightarrow> provider_id q | None \<Rightarrow> UNKNOWN_PROVIDER)
      else provider_id p)"
  by (auto simp: canonicalize_def Let_def provider_is_unknown_def split: prod.splits option.splits)

lemma unknown_id: "provider_id UNKNOWN_PROVIDER = UNKNOWN_PROVIDER"
  by code_simp

text \<open>
  The provider a canonicalized pair carries is a fixed point of both normalisations, the id
  canonicalizer and the synonym table, so a stored id, a price row and a fresh event that name the
  same vendor compare equal however often they are normalised.
\<close>

theorem canonicalize_provider_stable:
  "provider_id (mi_provider (canonicalize p m)) = mi_provider (canonicalize p m)
   \<and> synonym (mi_provider (canonicalize p m)) = mi_provider (canonicalize p m)"
proof -
  define i where "i = (if provider_id p = UNKNOWN_PROVIDER
      then (case fst (model_prefix (to_ascii_lowercase (str_trim m))) of
              Some q \<Rightarrow> provider_id q | None \<Rightarrow> UNKNOWN_PROVIDER)
      else provider_id p)"
  have "provider_id i = i" by (auto simp: i_def provider_id_idem unknown_id split: option.splits)
  then show ?thesis using synonym_idem [of i] by (simp add: canonicalize_provider flip: i_def)
qed

text \<open>
  Canonicalization forgets nothing of the model name: what is left after the provider prefix is
  the undated family, the date put back, and the lane put back.
\<close>

theorem canonicalize_lossless:
  "snd (model_prefix (to_ascii_lowercase (str_trim m)))
     = dated (canonicalize p m)
       @ (case mi_lane (canonicalize p m) of Some l \<Rightarrow> ''@'' @ l | None \<Rightarrow> [])"
  by (rule split_lane_join [OF canonicalize_parts])

end
