(* ===== verification/GatewayRouting.thy ===== *)
theory GatewayRouting
  imports ProviderModel
begin

text \<open>
  \<^verbatim>\<open>crates/gateway/src/target.rs\<close>, \<^verbatim>\<open>config.rs\<close> and \<^verbatim>\<open>routes.rs\<close>: the targets
  a gateway names, the seat each spends, the validation of \<^verbatim>\<open>gateway.toml\<close> and the chain of
  targets a request's \<open>model\<close> resolves to. Error messages are kept as constructors with the values
  they mention.
\<close>

section \<open>Targets\<close>

record target =
  tg_provider :: string
  tg_model :: string

datatype target_error = NoSlash string | EmptyPart string

definition target_parse :: "string \<Rightarrow> target_error + target" where
  "target_parse spec0 = (let spec = str_trim spec0 in
     case split_once (CHR ''/'') spec of
       None \<Rightarrow> Inl (NoSlash spec)
     | Some (provider, model) \<Rightarrow>
         let provider = str_trim provider; model = str_trim model in
         if provider = [] \<or> model = [] then Inl (EmptyPart spec)
         else Inr \<lparr>tg_provider = provider, tg_model = model\<rparr>)"

definition target_spec :: "target \<Rightarrow> string" where
  "target_spec t = tg_provider t @ ''/'' @ tg_model t"

definition target_family :: "target \<Rightarrow> provider_family" where
  "target_family t =
     (if tg_provider t = ''codex'' then OpenAi else family_of (tg_provider t))"

definition same_seat :: "target \<Rightarrow> target \<Rightarrow> bool" where
  "same_seat s other =
     (if tg_provider s = tg_provider other then True
      else let a = target_family s; b = target_family other in a = b \<and> a \<noteq> OtherFamily)"

section \<open>Configuration\<close>

definition DEFAULT_COOLDOWN_SECS :: nat where "DEFAULT_COOLDOWN_SECS = 300"

record route =
  primary :: string
  fallback :: "string list"

text \<open>The routes are a \<^verbatim>\<open>BTreeMap\<close>: an association list in key order.\<close>

record gateway_config =
  cooldown_secs :: nat
  defaults_fallback :: "string list"
  routes :: "(string \<times> route) list"

definition gateway_config_default :: gateway_config where
  "gateway_config_default =
     \<lparr>cooldown_secs = DEFAULT_COOLDOWN_SECS, defaults_fallback = [], routes = []\<rparr>"

datatype config_error =
    BadDefaultFallback target_error
  | BadPrimary string target_error
  | BadFallback string target_error
  | SharedSeat string string string

fun validate_defaults :: "string list \<Rightarrow> config_error option" where
  "validate_defaults [] = None"
| "validate_defaults (spec # specs) =
     (case target_parse spec of
        Inl e \<Rightarrow> Some (BadDefaultFallback e)
      | Inr _ \<Rightarrow> validate_defaults specs)"

fun validate_fallbacks :: "string \<Rightarrow> route \<Rightarrow> target \<Rightarrow> string list \<Rightarrow> config_error option" where
  "validate_fallbacks name r prim [] = None"
| "validate_fallbacks name r prim (spec # specs) =
     (case target_parse spec of
        Inl e \<Rightarrow> Some (BadFallback name e)
      | Inr fb \<Rightarrow>
          if same_seat fb prim then Some (SharedSeat name spec (primary r))
          else validate_fallbacks name r prim specs)"

fun validate_routes :: "(string \<times> route) list \<Rightarrow> config_error option" where
  "validate_routes [] = None"
| "validate_routes ((name, r) # rs) =
     (case target_parse (primary r) of
        Inl e \<Rightarrow> Some (BadPrimary name e)
      | Inr prim \<Rightarrow>
          (case validate_fallbacks name r prim (fallback r) of
             Some e \<Rightarrow> Some e
           | None \<Rightarrow> validate_routes rs))"

definition gateway_validate :: "gateway_config \<Rightarrow> config_error option" where
  "gateway_validate cfg =
     (case validate_defaults (defaults_fallback cfg) of
        Some e \<Rightarrow> Some e
      | None \<Rightarrow> validate_routes (routes cfg))"

section \<open>Resolution\<close>

record plan =
  plan_route :: "string option"
  plan_chain :: "target list"

datatype resolve_error = ModelNotFound string "string list" | BadTarget target_error

fun parse_all :: "string list \<Rightarrow> target_error + target list" where
  "parse_all [] = Inr []"
| "parse_all (spec # specs) =
     (case target_parse spec of
        Inl e \<Rightarrow> Inl e
      | Inr t \<Rightarrow> (case parse_all specs of Inl e \<Rightarrow> Inl e | Inr ts \<Rightarrow> Inr (t # ts)))"

fun extend_chain :: "target \<Rightarrow> target list \<Rightarrow> string list \<Rightarrow> target_error + target list" where
  "extend_chain literal chain [] = Inr chain"
| "extend_chain literal chain (spec # specs) =
     (case target_parse spec of
        Inl e \<Rightarrow> Inl e
      | Inr fb \<Rightarrow>
          extend_chain literal
            (if \<not> same_seat fb literal \<and> fb \<notin> set chain then chain @ [fb] else chain) specs)"

definition resolve :: "gateway_config \<Rightarrow> string \<Rightarrow> resolve_error + plan" where
  "resolve cfg model0 = (let model = str_trim model0 in
     case map_of (routes cfg) model of
       Some r \<Rightarrow>
         (case parse_all (primary r # fallback r) of
            Inl e \<Rightarrow> Inl (BadTarget e)
          | Inr chain \<Rightarrow> Inr \<lparr>plan_route = Some model, plan_chain = chain\<rparr>)
     | None \<Rightarrow>
         if CHR ''/'' \<notin> set model then Inl (ModelNotFound model (map fst (routes cfg)))
         else (case target_parse model of
            Inl e \<Rightarrow> Inl (BadTarget e)
          | Inr literal \<Rightarrow>
              (case extend_chain literal [literal] (defaults_fallback cfg) of
                 Inl e \<Rightarrow> Inl (BadTarget e)
               | Inr chain \<Rightarrow> Inr \<lparr>plan_route = None, plan_chain = chain\<rparr>)))"

section \<open>Facts about targets\<close>

lemma str_trim_ends:
  assumes "str_trim s \<noteq> []"
  shows "\<not> is_space (hd (str_trim s))" "\<not> is_space (last (str_trim s))"
proof -
  obtain x xs where c: "str_trim s = x # xs" using assms by (cases "str_trim s") auto
  let ?t = "dropWhile is_space s"
  have d: "dropWhile is_space (rev ?t) = rev (str_trim s)" by (simp add: str_trim_def)
  obtain y ys where r: "rev (str_trim s) = y # ys" using assms by (cases "rev (str_trim s)") auto
  with d have "\<not> is_space y" by (metis dropWhile_head)
  then show "\<not> is_space (last (str_trim s))" using r by (metis last_rev list.sel(1) rev_rev_ident)
  have "?t = str_trim s @ rev (takeWhile is_space (rev ?t))"
    by (metis d rev_append rev_rev_ident takeWhile_dropWhile_id)
  then have "?t = x # (xs @ rev (takeWhile is_space (rev ?t)))" using c by simp
  then show "\<not> is_space (hd (str_trim s))" using c by (metis dropWhile_head list.sel(1))
qed

lemma str_trim_id:
  assumes "s \<noteq> []" "\<not> is_space (hd s)" "\<not> is_space (last s)"
  shows "str_trim s = s"
proof -
  have "dropWhile is_space s = s" using assms by (cases s) auto
  moreover have "dropWhile is_space (rev s) = rev s"
    using assms by (cases s rule: rev_cases) auto
  ultimately show ?thesis by (simp add: str_trim_def)
qed

lemma set_str_trim: "set (str_trim s) \<subseteq> set s"
  unfolding str_trim_def by (auto dest!: set_dropWhileD)

text \<open>
  A target that parsed prints to a spec that parses back to it, whatever white space the operator
  wrote: the identity an event carries names the target that served it.
\<close>

theorem target_roundtrip:
  assumes "target_parse s = Inr t"
  shows "target_parse (target_spec t) = Inr t"
proof -
  obtain a b where ab: "split_once (CHR ''/'') (str_trim s) = Some (a, b)"
      "str_trim a \<noteq> []" "str_trim b \<noteq> []" "t = \<lparr>tg_provider = str_trim a, tg_model = str_trim b\<rparr>"
    using assms by (auto simp: target_parse_def Let_def split: option.splits if_splits)
  let ?u = "target_spec t"
  have u: "?u = str_trim a @ CHR ''/'' # str_trim b" by (simp add: target_spec_def ab)
  have "CHR ''/'' \<notin> set (str_trim a)" using ab(1) set_str_trim [of a] by (auto simp: split_once_Some)
  then have "split_once (CHR ''/'') ?u = Some (str_trim a, str_trim b)"
    by (simp add: u split_once_append)
  moreover have "str_trim ?u = ?u"
    using str_trim_ends [OF ab(2)] str_trim_ends [OF ab(3)] ab(2,3) by (intro str_trim_id) (auto simp: u)
  ultimately show ?thesis
    using ab by (simp add: target_parse_def str_trim_idem)
qed

theorem target_roundtrip_witness:
  "target_parse (target_spec \<lparr>tg_provider = ''codex'', tg_model = ''gpt-5.5@medium''\<rparr>)
     = Inr \<lparr>tg_provider = ''codex'', tg_model = ''gpt-5.5@medium''\<rparr>"
  by (rule target_roundtrip [of "'' codex / gpt-5.5@medium''"]) code_simp

lemma same_seat_refl [simp]: "same_seat t t"
  by (simp add: same_seat_def)

lemma same_seat_sym: "same_seat s t = same_seat t s"
  by (auto simp: same_seat_def Let_def)

lemma validate_fallbacks_None:
  "validate_fallbacks name r prim specs = None \<Longrightarrow>
     \<exists>ts. parse_all specs = Inr ts \<and> (\<forall>t \<in> set ts. \<not> same_seat t prim)"
  by (induction specs) (auto split: sum.splits if_splits)

lemma validate_routes_None:
  "validate_routes rs = None \<Longrightarrow> (name, r) \<in> set rs \<Longrightarrow>
     \<exists>prim ts. parse_all (primary r # fallback r) = Inr (prim # ts)
       \<and> (\<forall>t \<in> set ts. \<not> same_seat t prim)"
proof (induction rs rule: validate_routes.induct)
  case 1
  then show ?case by simp
next
  case (2 name' r' rs)
  then show ?case
    by (cases "(name, r) = (name', r')")
      (auto dest: validate_fallbacks_None split: sum.splits option.splits)
qed

lemma validate_defaults_None:
  "validate_defaults specs = None \<Longrightarrow> spec \<in> set specs \<Longrightarrow> \<exists>t. target_parse spec = Inr t"
  by (induction specs) (auto split: sum.splits)

lemma extend_chain_Inr:
  assumes "\<forall>spec \<in> set specs. \<exists>t. target_parse spec = Inr t"
    and "distinct (literal # ts)" and "\<forall>t \<in> set ts. \<not> same_seat t literal"
  shows "\<exists>us. extend_chain literal (literal # ts) specs = Inr (literal # us)
     \<and> distinct (literal # us) \<and> (\<forall>t \<in> set us. \<not> same_seat t literal)"
  using assms
proof (induction specs arbitrary: ts)
  case Nil
  then show ?case by auto
next
  case (Cons spec specs)
  then obtain fb where fb: "target_parse spec = Inr fb" by auto
  let ?ts = "if \<not> same_seat fb literal \<and> fb \<notin> set (literal # ts) then ts @ [fb] else ts"
  have "distinct (literal # ?ts)" "\<forall>t \<in> set ?ts. \<not> same_seat t literal"
    using Cons.prems by auto
  from Cons.IH [OF _ this] Cons.prems fb show ?case by (auto split: if_splits)
qed

text \<open>
  Under a configuration that validates, every model that is a route or a literal target resolves,
  and no target after the first of its chain is metered on the first one's seat.
\<close>

lemma resolve_validated:
  assumes "gateway_validate cfg = None"
    and "str_trim model \<in> fst ` set (routes cfg) \<or> (\<exists>t. target_parse (str_trim model) = Inr t)"
  shows "\<exists>prim rest route. resolve cfg model = Inr \<lparr>plan_route = route, plan_chain = prim # rest\<rparr>
     \<and> (\<forall>t \<in> set rest. \<not> same_seat t prim)"
proof -
  have d: "validate_defaults (defaults_fallback cfg) = None" and r: "validate_routes (routes cfg) = None"
    using assms(1) by (auto simp: gateway_validate_def split: option.splits)
  show ?thesis
  proof (cases "map_of (routes cfg) (str_trim model)")
    case (Some rt)
    then have "(str_trim model, rt) \<in> set (routes cfg)" by (rule map_of_SomeD)
    from validate_routes_None [OF r this] show ?thesis using Some by (auto simp: resolve_def Let_def)
  next
    case None
    then have "str_trim model \<notin> fst ` set (routes cfg)" by (simp add: map_of_eq_None_iff)
    with assms(2) obtain t where t: "target_parse (str_trim model) = Inr t" by blast
    then have "CHR ''/'' \<in> set (str_trim model)"
      by (auto simp: target_parse_def Let_def str_trim_idem split_once_Some split: option.splits)
    moreover obtain us where "extend_chain t [t] (defaults_fallback cfg) = Inr (t # us)"
        "\<forall>u \<in> set us. \<not> same_seat u t"
      using extend_chain_Inr [of "defaults_fallback cfg" t "[]"] validate_defaults_None [OF d] by auto
    ultimately show ?thesis using None t by (auto simp: resolve_def Let_def)
  qed
qed

lemma resolve_known:
  assumes "resolve cfg model = Inr p"
  shows "str_trim model \<in> fst ` set (routes cfg) \<or> (\<exists>t. target_parse (str_trim model) = Inr t)"
proof (cases "map_of (routes cfg) (str_trim model)")
  case None
  with assms show ?thesis by (auto simp: resolve_def Let_def split: sum.splits if_splits)
next
  case (Some r)
  then show ?thesis by (metis map_of_dom option.distinct(1))
qed

lemma resolve_seats:
  assumes "gateway_validate cfg = None" and "resolve cfg model = Inr p"
  shows "\<exists>prim rest. plan_chain p = prim # rest \<and> (\<forall>t \<in> set rest. \<not> same_seat t prim)"
  using resolve_validated [OF assms(1) resolve_known [OF assms(2)]] assms(2) by auto

end
