(* ===== verification/GatewayCooldown.thy ===== *)
theory GatewayCooldown
  imports LT_Prelude
begin

text \<open>
  \<^verbatim>\<open>crates/gateway/src/cooldown.rs\<close>: which seats are known-exhausted, and until when. The state
  is the \<^verbatim>\<open>HashMap<String, Instant>\<close> under the mutex; each method is one critical section, so
  one function that takes the clock reading of that section. The locale \<open>seat_holds\<close> is the
  contract the failover walk relies on; its interpretation at the end is on the model of the code.
\<close>

section \<open>The contract of a hold table\<close>

text \<open>
  \<open>until c p\<close> is the instant up to which \<open>p\<close> is held. Reading the remaining time may forget
  holds that have expired, never a live one. Time never runs backwards.
\<close>

datatype hold_op = OpMark string duration | OpClear string | OpRemaining string

locale seat_holds =
  fixes until :: "'c \<Rightarrow> string \<Rightarrow> instant option"
    and mark :: "'c \<Rightarrow> instant \<Rightarrow> string \<Rightarrow> duration \<Rightarrow> 'c"
    and remaining :: "'c \<Rightarrow> instant \<Rightarrow> string \<Rightarrow> 'c \<times> nat option"
    and clear :: "'c \<Rightarrow> string \<Rightarrow> 'c"
  assumes until_mark: "until (mark c now p d) q =
      (if q = p then Some (case until c p of None \<Rightarrow> now + int d | Some u \<Rightarrow> max u (now + int d))
       else until c q)"
    and until_clear: "until (clear c p) q = (if q = p then None else until c q)"
    and until_remaining: "until (fst (remaining c now p)) q =
      (if q = p \<and> (\<forall>u. until c p = Some u \<longrightarrow> u \<le> now) then None else until c q)"
    and remaining_answer: "snd (remaining c now p) =
      (case until c p of None \<Rightarrow> None
       | Some u \<Rightarrow> if now < u then Some (max 1 (as_secs (duration_since u now))) else None)"
begin

definition held :: "'c \<Rightarrow> instant \<Rightarrow> string \<Rightarrow> bool" where
  "held c now p \<longleftrightarrow> (\<exists>u. until c p = Some u \<and> now < u)"

lemma remaining_None_iff: "snd (remaining c now p) = None \<longleftrightarrow> \<not> held c now p"
  by (auto simp: remaining_answer held_def split: option.splits)

lemma remaining_positive: "snd (remaining c now p) = Some s \<Longrightarrow> 1 \<le> s"
  by (auto simp: remaining_answer split: option.splits if_splits)

lemma held_mark: "0 < d \<Longrightarrow> held (mark c now p d) now p"
  by (auto simp: held_def until_mark split: option.splits)

lemma held_mark_mono: "held c t q \<Longrightarrow> held (mark c now p d) t q"
  by (auto simp: held_def until_mark split: option.splits)

lemma held_mark_other: "q \<noteq> p \<Longrightarrow> held (mark c now p d) t q = held c t q"
  by (simp add: held_def until_mark)

lemma held_mark_until:
  "t < now + int d \<Longrightarrow> held (mark c now p d) t p"
  by (auto simp: held_def until_mark split: option.splits)

lemma held_clear: "held (clear c p) t q \<longleftrightarrow> q \<noteq> p \<and> held c t q"
  by (simp add: held_def until_clear)

lemma held_remaining: "now \<le> t \<Longrightarrow> held (fst (remaining c now p)) t q = held c t q"
  by (auto simp: held_def until_remaining)

lemma held_antimono: "held c t p \<Longrightarrow> s \<le> t \<Longrightarrow> held c s p"
  by (auto simp: held_def)

text \<open>A script of operations with their clock readings.\<close>

fun exec :: "'c \<Rightarrow> (instant \<times> hold_op) list \<Rightarrow> 'c" where
  "exec c [] = c"
| "exec c ((now, OpMark p d) # ops) = exec (mark c now p d) ops"
| "exec c ((now, OpClear p) # ops) = exec (clear c p) ops"
| "exec c ((now, OpRemaining p) # ops) = exec (fst (remaining c now p)) ops"

lemma held_exec:
  assumes "held c t p"
    and "\<forall>(now, op) \<in> set ops. now \<le> t \<and> op \<noteq> OpClear p"
  shows "held (exec c ops) t p"
  using assms
  by (induction c ops rule: exec.induct) (auto simp: held_mark_mono held_clear held_remaining)

end

section \<open>The model\<close>

type_synonym cooldowns = "(string \<times> instant) list"

definition cooldowns_mark :: "cooldowns \<Rightarrow> instant \<Rightarrow> string \<Rightarrow> duration \<Rightarrow> cooldowns" where
  "cooldowns_mark c now provider for_how_long = (let until = now + int for_how_long in
     case map_of c provider of
       None \<Rightarrow> AList.update provider until c
     | Some entry \<Rightarrow> if entry < until then AList.update provider until c else c)"

definition cooldowns_remaining :: "cooldowns \<Rightarrow> instant \<Rightarrow> string \<Rightarrow> cooldowns \<times> nat option" where
  "cooldowns_remaining c now provider =
     (case map_of c provider of
        Some until \<Rightarrow>
          if now < until then (c, Some (max (as_secs (duration_since until now)) 1))
          else (AList.delete provider c, None)
      | None \<Rightarrow> (c, None))"

definition cooldowns_clear :: "cooldowns \<Rightarrow> string \<Rightarrow> cooldowns" where
  "cooldowns_clear c provider = AList.delete provider c"

definition cooldowns_snapshot :: "cooldowns \<Rightarrow> instant \<Rightarrow> (string \<times> nat) list" where
  "cooldowns_snapshot c now =
     sort (map (\<lambda>(p, until). (p, max (as_secs (duration_since until now)) 1))
            (filter (\<lambda>(_, until). now < until) c))"

lemma cooldowns_wf:
  "hm_wf c \<Longrightarrow> hm_wf (cooldowns_mark c now p d)"
  "hm_wf c \<Longrightarrow> hm_wf (fst (cooldowns_remaining c now p))"
  "hm_wf c \<Longrightarrow> hm_wf (cooldowns_clear c p)"
  by (auto simp: cooldowns_mark_def cooldowns_remaining_def cooldowns_clear_def Let_def
      split: option.splits)

interpretation cd: seat_holds "\<lambda>c. map_of c" cooldowns_mark cooldowns_remaining cooldowns_clear
  by unfold_locales
    (auto simp: cooldowns_mark_def cooldowns_remaining_def cooldowns_clear_def Let_def
      max.commute split: option.splits)

text \<open>The status surface lists exactly the seats a call would skip, in order and with the same figure.\<close>

lemma snapshot_mem:
  assumes "hm_wf c"
  shows "(p, s) \<in> set (cooldowns_snapshot c now) \<longleftrightarrow> snd (cooldowns_remaining c now p) = Some s"
proof -
  have "(p, s) \<in> set (cooldowns_snapshot c now) \<longleftrightarrow>
      (\<exists>u. (p, u) \<in> set c \<and> now < u \<and> s = max (as_secs (duration_since u now)) 1)"
    by (force simp: cooldowns_snapshot_def)
  also have "\<dots> \<longleftrightarrow> snd (cooldowns_remaining c now p) = Some s"
    by (auto simp: cooldowns_remaining_def map_of_eq_Some_iff [OF assms, symmetric]
        split: option.splits)
  finally show ?thesis .
qed

end
