(* ===== verification/LT_F64.thy ===== *)
theory LT_F64
  imports Complex_Main "HOL-Library.Log_Nat"
begin

text \<open>
  The \<^verbatim>\<open>f64\<close> of the sources: IEEE-754 binary64 with round-to-nearest, ties to even, as an
  executable function on rationals. A finite value is the rational it denotes, so the two zeros are
  one value: no code modelled here reads the sign of a zero. \<open>rnd\<close> rounds an exact result; each
  arithmetic operation is the exact operation on rationals followed by one rounding, with the
  infinities and NaN as the standard has them. Comparisons with NaN are false, as in Rust.
\<close>

section \<open>Rounding\<close>

datatype f64 = Fin rat | PInf | NInf | NaN

definition rne :: "rat \<Rightarrow> int" where
  "rne x = (let f = \<lfloor>x\<rfloor>; d = x - of_int f in
     if d < 1 / 2 then f else if 1 / 2 < d then f + 1 else if even f then f else f + 1)"

definition ilog2 :: "rat \<Rightarrow> int" where
  "ilog2 q = (let (n, d) = quotient_of q; k = bitlen n - bitlen d in
     if 2 powi k \<le> q then k else k - 1)"

definition ulp_exp :: "rat \<Rightarrow> int" where
  "ulp_exp q = max (ilog2 \<bar>q\<bar> - 52) (-1074)"

definition grid :: "rat \<Rightarrow> rat" where
  "grid q = 2 powi ulp_exp q"

definition rnd_rat :: "rat \<Rightarrow> rat" where
  "rnd_rat q = of_int (rne (q / grid q)) * grid q"

definition overflow :: rat where
  "overflow = 2 powi 1024"

definition rnd :: "rat \<Rightarrow> f64" where
  "rnd q = (let r = rnd_rat q in
     if overflow \<le> r then PInf else if r \<le> - overflow then NInf else Fin r)"

definition representable :: "rat \<Rightarrow> bool" where
  "representable q \<longleftrightarrow>
     (\<exists>m e. q = of_int m * 2 powi e \<and> \<bar>m\<bar> < 2 ^ 53 \<and> -1074 \<le> e \<and> e \<le> 971)"

subsection \<open>Rounding to an integer\<close>

lemma rne_of_int [simp]: "rne (of_int i) = i"
  by (simp add: rne_def)

lemma rne_bounds: "\<lfloor>x\<rfloor> \<le> rne x" "rne x \<le> \<lfloor>x\<rfloor> + 1"
  by (auto simp: rne_def Let_def)

lemma rne_mono:
  assumes "x \<le> y"
  shows "rne x \<le> rne y"
proof (cases "\<lfloor>x\<rfloor> = \<lfloor>y\<rfloor>")
  case True
  with assms show ?thesis by (auto simp: rne_def Let_def)
next
  case False
  with assms floor_mono[of x y] have "\<lfloor>x\<rfloor> + 1 \<le> \<lfloor>y\<rfloor>" by linarith
  with rne_bounds(2)[of x] rne_bounds(1)[of y] show ?thesis by linarith
qed

lemma rne_minus: "rne (- x) = - rne x"
proof (cases "x = of_int \<lfloor>x\<rfloor>")
  case True
  then have "rne (- x) = - \<lfloor>x\<rfloor>" by (metis of_int_minus rne_of_int)
  with True show ?thesis by (metis rne_of_int)
next
  case False
  then have fl: "\<lfloor>- x\<rfloor> = - \<lfloor>x\<rfloor> - 1"
    by (simp add: floor_minus ceiling_altdef)
  have "x - of_int \<lfloor>x\<rfloor> < 1" "0 \<le> x - of_int \<lfloor>x\<rfloor>" by linarith+
  with fl show ?thesis by (auto simp: rne_def Let_def)
qed

lemma rne_near: "\<bar>of_int (rne x) - x\<bar> \<le> 1 / 2"
proof -
  have "x - of_int \<lfloor>x\<rfloor> < 1" "0 \<le> x - of_int \<lfloor>x\<rfloor>" by linarith+
  then show ?thesis by (auto simp: rne_def Let_def abs_le_iff)
qed

subsection \<open>The binary exponent\<close>

lemma powi_two_pos [simp]: "0 < (2::rat) powi e"
  by (rule zero_less_power_int) simp

lemma powi_two_nonneg [simp]: "0 \<le> (2::rat) powi e"
  by (rule less_imp_le) simp

lemma powi_two_add: "(2::rat) powi (a + b) = 2 powi a * 2 powi b"
  by (simp add: power_int_add)

lemma powi_two_diff: "(2::rat) powi (a - b) = 2 powi a / 2 powi b"
  by (simp add: power_int_diff)

lemma powi_two_le_iff [simp]: "(2::rat) powi a \<le> 2 powi b \<longleftrightarrow> a \<le> b"
proof
  assume "(2::rat) powi a \<le> 2 powi b"
  then show "a \<le> b" using power_int_strict_increasing[of b a "2::rat"] by (meson leD le_less_linear one_less_numeral_iff semiring_norm(76))
qed (rule power_int_increasing, simp_all)

lemma powi_two_less_iff [simp]: "(2::rat) powi a < 2 powi b \<longleftrightarrow> a < b"
  by (simp add: not_le [symmetric])

lemma powi_two_int: "0 \<le> e \<Longrightarrow> (2::rat) powi e = of_int (2 ^ nat e)"
  by (simp add: power_int_def)

lemma ilog2_bounds:
  assumes "0 < q"
  shows "2 powi ilog2 q \<le> q" "q < 2 powi (ilog2 q + 1)"
proof -
  obtain n d where nd: "quotient_of q = (n, d)" by (cases "quotient_of q")
  then have d: "0 < d" and q: "q = of_int n / of_int d"
    by (simp_all add: quotient_of_denom_pos quotient_of_div)
  with assms have n: "0 < n" by (simp add: zero_less_divide_iff)
  let ?a = "bitlen n" and ?b = "bitlen d"
  have pos: "0 < bitlen i" if "0 < i" for i
    using bitlen_bounds[OF that] bitlen_nonneg[of i] that by (cases "bitlen i = 0") auto
  have ab: "0 < ?a" "0 < ?b" using n d by (simp_all only: pos)
  have n2: "2 powi (?a - 1) \<le> (of_int n :: rat)" "(of_int n :: rat) < 2 powi ?a"
    using bitlen_bounds[OF n] ab by (simp_all add: powi_two_int del: of_int_power)
  have d2: "2 powi (?b - 1) \<le> (of_int d :: rat)" "(of_int d :: rat) < 2 powi ?b"
    using bitlen_bounds[OF d] ab by (simp_all add: powi_two_int del: of_int_power)
  have lo: "2 powi (?a - ?b - 1) \<le> q"
  proof -
    have "(2::rat) powi (?a - ?b - 1) = 2 powi (?a - 1) / 2 powi ?b"
      by (simp add: powi_two_diff [symmetric] algebra_simps)
    also have "\<dots> \<le> of_int n / of_int d" using n2 d2 d n by (intro frac_le) auto
    finally show ?thesis by (simp add: q)
  qed
  have hi: "q < 2 powi (?a - ?b + 1)"
  proof -
    have "of_int n / of_int d < (2::rat) powi ?a / 2 powi (?b - 1)"
      using n2 d2 n d by (intro frac_less) auto
    also have "\<dots> = 2 powi (?a - ?b + 1)"
      by (simp add: powi_two_diff [symmetric] algebra_simps)
    finally show ?thesis by (simp add: q)
  qed
  show "2 powi ilog2 q \<le> q" "q < 2 powi (ilog2 q + 1)"
    using lo hi by (auto simp: ilog2_def nd Let_def)
qed

lemma ilog2_unique:
  assumes "2 powi e \<le> q" "q < 2 powi (e + 1)"
  shows "ilog2 q = e"
proof -
  have "0 < q" using assms(1) by (rule less_le_trans [OF powi_two_pos])
  note b = ilog2_bounds[OF this]
  have "(2::rat) powi e < 2 powi (ilog2 q + 1)" using assms(1) b(2) by (rule le_less_trans)
  moreover have "(2::rat) powi ilog2 q < 2 powi (e + 1)" using b(1) assms(2) by (rule le_less_trans)
  ultimately show ?thesis by simp
qed

lemma ilog2_mono:
  assumes "0 < a" "a \<le> b"
  shows "ilog2 a \<le> ilog2 b"
proof -
  have "(2::rat) powi ilog2 a < 2 powi (ilog2 b + 1)"
    using ilog2_bounds(1)[OF assms(1)] assms ilog2_bounds(2)[of b] by linarith
  then show ?thesis by simp
qed

subsection \<open>Rounding to the grid is monotone and exact on representable values\<close>

lemma grid_pos [simp]: "0 < grid q"
  by (simp add: grid_def)

lemma grid_nonzero [simp]: "grid q \<noteq> 0"
  using grid_pos[of q] by linarith

lemma grid_minus [simp]: "grid (- q) = grid q"
  by (simp add: grid_def ulp_exp_def)

lemma rnd_rat_0 [simp]: "rnd_rat 0 = 0"
  using rne_of_int[of 0] by (simp add: rnd_rat_def)

lemma rnd_rat_minus: "rnd_rat (- q) = - rnd_rat q"
  by (simp add: rnd_rat_def rne_minus)

lemma rnd_rat_nonneg: "0 \<le> q \<Longrightarrow> 0 \<le> rnd_rat q"
  using rne_mono[of 0 "q / grid q"] rne_of_int[of 0]
  by (simp add: rnd_rat_def less_imp_le)

text \<open>On one grid rounding is monotone; a power of two on the grid is a barrier it cannot cross.\<close>

lemma round_on_grid_mono: "a \<le> b \<Longrightarrow> 0 < g \<Longrightarrow> of_int (rne (a / g)) * g \<le> of_int (rne (b / g)) * (g :: rat)"
  by (simp add: rne_mono divide_right_mono)

lemma round_on_grid_powi: "e \<le> f \<Longrightarrow> of_int (rne (2 powi f / 2 powi e)) * 2 powi e = (2 powi f :: rat)"
proof -
  assume "e \<le> f"
  then have "(2 powi f / 2 powi e :: rat) = of_int (2 ^ nat (f - e))"
    using powi_two_int[of "f - e"] by (simp add: powi_two_diff del: of_int_power)
  then have "rne (2 powi f / 2 powi e) = 2 ^ nat (f - e)" by (simp only: rne_of_int)
  then have "of_int (rne (2 powi f / 2 powi e)) = (2 powi (f - e) :: rat)"
    using powi_two_int[of "f - e"] \<open>e \<le> f\<close> by simp
  then show ?thesis by (simp add: powi_two_diff)
qed

lemma rnd_rat_mono_pos:
  assumes "0 < a" "a \<le> b"
  shows "rnd_rat a \<le> rnd_rat b"
proof (cases "ulp_exp a = ulp_exp b")
  case True
  with assms(2) show ?thesis by (simp add: rnd_rat_def grid_def round_on_grid_mono)
next
  case False
  have b: "0 < b" using assms by simp
  let ?ea = "ilog2 a" and ?eb = "ilog2 b"
  have le: "?ea \<le> ?eb" using assms by (rule ilog2_mono)
  with False have lt: "?ea < ?eb" and ub: "ulp_exp b = ?eb - 52" and ua: "ulp_exp a < ?eb - 52"
    using assms b by (auto simp: ulp_exp_def max_def split: if_splits)
  have "a \<le> 2 powi ?eb"
  proof -
    have "a < 2 powi (?ea + 1)" using ilog2_bounds(2)[OF assms(1)] .
    also have "\<dots> \<le> 2 powi ?eb" using lt by simp
    finally show ?thesis by simp
  qed
  then have "rnd_rat a \<le> of_int (rne (2 powi ?eb / grid a)) * grid a"
    unfolding rnd_rat_def by (rule round_on_grid_mono) simp
  also have "\<dots> = 2 powi ?eb" using ua by (simp add: grid_def round_on_grid_powi)
  also have "\<dots> = of_int (rne (2 powi ?eb / grid b)) * grid b"
    using ub by (simp add: grid_def round_on_grid_powi)
  also have "\<dots> \<le> rnd_rat b"
    unfolding rnd_rat_def by (rule round_on_grid_mono) (simp_all add: ilog2_bounds(1) b)
  finally show ?thesis .
qed

lemma rnd_rat_mono:
  assumes "a \<le> b"
  shows "rnd_rat a \<le> rnd_rat b"
proof (cases "0 < a")
  case True
  with assms show ?thesis by (rule rnd_rat_mono_pos [rotated])
next
  case False
  then have a: "rnd_rat a \<le> 0" using rnd_rat_nonneg[of "- a"] by (simp add: rnd_rat_minus)
  show ?thesis
  proof (cases "0 \<le> b")
    case True
    with a show ?thesis using rnd_rat_nonneg[of b] by simp
  next
    case neg: False
    with assms have "rnd_rat (- b) \<le> rnd_rat (- a)" by (intro rnd_rat_mono_pos) auto
    then show ?thesis by (simp add: rnd_rat_minus)
  qed
qed

lemma ulp_exp_le:
  assumes "\<bar>q\<bar> < 2 powi (e + 53)" "-1074 \<le> e" "q \<noteq> 0"
  shows "ulp_exp q \<le> e"
proof -
  have "0 < \<bar>q\<bar>" using assms(3) by simp
  then have "(2::rat) powi ilog2 \<bar>q\<bar> < 2 powi (e + 53)"
    using ilog2_bounds(1)[of "\<bar>q\<bar>"] assms(1) by linarith
  with assms(2) show ?thesis by (simp add: ulp_exp_def)
qed

lemma rnd_rat_exact:
  assumes "representable q"
  shows "rnd_rat q = q"
proof (cases "q = 0")
  case True
  then show ?thesis by simp
next
  case False
  obtain m e where q: "q = of_int m * 2 powi e" and m: "\<bar>m\<bar> < 2 ^ 53" and e: "-1074 \<le> e"
    using assms unfolding representable_def by blast
  have "\<bar>q\<bar> = of_int \<bar>m\<bar> * 2 powi e" by (simp add: q abs_mult)
  also have "\<dots> < 2 ^ 53 * 2 powi e"
    using m by (intro mult_strict_right_mono) (simp_all flip: of_int_less_iff [where 'a = rat])
  also have "\<dots> = 2 powi (e + 53)" by (simp add: powi_two_add)
  finally have u: "ulp_exp q \<le> e" using e False by (rule ulp_exp_le)
  then have "(2 powi e / grid q :: rat) = of_int (2 ^ nat (e - ulp_exp q))"
    using powi_two_int[of "e - ulp_exp q"] by (simp only: grid_def powi_two_diff)
  then have "of_int m * (2 powi e / grid q) = (of_int (m * 2 ^ nat (e - ulp_exp q)) :: rat)"
    by (simp only: of_int_mult)
  then have "q / grid q = of_int (m * 2 ^ nat (e - ulp_exp q))"
    by (subst (1) q) (simp only: times_divide_eq_right)
  then have "rne (q / grid q) = m * 2 ^ nat (e - ulp_exp q)" by (simp only: rne_of_int)
  then have "of_int (rne (q / grid q)) = q / grid q"
    using \<open>q / grid q = _\<close> by simp
  then show ?thesis by (simp add: rnd_rat_def)
qed

lemma rnd_exact:
  assumes "representable q"
  shows "rnd q = Fin q"
proof -
  obtain m e where q: "q = of_int m * 2 powi e" and m: "\<bar>m\<bar> < 2 ^ 53" and e: "e \<le> 971"
    using assms unfolding representable_def by blast
  have "\<bar>q\<bar> = of_int \<bar>m\<bar> * 2 powi e" by (simp add: q abs_mult)
  also have "\<dots> < 2 ^ 53 * 2 powi e"
    using m by (intro mult_strict_right_mono) (simp_all flip: of_int_less_iff [where 'a = rat])
  also have "\<dots> = 2 powi (e + 53)" by (simp add: powi_two_add)
  also have "\<dots> \<le> overflow" unfolding overflow_def powi_two_le_iff using e by simp
  finally have "\<bar>q\<bar> < overflow" .
  then have "\<not> overflow \<le> q" "\<not> q \<le> - overflow" by linarith+
  then show ?thesis by (simp only: rnd_def Let_def rnd_rat_exact[OF assms] if_False)
qed

lemma representable_of_int: "\<bar>i\<bar> < 2 ^ 53 \<Longrightarrow> representable (of_int i)"
  unfolding representable_def by (rule exI[of _ i], rule exI[of _ 0]) simp

lemma rnd_of_int: "\<bar>i\<bar> < 2 ^ 53 \<Longrightarrow> rnd (of_int i) = Fin (of_int i)"
  by (rule rnd_exact) (rule representable_of_int)

lemma rnd_dyadic:
  "q = of_int m * 2 powi e \<Longrightarrow> \<bar>m\<bar> < 2 ^ 53 \<Longrightarrow> -1074 \<le> e \<Longrightarrow> e \<le> 971 \<Longrightarrow> rnd q = Fin q"
  by (rule rnd_exact) (auto simp: representable_def)

lemma representable_0 [simp]: "representable 0"
  using representable_of_int[of 0] by simp

lemma representable_1 [simp]: "representable 1"
  using representable_of_int[of 1] by simp

lemma rnd_0 [simp]: "rnd 0 = Fin 0"
  by (rule rnd_exact) simp

lemma rnd_1 [simp]: "rnd 1 = Fin 1"
  by (rule rnd_exact) simp

text \<open>Every finite result of a rounding is representable again.\<close>

lemma representable_minus: "representable q \<Longrightarrow> representable (- q)"
  unfolding representable_def
proof (elim exE conjE)
  fix m e assume "q = of_int m * 2 powi e" "\<bar>m\<bar> < 2 ^ 53" "-1074 \<le> e" "e \<le> 971"
  then show "\<exists>m e. - q = of_int m * 2 powi e \<and> \<bar>m\<bar> < 2 ^ 53 \<and> -1074 \<le> e \<and> e \<le> 971"
    by (intro exI[of _ "- m"] exI[of _ e]) auto
qed

lemma rnd_rat_representable_pos:
  assumes q: "0 < q" and bound: "rnd_rat q < overflow"
  shows "representable (rnd_rat q)"
proof -
  let ?e = "ilog2 q" and ?u = "ulp_exp q" and ?m = "rne (q / grid q)"
  note b = ilog2_bounds[OF q]
  have u: "?u = max (?e - 52) (-1074)" using q by (simp add: ulp_exp_def)
  have "q / grid q < 2 powi (?e + 1) / 2 powi ?u"
    using b(2) by (simp add: grid_def divide_strict_right_mono)
  also have "\<dots> \<le> 2 powi 53" by (simp add: u powi_two_diff [symmetric] del: power_int_numeral)
  finally have "q / grid q \<le> of_int (2 ^ 53)" by simp
  then have m_le: "?m \<le> 2 ^ 53" using rne_mono by (metis rne_of_int)
  have m0: "0 \<le> ?m" using rne_mono[of 0 "q / grid q"] rne_of_int[of 0] q by (simp add: less_imp_le)
  have val: "rnd_rat q = of_int ?m * 2 powi ?u" by (simp add: rnd_rat_def grid_def)
  have u_le: "?u \<le> 971"
  proof (rule ccontr)
    assume "\<not> ?u \<le> 971"
    then have ue: "?u = ?e - 52" and e: "1024 \<le> ?e" using u by auto
    have "2 powi ?e \<le> rnd_rat q"
    proof -
      have "2 powi ?e = of_int (rne (2 powi ?e / grid q)) * grid q"
        using ue by (simp add: grid_def round_on_grid_powi)
      also have "\<dots> \<le> rnd_rat q"
        unfolding rnd_rat_def by (rule round_on_grid_mono) (simp_all add: b(1))
      finally show ?thesis .
    qed
    moreover have "overflow \<le> 2 powi ?e" unfolding overflow_def powi_two_le_iff using e .
    ultimately have "overflow \<le> rnd_rat q" by linarith
    with bound show False by linarith
  qed
  have u_ge: "-1074 \<le> ?u" by (simp add: u)
  show ?thesis
  proof (cases "?m = 2 ^ 53")
    case False
    with m_le m0 u_le u_ge val show ?thesis
      unfolding representable_def by (intro exI[of _ ?m] exI[of _ ?u]) auto
  next
    case True
    have shift: "rnd_rat q = of_int (2 ^ 52) * 2 powi (?u + 1)"
      by (simp add: val True powi_two_add)
    have "?u + 1 \<le> 971"
    proof (rule ccontr)
      assume "\<not> ?u + 1 \<le> 971"
      with u_le have "?u = 971" by simp
      have "(of_int (2 ^ 53) :: rat) = 2 powi 53" by simp
      then have "rnd_rat q = 2 powi (53 + 971)"
        unfolding powi_two_add val True \<open>?u = 971\<close> by (rule arg_cong)
      then have "rnd_rat q = overflow" unfolding overflow_def by (simp only: arith_simps)
      with bound show False by simp
    qed
    moreover have "-1074 \<le> ?u + 1" using u_ge by simp
    moreover have "\<bar>2 ^ 52 :: int\<bar> < 2 ^ 53" by simp
    ultimately show ?thesis unfolding representable_def using shift by blast
  qed
qed

lemma rnd_Fin_representable:
  assumes "rnd q = Fin r"
  shows "representable r"
proof -
  have r: "r = rnd_rat q" and lt: "rnd_rat q < overflow" and gt: "- overflow < rnd_rat q"
    using assms by (auto simp: rnd_def Let_def split: if_splits)
  consider "q = 0" | "0 < q" | "0 < - q" by linarith
  then show ?thesis
  proof cases
    case 1
    then show ?thesis by (simp add: r)
  next
    case 2
    then show ?thesis unfolding r using lt by (rule rnd_rat_representable_pos)
  next
    case 3
    have "rnd_rat (- q) < overflow" unfolding rnd_rat_minus using gt by linarith
    with 3 have "representable (rnd_rat (- q))" by (rule rnd_rat_representable_pos)
    then have "representable (- rnd_rat (- q))" by (rule representable_minus)
    then show ?thesis by (simp add: r rnd_rat_minus)
  qed
qed

section \<open>Arithmetic and comparison\<close>

instantiation f64 :: "{zero, one, uminus, plus, minus, times, divide, inverse, ord}"
begin

definition zero_f64 :: f64 where
  "zero_f64 = Fin 0"

definition one_f64 :: f64 where
  "one_f64 = Fin 1"

fun uminus_f64 :: "f64 \<Rightarrow> f64" where
  "uminus_f64 (Fin a) = Fin (- a)"
| "uminus_f64 PInf = NInf"
| "uminus_f64 NInf = PInf"
| "uminus_f64 NaN = NaN"

fun plus_f64 :: "f64 \<Rightarrow> f64 \<Rightarrow> f64" where
  "plus_f64 (Fin a) (Fin b) = rnd (a + b)"
| "plus_f64 NaN y = NaN"
| "plus_f64 x NaN = NaN"
| "plus_f64 PInf NInf = NaN"
| "plus_f64 NInf PInf = NaN"
| "plus_f64 PInf y = PInf"
| "plus_f64 x PInf = PInf"
| "plus_f64 NInf y = NInf"
| "plus_f64 x NInf = NInf"

definition minus_f64 :: "f64 \<Rightarrow> f64 \<Rightarrow> f64" where
  "minus_f64 x y = x + (- y)"

definition signed_inf :: "rat \<Rightarrow> f64" where
  "signed_inf q = (if q = 0 then NaN else if 0 < q then PInf else NInf)"

fun times_f64 :: "f64 \<Rightarrow> f64 \<Rightarrow> f64" where
  "times_f64 (Fin a) (Fin b) = rnd (a * b)"
| "times_f64 NaN y = NaN"
| "times_f64 x NaN = NaN"
| "times_f64 (Fin a) PInf = signed_inf a"
| "times_f64 (Fin a) NInf = signed_inf (- a)"
| "times_f64 PInf (Fin b) = signed_inf b"
| "times_f64 NInf (Fin b) = signed_inf (- b)"
| "times_f64 PInf PInf = PInf"
| "times_f64 NInf NInf = PInf"
| "times_f64 x y = NInf"

fun divide_f64 :: "f64 \<Rightarrow> f64 \<Rightarrow> f64" where
  "divide_f64 (Fin a) (Fin b) = (if b = 0 then signed_inf a else rnd (a / b))"
| "divide_f64 NaN y = NaN"
| "divide_f64 x NaN = NaN"
| "divide_f64 (Fin a) y = Fin 0"
| "divide_f64 PInf (Fin b) = (if 0 \<le> b then PInf else NInf)"
| "divide_f64 NInf (Fin b) = (if 0 \<le> b then NInf else PInf)"
| "divide_f64 x y = NaN"

definition inverse_f64 :: "f64 \<Rightarrow> f64" where
  "inverse_f64 x = Fin 1 div x"

fun less_eq_f64 :: "f64 \<Rightarrow> f64 \<Rightarrow> bool" where
  "less_eq_f64 (Fin a) (Fin b) \<longleftrightarrow> a \<le> b"
| "less_eq_f64 NaN y \<longleftrightarrow> False"
| "less_eq_f64 x NaN \<longleftrightarrow> False"
| "less_eq_f64 NInf y \<longleftrightarrow> True"
| "less_eq_f64 x PInf \<longleftrightarrow> True"
| "less_eq_f64 x y \<longleftrightarrow> False"

definition less_f64 :: "f64 \<Rightarrow> f64 \<Rightarrow> bool" where
  "less_f64 x y \<longleftrightarrow> x \<le> y \<and> \<not> y \<le> x"

instance ..

end

definition is_finite :: "f64 \<Rightarrow> bool" where
  "is_finite x \<longleftrightarrow> (case x of Fin _ \<Rightarrow> True | _ \<Rightarrow> False)"

definition fmax :: "f64 \<Rightarrow> f64 \<Rightarrow> f64" where
  "fmax x y = (if x = NaN then y else if y = NaN then x else if x < y then y else x)"

definition fclamp :: "f64 \<Rightarrow> f64 \<Rightarrow> f64 \<Rightarrow> f64" where
  "fclamp x lo hi = (if x < lo then lo else if hi < x then hi else x)"

fun fceil :: "f64 \<Rightarrow> f64" where
  "fceil (Fin a) = Fin (of_int \<lceil>a\<rceil>)"
| "fceil x = x"

text \<open>\<^verbatim>\<open>n as f64\<close> rounds; \<^verbatim>\<open>x as u64\<close> truncates and saturates, with NaN as zero.\<close>

definition f64_of_int :: "int \<Rightarrow> f64" where
  "f64_of_int i = rnd (of_int i)"

fun f64_to_u64 :: "f64 \<Rightarrow> nat" where
  "f64_to_u64 (Fin a) = min (nat \<lfloor>a\<rfloor>) (2 ^ 64 - 1)"
| "f64_to_u64 PInf = 2 ^ 64 - 1"
| "f64_to_u64 NInf = 0"
| "f64_to_u64 NaN = 0"

definition wf64 :: "f64 \<Rightarrow> bool" where
  "wf64 x \<longleftrightarrow> (case x of Fin a \<Rightarrow> representable a | _ \<Rightarrow> True)"

subsection \<open>Order\<close>

lemma Fin_less [simp]: "Fin a < Fin b \<longleftrightarrow> a < b"
  by (auto simp: less_f64_def)

lemma Fin_less_eq [simp]: "Fin a \<le> Fin b \<longleftrightarrow> a \<le> b"
  by simp

lemma f64_order_simps [simp]:
  "\<not> NaN \<le> x" "\<not> x \<le> NaN" "\<not> NaN < x" "\<not> x < NaN"
  "x \<le> PInf \<longleftrightarrow> x \<noteq> NaN" "NInf \<le> x \<longleftrightarrow> x \<noteq> NaN"
  "Fin a < PInf" "NInf < Fin a" "NInf < PInf" "\<not> PInf < x" "\<not> x < NInf"
  "\<not> PInf \<le> Fin a" "\<not> Fin a \<le> NInf" "\<not> PInf \<le> NInf"
  by (cases x; simp add: less_f64_def)+

lemma f64_le_refl: "x \<noteq> NaN \<Longrightarrow> x \<le> (x :: f64)"
  by (cases x) auto

lemma f64_le_trans: "x \<le> y \<Longrightarrow> y \<le> z \<Longrightarrow> x \<le> (z :: f64)"
  by (cases x; cases y; cases z) auto

lemma f64_less_imp_le: "x < y \<Longrightarrow> x \<le> (y :: f64)"
  by (simp add: less_f64_def)

lemma f64_not_le: "x \<noteq> NaN \<Longrightarrow> y \<noteq> NaN \<Longrightarrow> \<not> x \<le> y \<longleftrightarrow> y < (x :: f64)"
  by (cases x; cases y) (auto simp: less_f64_def)

lemma f64_less_le_trans: "x < y \<Longrightarrow> y \<le> z \<Longrightarrow> x < (z :: f64)"
  by (cases x; cases y; cases z) (auto simp: less_f64_def)

lemma f64_le_less_trans: "x \<le> y \<Longrightarrow> y < z \<Longrightarrow> x < (z :: f64)"
  by (cases x; cases y; cases z) (auto simp: less_f64_def)

lemma f64_antisym: "x \<le> y \<Longrightarrow> y \<le> x \<Longrightarrow> x = (y :: f64)"
  by (cases x; cases y) auto

lemma is_finite_iff: "is_finite x \<longleftrightarrow> (\<exists>a. x = Fin a)"
  by (cases x) (auto simp: is_finite_def)

lemma is_finite_simps [simp]:
  "is_finite (Fin a)" "\<not> is_finite PInf" "\<not> is_finite NInf" "\<not> is_finite NaN"
  by (simp_all add: is_finite_def)

lemma zero_f64_simps [simp]: "(0 :: f64) = Fin 0" "(1 :: f64) = Fin 1"
  by (simp_all add: zero_f64_def one_f64_def)

subsection \<open>Laws of rounding in terms of the order\<close>

lemma rnd_not_NaN [simp]: "rnd q \<noteq> NaN"
  by (simp add: rnd_def Let_def)

lemma rnd_mono:
  assumes "a \<le> b"
  shows "rnd a \<le> rnd b"
proof -
  have "rnd_rat a \<le> rnd_rat b" using assms by (rule rnd_rat_mono)
  then show ?thesis by (auto simp: rnd_def Let_def)
qed

lemma rnd_nonneg: "0 \<le> q \<Longrightarrow> Fin 0 \<le> rnd q"
  using rnd_mono[of 0 q] by simp

lemma rnd_ge_exact: "representable r \<Longrightarrow> r \<le> q \<Longrightarrow> Fin r \<le> rnd q"
  using rnd_mono[of r q] by (simp add: rnd_exact)

lemma rnd_le_exact: "representable r \<Longrightarrow> q \<le> r \<Longrightarrow> rnd q \<le> Fin r"
  using rnd_mono[of q r] by (simp add: rnd_exact)

lemma wf64_rnd [simp]: "wf64 (rnd q)"
  by (cases "rnd q") (auto simp: wf64_def dest: rnd_Fin_representable)

lemma wf64_simps [simp]:
  "wf64 (Fin a) \<longleftrightarrow> representable a" "wf64 PInf" "wf64 NInf" "wf64 NaN"
  by (simp_all add: wf64_def)

lemma wf64_signed_inf [simp]: "wf64 (signed_inf q)"
  by (simp add: signed_inf_def)

lemma wf64_arith [simp]: "wf64 (x + y)" "wf64 (x * y)" "wf64 (x / y)"
  if "wf64 x" "wf64 y"
  using that by (cases x; cases y; simp)+

text \<open>Adding a non-negative amount never makes a stored value smaller.\<close>

lemma f64_add_ge:
  assumes "wf64 x" "x \<noteq> NaN" "Fin 0 \<le> y"
  shows "x \<le> x + y \<or> x + y = NaN"
  using assms by (cases x; cases y) (auto intro: rnd_ge_exact)

lemma f64_add_mono: "x \<le> y \<Longrightarrow> x + Fin c \<le> y + Fin c"
  by (cases x; cases y) (auto intro: rnd_mono)

lemma f64_add_mono2: "x \<le> x' \<Longrightarrow> y \<le> y' \<Longrightarrow> x \<noteq> NInf \<Longrightarrow> y \<noteq> NInf \<Longrightarrow> x + y \<le> x' + y'"
  by (cases x; cases y; cases x'; cases y') (auto intro: rnd_mono)

lemma f64_div_mono: "0 < c \<Longrightarrow> x \<le> y \<Longrightarrow> x / Fin c \<le> y / Fin c"
  by (cases x; cases y) (auto intro!: rnd_mono divide_right_mono)

lemma fclamp_range:
  assumes "x \<noteq> NaN" "lo \<le> hi"
  shows "lo \<le> fclamp x lo hi" "fclamp x lo hi \<le> hi"
  using assms by (cases x; cases lo; cases hi; auto simp: fclamp_def less_f64_def)+

lemma fclamp_mono:
  assumes "x \<le> y" "lo \<le> hi"
  shows "fclamp x lo hi \<le> fclamp y lo hi"
  using assms by (cases x; cases y; cases lo; cases hi) (auto simp: fclamp_def less_f64_def)

lemma f64_of_int_exact: "\<bar>i\<bar> < 2 ^ 53 \<Longrightarrow> f64_of_int i = Fin (of_int i)"
  by (simp add: f64_of_int_def rnd_of_int)

lemma f64_of_int_mono: "i \<le> j \<Longrightarrow> f64_of_int i \<le> f64_of_int j"
  by (simp add: f64_of_int_def rnd_mono)

lemma f64_of_int_not_NaN [simp]: "f64_of_int i \<noteq> NaN"
  by (simp add: f64_of_int_def)

end
