(* ===== verification/EngineRetry.thy ===== *)
theory EngineRetry
  imports LT_Prelude LT_F64
begin

text \<open>
  \<^verbatim>\<open>crates/engine/src/lib.rs\<close> (the typed error), \<^verbatim>\<open>crates/engine/src/providers.rs\<close> (how an
  HTTP answer becomes one, and the delay a provider states) and \<^verbatim>\<open>crates/engine/src/retry.rs\<close>
  (the bounded retry ladder under a wall-clock budget).
\<close>

section \<open>The typed error\<close>

datatype engine_error =
    Spawn (err_bin: string) (err_source: string)
  | NonZero (err_code: int) (err_stderr: string)
  | RateLimited (err_who: string) (err_retry_after: "duration option")
  | OverBudgetWait (err_who: string) (err_asked_secs: f64) (err_remaining_secs: f64) (err_attempts: nat)
  | ServerError (err_who: string) (err_status: nat)
  | Timeout (err_who: string)
  | BadRequest (err_who: string) (err_status: nat) (err_body: string)
  | Auth (err_who: string) (err_status: nat)
  | EmptyCompletion (err_who: string)
  | Truncated (err_who: string) (err_cap: nat) (reasoning_tokens: "nat option")
  | Http (err_who: string) (err_detail: string)
  | Posture (err_text: string)
  | Parse (err_text: string)
  | Json (err_text: string)
  | Other (err_text: string)

definition is_retryable :: "engine_error \<Rightarrow> bool" where
  "is_retryable e = (case e of RateLimited _ _ \<Rightarrow> True | ServerError _ _ \<Rightarrow> True
     | Timeout _ \<Rightarrow> True | _ \<Rightarrow> False)"

definition err_stated_retry_after :: "engine_error \<Rightarrow> duration option" where
  "err_stated_retry_after e = (case e of RateLimited _ r \<Rightarrow> r | _ \<Rightarrow> None)"

text \<open>
  \<open>shown\<close> is the \<^verbatim>\<open>Display\<close> text that the \<^verbatim>\<open>thiserror\<close> derive generates.
\<close>

definition engine_error_who :: "(engine_error \<Rightarrow> string) \<Rightarrow> engine_error \<Rightarrow> string" where
  "engine_error_who shown e = (case e of RateLimited who _ \<Rightarrow> who | ServerError who _ \<Rightarrow> who
     | Timeout who \<Rightarrow> who | other \<Rightarrow> shown other)"

definition is_empty_completion :: "engine_error \<Rightarrow> bool" where
  "is_empty_completion e = (case e of EmptyCompletion _ \<Rightarrow> True | _ \<Rightarrow> False)"

section \<open>Durations and floats\<close>

text \<open>
  \<^verbatim>\<open>Duration::as_secs_f64\<close> adds the rounded seconds and the rounded fraction;
  \<^verbatim>\<open>Duration::from_secs_f64\<close> rounds to the nearest nanosecond and panics (\<^term>\<open>None\<close>) on a
  negative, non-finite or too large number of seconds. \<open>fmax\<close> is \<^verbatim>\<open>f64::max\<close>, which
  ignores a NaN.
\<close>

definition as_secs_f64 :: "duration \<Rightarrow> f64" where
  "as_secs_f64 d = f64_of_int (int (as_secs d))
     + f64_of_int (int (d mod nanos_per_sec)) / f64_of_int 1000000000"

fun from_secs_f64 :: "f64 \<Rightarrow> duration option" where
  "from_secs_f64 (Fin q) =
     (if 0 \<le> q \<and> q < 18446744073709551616 then Some (nat (rne (q * 1000000000))) else None)"
| "from_secs_f64 _ = None"

definition duration_of_millis :: "nat \<Rightarrow> duration" where
  "duration_of_millis ms = ms * 1000000"

definition as_millis :: "duration \<Rightarrow> nat" where
  "as_millis d = d div 1000000"

text \<open>The largest \<^verbatim>\<open>Duration\<close>, at which \<^verbatim>\<open>saturating_add\<close> stops.\<close>

definition DURATION_MAX :: duration where
  "DURATION_MAX = 18446744073709551615 * 1000000000 + 999999999"

definition duration_saturating_add :: "duration \<Rightarrow> duration \<Rightarrow> duration" where
  "duration_saturating_add a b = min DURATION_MAX (a + b)"

section \<open>From an HTTP answer to a typed error\<close>

text \<open>
  \<open>header name\<close> is the value of the response header as a number: \<^term>\<open>None\<close> when the header is
  absent, not text, or does not parse as a float.
\<close>

definition RETRY_AFTER_HEADERS :: "(string \<times> nat) list" where
  "RETRY_AFTER_HEADERS =
     [(''retry-after-ms'', 1), (''x-ms-retry-after-ms'', 1), (''retry-after'', 1000)]"

fun stated_retry_after_in :: "(string \<Rightarrow> f64 option) \<Rightarrow> (string \<times> nat) list \<Rightarrow> duration option" where
  "stated_retry_after_in header [] = None"
| "stated_retry_after_in header ((name, to_millis) # rest) =
     (case header name of
        None \<Rightarrow> stated_retry_after_in header rest
      | Some n \<Rightarrow>
          if is_finite n \<and> Fin 0 \<le> n
          then Some (duration_of_millis (f64_to_u64 (n * f64_of_int (int to_millis))))
          else stated_retry_after_in header rest)"

definition stated_retry_after :: "(string \<Rightarrow> f64 option) \<Rightarrow> duration option" where
  "stated_retry_after header = stated_retry_after_in header RETRY_AFTER_HEADERS"

definition http_error ::
    "string \<Rightarrow> nat \<Rightarrow> (string \<Rightarrow> f64 option) \<Rightarrow> string \<Rightarrow> engine_error" where
  "http_error who s header body =
     (if s = 429 then RateLimited who (stated_retry_after header)
      else if s = 401 \<or> s = 403 then Auth who s
      else if 500 \<le> s \<and> s \<le> 599 then ServerError who s
      else BadRequest who s body)"

definition send_error :: "string \<Rightarrow> bool \<Rightarrow> bool \<Rightarrow> string \<Rightarrow> engine_error" where
  "send_error who is_timeout is_connect detail =
     (if is_timeout \<or> is_connect then Timeout who else Http who detail)"

section \<open>The retry ladder\<close>

definition MAX_TRIES :: nat where "MAX_TRIES = 3"
definition BASE_DELAY_MS :: nat where "BASE_DELAY_MS = 200"
definition CALL_BUDGET :: duration where "CALL_BUDGET = duration_of_secs 60"
definition MIN_ATTEMPT_BUDGET :: duration where "MIN_ATTEMPT_BUDGET = duration_of_secs 1"
definition STATED_JITTER_CAP_MS :: nat where "STATED_JITTER_CAP_MS = 1000"

definition u64_max :: nat where "u64_max = 18446744073709551615"

definition u64_saturate :: "nat \<Rightarrow> nat" where
  "u64_saturate n = min u64_max n"

text \<open>\<open>nanos\<close> is the sub-second part of the system clock when the jitter is drawn.\<close>

definition jitter :: "nat \<Rightarrow> nat \<Rightarrow> nat" where
  "jitter nanos base = (if base = 0 then 0 else nanos mod base)"

definition backoff :: "nat \<Rightarrow> nat \<Rightarrow> duration" where
  "backoff nanos attempt =
     (let base = u64_saturate (BASE_DELAY_MS * u64_saturate (2 ^ (attempt - 1)))
      in duration_of_millis (u64_saturate (base + jitter nanos base)))"

definition retry_delay :: "nat \<Rightarrow> nat \<Rightarrow> engine_error \<Rightarrow> duration" where
  "retry_delay nanos attempt e =
     (case err_stated_retry_after e of
        Some d \<Rightarrow> duration_saturating_add d (duration_of_millis
          (jitter nanos (min (as_millis d mod 18446744073709551616) STATED_JITTER_CAP_MS)))
      | None \<Rightarrow> backoff nanos attempt)"

text \<open>
  The world the ladder runs in: \<open>call k t\<close> is the \<open>k\<close>-th call of the closure, started at \<open>t\<close>,
  with the instant it returned and its result; \<open>noise k\<close> the clock noise its jitter reads;
  \<open>late k\<close> by how much the sleep after it overshoots (a sleep is never shorter than asked).
  The ladder returns its log, one entry per call with its start and end.
\<close>

record 't ladder_world =
  call :: "nat \<Rightarrow> instant \<Rightarrow> instant \<times> (engine_error + 't)"
  noise :: "nat \<Rightarrow> nat"
  late :: "nat \<Rightarrow> duration"
  shown :: "engine_error \<Rightarrow> string"

record 't attempt_log =
  started :: instant
  ended :: instant
  answer :: "engine_error + 't"

function retry_loop ::
    "'t ladder_world \<Rightarrow> instant \<Rightarrow> nat \<Rightarrow> instant \<Rightarrow> 't attempt_log list \<times> (engine_error + 't)" where
  "retry_loop w deadline attempt now =
     (let (t, r) = call w attempt now;
          entry = \<lparr>started = now, ended = t, answer = r\<rparr>
      in case r of
           Inr v \<Rightarrow> ([entry], Inr v)
         | Inl e \<Rightarrow>
             if is_retryable e \<and> attempt < MAX_TRIES then
               let remaining = duration_since deadline t;
                   stated = err_stated_retry_after e;
                   delay = retry_delay (noise w attempt) attempt e
               in if remaining < duration_saturating_add delay MIN_ATTEMPT_BUDGET
                  then ([entry],
                    Inl (case stated of
                        Some asked \<Rightarrow> OverBudgetWait (engine_error_who (shown w) e)
                          (as_secs_f64 asked) (as_secs_f64 remaining) attempt
                      | None \<Rightarrow> e))
                  else (let (tr, res) =
                          retry_loop w deadline (attempt + 1) (t + int (delay + late w attempt))
                        in (entry # tr, res))
             else ([entry], Inl e))"
  by auto
termination
  by (relation "measure (\<lambda>(_, _, attempt, _). MAX_TRIES - attempt)") auto

declare retry_loop.simps [simp del]

definition with_retry_within ::
    "'t ladder_world \<Rightarrow> instant \<Rightarrow> duration \<Rightarrow> 't attempt_log list \<times> (engine_error + 't)" where
  "with_retry_within w now budget = retry_loop w (now + int budget) 1 now"

definition with_retry ::
    "'t ladder_world \<Rightarrow> instant \<Rightarrow> 't attempt_log list \<times> (engine_error + 't)" where
  "with_retry w now = with_retry_within w now CALL_BUDGET"

section \<open>What the ladder guarantees\<close>

lemma retry_delay_ge_stated:
  "err_stated_retry_after e = Some d \<Longrightarrow> d \<le> DURATION_MAX \<Longrightarrow> d \<le> retry_delay nanos k e"
  by (simp add: retry_delay_def duration_saturating_add_def)

text \<open>One step of the ladder, as a case rule for the proofs below.\<close>

lemma retry_loop_cases:
  obtains (ok) t v where "call w k now = (t, Inr v)"
      "retry_loop w dl k now = ([\<lparr>started = now, ended = t, answer = Inr v\<rparr>], Inr v)"
  | (stop) t e where "call w k now = (t, Inl e)" "\<not> (is_retryable e \<and> k < MAX_TRIES)"
      "retry_loop w dl k now = ([\<lparr>started = now, ended = t, answer = Inl e\<rparr>], Inl e)"
  | (clock) t e where "call w k now = (t, Inl e)" "is_retryable e" "k < MAX_TRIES"
      "duration_since dl t < duration_saturating_add (retry_delay (noise w k) k e) MIN_ATTEMPT_BUDGET"
      "retry_loop w dl k now = ([\<lparr>started = now, ended = t, answer = Inl e\<rparr>],
         Inl (case err_stated_retry_after e of
            Some asked \<Rightarrow> OverBudgetWait (engine_error_who (shown w) e)
              (as_secs_f64 asked) (as_secs_f64 (duration_since dl t)) k
          | None \<Rightarrow> e))"
  | (again) t e tr res where "call w k now = (t, Inl e)" "is_retryable e" "k < MAX_TRIES"
      "\<not> duration_since dl t < duration_saturating_add (retry_delay (noise w k) k e) MIN_ATTEMPT_BUDGET"
      "retry_loop w dl (k + 1) (t + int (retry_delay (noise w k) k e + late w k)) = (tr, res)"
      "retry_loop w dl k now = (\<lparr>started = now, ended = t, answer = Inl e\<rparr> # tr, res)"
proof -
  obtain t r where c: "call w k now = (t, r)" by (cases "call w k now")
  show thesis
  proof (cases r)
    case (Inr v)
    show thesis by (rule ok [of t v]) (simp_all add: c Inr retry_loop.simps [of w dl k now])
  next
    case (Inl e)
    show thesis
    proof (cases "is_retryable e \<and> k < MAX_TRIES")
      case False
      show thesis
        by (rule stop [of t e]) (use False in \<open>auto simp: c Inl retry_loop.simps [of w dl k now]\<close>)
    next
      case retry: True
      let ?d = "retry_delay (noise w k) k e"
      show thesis
      proof (cases "duration_since dl t < duration_saturating_add ?d MIN_ATTEMPT_BUDGET")
        case True
        show thesis by (rule clock [of t e])
            (use retry True in \<open>simp_all add: c Inl Let_def retry_loop.simps [of w dl k now]\<close>)
      next
        case False
        obtain tr res where n:
          "retry_loop w dl (k + 1) (t + int (?d + late w k)) = (tr, res)"
          by (cases "retry_loop w dl (k + 1) (t + int (?d + late w k))")
        show thesis by (rule again [of t e tr res])
            (use retry False n in \<open>simp_all add: c Inl Let_def retry_loop.simps [of w dl k now]\<close>)
      qed
    qed
  qed
qed

text \<open>The log's shape: the ladder's answer is the last call's, unless the stated wait did not fit.\<close>

definition ladder_end ::
    "'t ladder_world \<Rightarrow> instant \<Rightarrow> nat \<Rightarrow> 't attempt_log list \<Rightarrow> (engine_error + 't) \<Rightarrow> bool" where
  "ladder_end w deadline k tr res \<longleftrightarrow>
     res = answer (last tr)
     \<or> (\<exists>e d. answer (last tr) = Inl e \<and> err_stated_retry_after e = Some d \<and> k < MAX_TRIES
         \<and> duration_since deadline (ended (last tr))
             < duration_saturating_add (retry_delay (noise w k) k e) MIN_ATTEMPT_BUDGET
         \<and> res = Inl (OverBudgetWait (engine_error_who (shown w) e) (as_secs_f64 d)
             (as_secs_f64 (duration_since deadline (ended (last tr)))) k))"

lemma retry_loop_shape:
  assumes "retry_loop w dl k now = (tr, res)" and "k \<le> MAX_TRIES"
  shows "tr \<noteq> [] \<and> k + length tr \<le> MAX_TRIES + 1 \<and> ladder_end w dl (k + length tr - 1) tr res"
  using assms
proof (induction w dl k now arbitrary: tr res rule: retry_loop.induct)
  case (1 w dl k now)
  show ?case
  proof (cases rule: retry_loop_cases [where w = w and dl = dl and k = k and now = now])
    case (ok t v)
    with 1 show ?thesis by (auto simp: ladder_end_def)
  next
    case (stop t e)
    with 1 show ?thesis by (auto simp: ladder_end_def)
  next
    case (clock t e)
    with 1 show ?thesis by (auto simp: ladder_end_def split: option.splits)
  next
    case (again t e tr' res')
    with 1(1) have "tr' \<noteq> [] \<and> k + 1 + length tr' \<le> MAX_TRIES + 1
        \<and> ladder_end w dl (k + 1 + length tr' - 1) tr' res'"
      by (fastforce simp: Let_def)
    with again 1(2) show ?thesis by (auto simp: ladder_end_def)
  qed
qed

text \<open>
  The ladder makes one to three calls. What it returns is the answer of its last call, except
  that a stated wait which (with jitter and the slice an attempt needs) does not fit in what is left
  of the budget is returned as the over-budget state, carrying exactly that wait, what was left, and
  the number of calls made.
\<close>

theorem retry_ladder_outcome:
  "1 \<le> length (fst (with_retry_within w now budget))
   \<and> length (fst (with_retry_within w now budget)) \<le> 3
   \<and> ladder_end w (now + int budget) (length (fst (with_retry_within w now budget)))
       (fst (with_retry_within w now budget)) (snd (with_retry_within w now budget))"
proof -
  obtain tr res where r: "retry_loop w (now + int budget) 1 now = (tr, res)"
    by (cases "retry_loop w (now + int budget) 1 now")
  then have run: "with_retry_within w now budget = (tr, res)" by (simp only: with_retry_within_def)
  from retry_loop_shape [OF r] show ?thesis by (auto simp: run MAX_TRIES_def Suc_le_eq)
qed

lemma budget_room:
  assumes "\<not> r < duration_saturating_add delay MIN_ATTEMPT_BUDGET" and "r < DURATION_MAX"
  shows "delay + MIN_ATTEMPT_BUDGET \<le> r"
  using assms by (auto simp: duration_saturating_add_def)

lemma retry_delay_stated:
  assumes "err_stated_retry_after e = Some d" and "retry_delay n k e < DURATION_MAX"
  shows "d \<le> retry_delay n k e"
  using assms by (auto simp: retry_delay_def duration_saturating_add_def)

definition monotone_calls :: "'t ladder_world \<Rightarrow> bool" where
  "monotone_calls w \<longleftrightarrow> (\<forall>k t. t \<le> fst (call w k t))"

lemma retry_loop_first: "retry_loop w dl k now = (e # tr, res) \<Longrightarrow> started e = now"
  by (cases rule: retry_loop_cases [where w = w and dl = dl and k = k and now = now]) auto

lemma retry_loop_schedule:
  assumes "retry_loop w dl k now = (tr, res)" and "monotone_calls w"
    and "dl - now < int DURATION_MAX" and "Suc i < length tr"
  shows "\<exists>e. answer (tr ! i) = Inl e \<and> is_retryable e
     \<and> (\<forall>d. err_stated_retry_after e = Some d \<longrightarrow> ended (tr ! i) + int d \<le> started (tr ! Suc i))
     \<and> started (tr ! Suc i) + 1000000000 \<le> dl + int (late w (k + i))"
  using assms
proof (induction w dl k now arbitrary: tr res i rule: retry_loop.induct)
  case (1 w dl k now)
  show ?case
  proof (cases rule: retry_loop_cases [where w = w and dl = dl and k = k and now = now])
    case (again t e tr' res')
    let ?delay = "retry_delay (noise w k) k e"
    let ?next = "t + int (?delay + late w k)"
    have mono: "now \<le> t" using again(1) 1(3)
      unfolding monotone_calls_def by (metis fst_conv)
    have tr: "tr = \<lparr>started = now, ended = t, answer = Inl e\<rparr> # tr'" using 1(2) again(6) by simp
    have room: "?delay + MIN_ATTEMPT_BUDGET \<le> duration_since dl t"
    proof (rule budget_room [OF again(4)])
      have "0 < DURATION_MAX" by (simp add: DURATION_MAX_def)
      then show "duration_since dl t < DURATION_MAX"
        using 1(4) mono unfolding duration_since_def by linarith
    qed
    then have fit: "t + int ?delay + 1000000000 \<le> dl"
      unfolding duration_since_def MIN_ATTEMPT_BUDGET_def duration_of_secs_def by linarith
    have small: "?delay < DURATION_MAX"
      using room 1(4) mono
      unfolding duration_since_def MIN_ATTEMPT_BUDGET_def duration_of_secs_def by linarith
    show ?thesis
    proof (cases i)
      case 0
      with 1(5) tr obtain e1 tr1 where tr': "tr' = e1 # tr1" by (cases tr') auto
      with again(5) have "started e1 = ?next" by (auto dest: retry_loop_first)
      moreover have "int d \<le> int ?delay" if "err_stated_retry_after e = Some d" for d
        using retry_delay_stated [OF that small] by simp
      ultimately show ?thesis using 0 tr tr' fit again(2) by auto
    next
      case (Suc j)
      have "dl - ?next < int DURATION_MAX" using 1(4) mono by simp
      moreover have "Suc j < length tr'" using Suc 1(5) tr by simp
      ultimately have "\<exists>e. answer (tr' ! j) = Inl e \<and> is_retryable e
          \<and> (\<forall>d. err_stated_retry_after e = Some d \<longrightarrow> ended (tr' ! j) + int d \<le> started (tr' ! Suc j))
          \<and> started (tr' ! Suc j) + 1000000000 \<le> dl + int (late w (k + 1 + j))"
        using again(1-5) 1(1,3) by (simp add: Let_def)
      then show ?thesis using Suc tr by simp
    qed
  qed (use 1 in auto)
qed


text \<open>
  Every call after the first follows a retryable failure, starts no earlier than the wait that
  failure stated, and starts with at least one second of the budget left (up to the overshoot of the
  sleep before it).
\<close>

theorem retry_schedule:
  assumes "monotone_calls w" and "budget < DURATION_MAX"
    and "Suc i < length (fst (with_retry_within w now budget))"
  defines "tr \<equiv> fst (with_retry_within w now budget)"
  shows "\<exists>e. answer (tr ! i) = Inl e \<and> is_retryable e
     \<and> (\<forall>d. err_stated_retry_after e = Some d \<longrightarrow> ended (tr ! i) + int d \<le> started (tr ! Suc i))
     \<and> started (tr ! Suc i) + 1000000000 \<le> now + int budget + int (late w (i + 1))"
proof -
  obtain res where "retry_loop w (now + int budget) 1 now = (tr, res)"
    by (cases "retry_loop w (now + int budget) 1 now") (simp add: tr_def with_retry_within_def)
  from retry_loop_schedule [OF this assms(1), of i] assms(2,3) show ?thesis
    by (simp add: tr_def add.commute)
qed

section \<open>Stated waits survive the trip through floats\<close>

lemma as_secs_f64_range:
  assumes "d < duration_of_secs (2 ^ 63)"
  shows "\<exists>q. as_secs_f64 d = Fin q \<and> 0 \<le> q \<and> q \<le> 13835058055282163712"
proof -
  have s: "as_secs d < 2 ^ 63"
    using assms by (simp add: as_secs_def duration_of_secs_def less_mult_imp_div_less)
  have rs: "representable 9223372036854775808" and rt: "representable 13835058055282163712"
    unfolding representable_def
    by (rule exI [of _ 1], rule exI [of _ 63], simp) (rule exI [of _ 3], rule exI [of _ 62], simp)
  have "f64_of_int (int (as_secs d)) \<le> Fin 9223372036854775808"
    unfolding f64_of_int_def
  proof (rule rnd_le_exact [OF rs])
    have "int (as_secs d) \<le> 9223372036854775808" using s by simp
    then show "of_int (int (as_secs d)) \<le> (9223372036854775808 :: rat)"
      by (simp only: of_int_le_numeral_iff)
  qed
  moreover have "Fin 0 \<le> f64_of_int (int (as_secs d))"
    unfolding f64_of_int_def by (rule rnd_nonneg) simp
  ultimately obtain a where a: "f64_of_int (int (as_secs d)) = Fin a" "0 \<le> a"
      "a \<le> 9223372036854775808"
    by (cases "f64_of_int (int (as_secs d))") auto
  let ?n = "int (d mod nanos_per_sec)"
  have n: "0 \<le> ?n" "?n < 1000000000" by simp_all
  have "f64_of_int ?n / f64_of_int 1000000000 = rnd (of_int ?n / 1000000000)"
    using n by (simp add: f64_of_int_exact)
  moreover have "rnd (of_int ?n / 1000000000) \<le> Fin 1"
  proof (rule rnd_le_exact)
    have "of_int ?n \<le> (1000000000 :: rat)" using n by (simp only: of_int_le_numeral_iff)
    then show "of_int ?n / 1000000000 \<le> (1 :: rat)" by simp
  qed simp
  moreover have "Fin 0 \<le> rnd (of_int ?n / 1000000000)" by (rule rnd_nonneg) simp
  ultimately obtain b where b: "f64_of_int ?n / f64_of_int 1000000000 = Fin b" "0 \<le> b" "b \<le> 1"
    by (cases "rnd (of_int ?n / 1000000000 :: rat)") auto
  have "as_secs_f64 d = rnd (a + b)" by (simp add: as_secs_f64_def a b)
  moreover have "Fin 0 \<le> rnd (a + b)" using a b by (intro rnd_nonneg) simp
  moreover have "rnd (a + b) \<le> Fin 13835058055282163712"
    using a b by (intro rnd_le_exact [OF rt]) simp
  ultimately show ?thesis by (cases "rnd (a + b)") auto
qed

lemma stated_retry_after_bound:
  "stated_retry_after header = Some d \<Longrightarrow> d \<le> duration_of_millis (2 ^ 64 - 1)"
proof -
  have u: "f64_to_u64 x \<le> 2 ^ 64 - 1" for x by (cases x) auto
  have "stated_retry_after_in header hs = Some d \<Longrightarrow> d \<le> duration_of_millis (2 ^ 64 - 1)" for hs
    by (induction header hs rule: stated_retry_after_in.induct)
      (use u in \<open>fastforce simp: duration_of_millis_def simp del: f64_to_u64.simps
        split: option.splits if_splits\<close>)+
  then show "stated_retry_after header = Some d \<Longrightarrow> d \<le> duration_of_millis (2 ^ 64 - 1)"
    by (simp add: stated_retry_after_def)
qed

lemma stated_wait_fits: "stated_retry_after header = Some d \<Longrightarrow> d < duration_of_secs (2 ^ 63)"
  using stated_retry_after_bound [of header d]
  by (simp add: duration_of_millis_def duration_of_secs_def)

section \<open>A run of the ladder\<close>

text \<open>The first call is told to wait two seconds, the second answers.\<close>

definition demo_world :: "string ladder_world" where
  "demo_world = \<lparr>call = (\<lambda>k t. (t + 10, if k = 1
        then Inl (RateLimited ''provider'' (Some (duration_of_secs 2))) else Inr ''text'')),
     noise = (\<lambda>_. 7), late = (\<lambda>_. 3), shown = (\<lambda>_. [])\<rparr>"

lemma demo_world_run:
  "fst (with_retry_within demo_world 0 (duration_of_secs 60)) =
     [\<lparr>started = 0, ended = 10, answer = Inl (RateLimited ''provider'' (Some (duration_of_secs 2)))\<rparr>,
      \<lparr>started = 2007000013, ended = 2007000023, answer = Inr ''text''\<rparr>]"
  by (simp add: with_retry_within_def retry_loop.simps demo_world_def is_retryable_def
      MAX_TRIES_def err_stated_retry_after_def retry_delay_def duration_saturating_add_def
      DURATION_MAX_def duration_of_secs_def duration_of_millis_def jitter_def as_millis_def
      STATED_JITTER_CAP_MS_def MIN_ATTEMPT_BUDGET_def duration_since_def Let_def)

theorem retry_schedule_witness:
  "\<exists>e. answer (fst (with_retry_within demo_world 0 (duration_of_secs 60)) ! 0) = Inl e
     \<and> is_retryable e"
proof -
  have "monotone_calls demo_world" by (simp add: monotone_calls_def demo_world_def)
  moreover have "duration_of_secs 60 < DURATION_MAX"
    by (simp add: duration_of_secs_def DURATION_MAX_def)
  moreover have "Suc 0 < length (fst (with_retry_within demo_world 0 (duration_of_secs 60)))"
    by (simp add: demo_world_run)
  ultimately show ?thesis by (meson retry_schedule)
qed

end
