(* ===== verification/GatewayFailover.thy ===== *)
theory GatewayFailover
  imports GatewayRouting GatewayCooldown EngineRetry
begin

text \<open>
  \<^verbatim>\<open>crates/gateway/src/failover.rs\<close>, \<^verbatim>\<open>admission.rs\<close> and the decision path of
  \<^verbatim>\<open>chat.rs\<close>: how an engine error is classified, the walk of a chain of targets until one
  answers, the holds it leaves behind, and what the one endpoint replies. The clock advances only
  inside the generator, which is a field of the code's \<^verbatim>\<open>ChainRun\<close> and here a function from
  the instant it is called to the instant it returns and its result. A walk that panics has no \<open>chain_result\<close>, but keeps the holds it has marked.
\<close>

section \<open>Classification\<close>

datatype verdict = Exhausted duration | Transient | Terminal

fun verdict_as_str :: "verdict \<Rightarrow> string" where
  "verdict_as_str (Exhausted _) = ''exhausted''"
| "verdict_as_str Transient = ''transient''"
| "verdict_as_str Terminal = ''terminal''"

definition SEAT_PHRASES :: "string list" where
  "SEAT_PHRASES = [''usage limit'', ''rate limit'', ''limit reached'', ''out of extra usage'',
     ''not logged in'', ''please run /login'']"

text \<open>\<^term>\<open>None\<close> is the panic of \<^verbatim>\<open>Duration::from_secs_f64\<close>.\<close>

fun classify :: "engine_error \<Rightarrow> duration \<Rightarrow> verdict option" where
  "classify (RateLimited _ retry_after) default_hold =
     Some (Exhausted (case retry_after of Some d \<Rightarrow> d | None \<Rightarrow> default_hold))"
| "classify (OverBudgetWait _ asked _ _) default_hold =
     map_option Exhausted (from_secs_f64 (fmax asked 1))"
| "classify (Auth _ _) default_hold = Some (Exhausted default_hold)"
| "classify (NonZero _ stderr) default_hold =
     (let lower = to_ascii_lowercase stderr in
      Some (if list_ex (\<lambda>p. str_contains lower p) SEAT_PHRASES
            then Exhausted default_hold else Transient))"
| "classify (ServerError _ _) default_hold = Some Transient"
| "classify (Timeout _) default_hold = Some Transient"
| "classify (Http _ _) default_hold = Some Transient"
| "classify (EmptyCompletion _) default_hold = Some Transient"
| "classify (Spawn _ _) default_hold = Some Transient"
| "classify (BadRequest _ _ _) default_hold = Some Terminal"
| "classify (Truncated _ _ _) default_hold = Some Terminal"
| "classify (Posture _) default_hold = Some Terminal"
| "classify (Parse _) default_hold = Some Terminal"
| "classify (Json _) default_hold = Some Terminal"
| "classify (Other _) default_hold = Some Terminal"

section \<open>The walk of a chain\<close>

datatype 'o attempt_kind = Served 'o | Failed string verdict | SkippedCooling nat

record 'o attempt =
  at_target :: target
  at_latency_ms :: nat
  at_kind :: "'o attempt_kind"

record 'o chain_result =
  cr_attempts :: "'o attempt list"
  cr_served :: "nat option"

definition chain_outcome :: "'o chain_result \<Rightarrow> (target \<times> 'o) option" where
  "chain_outcome res = (case cr_served res of None \<Rightarrow> None
     | Some i \<Rightarrow> (let a = cr_attempts res ! i in
         case at_kind a of Served oc \<Rightarrow> Some (at_target a, oc) | _ \<Rightarrow> None))"

definition fell_back :: "'o chain_result \<Rightarrow> bool" where
  "fell_back res = (case cr_served res of None \<Rightarrow> False | Some i \<Rightarrow> 0 < i)"

record ('r, 'o) chain_runner =
  gen :: "instant \<Rightarrow> target \<Rightarrow> 'r \<Rightarrow> instant \<times> (engine_error + 'o)"
  default_hold :: duration
  simulate_exhausted :: "string option"
  err_to_string :: "engine_error \<Rightarrow> string"

definition latency_ms :: "instant \<Rightarrow> instant \<Rightarrow> nat" where
  "latency_ms t0 t = as_millis (duration_since t t0) mod 18446744073709551616"

fun chain_walk :: "('r, 'o) chain_runner \<Rightarrow> 'r \<Rightarrow> instant \<Rightarrow> cooldowns \<Rightarrow> 'o attempt list \<Rightarrow> target list
    \<Rightarrow> instant \<times> cooldowns \<times> 'o chain_result option" where
  "chain_walk run req now c attempts [] =
     (now, c, Some \<lparr>cr_attempts = attempts, cr_served = None\<rparr>)"
| "chain_walk run req now c attempts (target # chain) =
     (case cooldowns_remaining c now (tg_provider target) of
        (c, Some remaining_secs) \<Rightarrow>
          chain_walk run req now c
            (attempts @ [\<lparr>at_target = target, at_latency_ms = 0,
                          at_kind = SkippedCooling remaining_secs\<rparr>]) chain
      | (c, None) \<Rightarrow>
          (let (t, result) =
             (if simulate_exhausted run = Some (tg_provider target)
              then (now, Inl (RateLimited (tg_provider target @ '' (simulated)'') None))
              else gen run now target req)
           in case result of
             Inr outcome \<Rightarrow>
               (t, cooldowns_clear c (tg_provider target),
                 Some \<lparr>cr_attempts = attempts @ [\<lparr>at_target = target,
                    at_latency_ms = latency_ms now t, at_kind = Served outcome\<rparr>],
                  cr_served = Some (length attempts)\<rparr>)
           | Inl err \<Rightarrow>
               (case classify err (default_hold run) of
                  None \<Rightarrow> (t, c, None)
                | Some verdict \<Rightarrow>
                    let c = (case verdict of
                          Exhausted hold \<Rightarrow> cooldowns_mark c t (tg_provider target) hold
                        | _ \<Rightarrow> c);
                        attempts = attempts @ [\<lparr>at_target = target,
                          at_latency_ms = latency_ms now t,
                          at_kind = Failed (err_to_string run err) verdict\<rparr>]
                    in if verdict = Terminal
                       then (t, c, Some \<lparr>cr_attempts = attempts, cr_served = None\<rparr>)
                       else chain_walk run req t c attempts chain)))"

definition chain_run :: "('r, 'o) chain_runner \<Rightarrow> 'r \<Rightarrow> instant \<Rightarrow> cooldowns \<Rightarrow> target list
    \<Rightarrow> instant \<times> cooldowns \<times> 'o chain_result option" where
  "chain_run run req now c chain = chain_walk run req now c [] chain"

text \<open>One row of the attempt list a response or an event carries.\<close>

record report_row =
  rr_target :: string
  rr_outcome :: string
  rr_latency_ms :: nat
  rr_error :: "string option"

definition report :: "(nat \<Rightarrow> string) \<Rightarrow> 'o chain_result \<Rightarrow> report_row list" where
  "report show_nat res = map (\<lambda>a.
     let (outcome, error) = (case at_kind a of
           Served _ \<Rightarrow> (''served'', None)
         | Failed error verdict \<Rightarrow> (verdict_as_str verdict, Some error)
         | SkippedCooling secs \<Rightarrow>
             (''skipped_cooling'', Some (''seat on hold for '' @ show_nat secs @ ''s more'')))
     in \<lparr>rr_target = target_spec (at_target a), rr_outcome = outcome,
         rr_latency_ms = at_latency_ms a, rr_error = error\<rparr>) (cr_attempts res)"

section \<open>Admission\<close>

record 'd adm_verdict =
  throttled :: bool
  adm_detail :: "'d option"

definition ADMISSION_TTL :: duration where "ADMISSION_TTL = duration_of_secs 10"

text \<open>
  \<open>poll now\<close> is the answer of the API and the instant it arrived; an API that cannot be read admits.
\<close>

definition admission_check ::
    "(instant \<times> 'd adm_verdict) option \<Rightarrow> instant \<Rightarrow> (instant \<Rightarrow> instant \<times> (string + 'd adm_verdict))
      \<Rightarrow> (instant \<times> 'd adm_verdict) option \<times> 'd adm_verdict" where
  "admission_check cache now poll =
     (case (case cache of
              Some (since, v) \<Rightarrow> if duration_since now since < ADMISSION_TTL then Some v else None
            | None \<Rightarrow> None) of
        Some v \<Rightarrow> (cache, v)
      | None \<Rightarrow>
          (let (t, answer) = poll now;
               verdict = (case answer of Inr v \<Rightarrow> v
                 | Inl _ \<Rightarrow> \<lparr>throttled = False, adm_detail = None\<rparr>)
           in (Some (t, verdict), verdict)))"

section \<open>The endpoint's decision path\<close>

definition supports_tools :: "string \<Rightarrow> bool" where
  "supports_tools provider \<longleftrightarrow> provider = ''openrouter''
     \<or> (family_of provider = OpenAi \<and> provider \<noteq> ''codex'')"

definition retry_hint :: "'o chain_result \<Rightarrow> nat option" where
  "retry_hint res =
     (case List.map_filter (\<lambda>a. case at_kind a of
             SkippedCooling secs \<Rightarrow> Some secs
           | Failed _ (Exhausted d) \<Rightarrow> Some (max (as_secs d) 1)
           | _ \<Rightarrow> None) (cr_attempts res) of
        [] \<Rightarrow> None
      | xs \<Rightarrow> Some (Min (set xs)))"

datatype 'o chat_reply =
    ChatUnresolved resolve_error
  | ChatUnsupported string string
  | ChatLimitBlocked
  | ChatInternal
  | ChatServed target 'o bool
  | ChatExhausted "'o chain_result" "nat option"

definition gateway_status :: "'o chat_reply \<Rightarrow> nat" where
  "gateway_status r = (case r of
     ChatUnresolved (ModelNotFound _ _) \<Rightarrow> 404
   | ChatUnresolved (BadTarget _) \<Rightarrow> 400
   | ChatUnsupported _ _ \<Rightarrow> 400
   | ChatLimitBlocked \<Rightarrow> 429
   | ChatInternal \<Rightarrow> 500
   | ChatServed _ _ _ \<Rightarrow> 200
   | ChatExhausted _ (Some _) \<Rightarrow> 503
   | ChatExhausted _ None \<Rightarrow> 502)"

definition strip_prefix :: "string \<Rightarrow> string \<Rightarrow> string option" where
  "strip_prefix p s = (if starts_with s p then Some (drop (length p) s) else None)"

definition header_str :: "string option \<Rightarrow> string option" where
  "header_str h = (case h of None \<Rightarrow> None
     | Some v \<Rightarrow> if str_trim v = [] then None else Some (str_trim v))"

text \<open>
  \<open>chat\<close> after the request has been prepared: \<open>admitted\<close> is the admission verdict, absent when no API
  is configured; \<open>simulate_header\<close> is only honoured in dev mode; a panic of the walk is an
  internal error, and the holds marked before it stay.
\<close>

definition chat :: "gateway_config \<Rightarrow> bool \<Rightarrow> ('r, 'o) chain_runner \<Rightarrow> 'd adm_verdict option \<Rightarrow>
    string option \<Rightarrow> string \<Rightarrow> bool \<Rightarrow> 'r \<Rightarrow> instant \<Rightarrow> cooldowns \<Rightarrow> cooldowns \<times> 'o chat_reply" where
  "chat cfg dev run admitted simulate_header model has_tools req now c =
     (case resolve cfg model of
        Inl e \<Rightarrow> (c, ChatUnresolved e)
      | Inr plan \<Rightarrow>
          (case (if has_tools then find (\<lambda>t. \<not> supports_tools (tg_provider t)) (plan_chain plan)
                 else None) of
             Some t \<Rightarrow> (c, ChatUnsupported (target_spec t) model)
           | None \<Rightarrow>
               if (case admitted of Some v \<Rightarrow> throttled v | None \<Rightarrow> False)
               then (c, ChatLimitBlocked)
               else
                 let simulate = (if dev
                       then Option.bind (header_str simulate_header) (strip_prefix ''exhausted:'')
                       else None);
                     run = run\<lparr>default_hold := duration_of_secs (cooldown_secs cfg),
                               simulate_exhausted := simulate\<rparr>
                 in (case chain_run run req now c (plan_chain plan) of
                       (t, c, None) \<Rightarrow> (c, ChatInternal)
                     | (t, c, Some res) \<Rightarrow>
                         (case chain_outcome res of
                            None \<Rightarrow> (c, ChatExhausted res (retry_hint res))
                          | Some (tgt, oc) \<Rightarrow> (c, ChatServed tgt oc (fell_back res))))))"

section \<open>What a walk guarantees\<close>

text \<open>One step of the walk, as a case rule with the attempt list factored out.\<close>

definition prepend :: "'o attempt list \<Rightarrow> 'o chain_result \<Rightarrow> 'o chain_result" where
  "prepend acc res = \<lparr>cr_attempts = acc @ cr_attempts res,
     cr_served = map_option (\<lambda>i. length acc + i) (cr_served res)\<rparr>"

lemma prepend_record [simp]:
  "prepend acc \<lparr>cr_attempts = a, cr_served = i\<rparr>
     = \<lparr>cr_attempts = acc @ a, cr_served = map_option (\<lambda>i. length acc + i) i\<rparr>"
  by (simp add: prepend_def)

lemma cr_attempts_prepend [simp]: "cr_attempts (prepend acc r) = acc @ cr_attempts r"
  by (simp add: prepend_def)

lemma prepend_append: "prepend (a @ b) = prepend a \<circ> prepend b"
  by (rule ext) (simp add: prepend_def option.map_comp comp_def add.assoc)

definition walk_result :: "('r, 'o) chain_runner \<Rightarrow> 'r \<Rightarrow> instant \<Rightarrow> target \<Rightarrow> instant \<times> (engine_error + 'o)"
  where
  "walk_result run req now target =
     (if simulate_exhausted run = Some (tg_provider target)
      then (now, Inl (RateLimited (tg_provider target @ '' (simulated)'') None))
      else gen run now target req)"

definition walk_mark :: "verdict \<Rightarrow> cooldowns \<Rightarrow> instant \<Rightarrow> string \<Rightarrow> cooldowns" where
  "walk_mark v c t p = (case v of Exhausted hold \<Rightarrow> cooldowns_mark c t p hold | _ \<Rightarrow> c)"

lemma chain_walk_Cons:
  "chain_walk run req now c acc (target # chain) =
     (case cooldowns_remaining c now (tg_provider target) of
        (c, Some secs) \<Rightarrow> chain_walk run req now c
            (acc @ [\<lparr>at_target = target, at_latency_ms = 0, at_kind = SkippedCooling secs\<rparr>]) chain
      | (c, None) \<Rightarrow>
         (case walk_result run req now target of
            (t, Inr oc) \<Rightarrow> (t, cooldowns_clear c (tg_provider target),
               Some \<lparr>cr_attempts = acc @ [\<lparr>at_target = target,
                      at_latency_ms = latency_ms now t, at_kind = Served oc\<rparr>],
                     cr_served = Some (length acc)\<rparr>)
          | (t, Inl err) \<Rightarrow>
             (case classify err (default_hold run) of
                None \<Rightarrow> (t, c, None)
              | Some v \<Rightarrow>
                 (let acc = acc @ [\<lparr>at_target = target, at_latency_ms = latency_ms now t,
                        at_kind = Failed (err_to_string run err) v\<rparr>];
                      c = walk_mark v c t (tg_provider target)
                  in if v = Terminal then (t, c, Some \<lparr>cr_attempts = acc, cr_served = None\<rparr>)
                     else chain_walk run req t c acc chain))))"
  by (simp add: walk_result_def walk_mark_def Let_def split: prod.splits option.splits sum.splits)

declare chain_walk.simps(2) [simp del]

lemma chain_walk_acc:
  "chain_walk run req now c acc chain
     = (case chain_walk run req now c [] chain of (t, c', r) \<Rightarrow> (t, c', map_option (prepend acc) r))"
proof (induction chain arbitrary: now c acc)
  case Nil
  show ?case by simp
next
  case (Cons target chain)
  have IH: "chain_walk run req now c (acc @ [a]) chain
     = (case chain_walk run req now c [a] chain of
          (t, c', r) \<Rightarrow> (t, c', map_option (prepend acc) r))" for now c a
    by (subst (1 2) Cons.IH)
      (auto simp: prepend_append option.map_comp split: prod.splits)
  show ?case
    by (simp add: chain_walk_Cons IH Let_def
        split: prod.splits option.splits sum.splits)
qed

lemma chain_walk_cases:
  assumes "chain_walk run req now c [] (target # chain) = (t', c', r)"
  obtains
    (skip) secs where "snd (cooldowns_remaining c now (tg_provider target)) = Some secs"
      "\<exists>r0. chain_walk run req now (fst (cooldowns_remaining c now (tg_provider target))) [] chain
          = (t', c', r0) \<and> map_option (prepend
            [\<lparr>at_target = target, at_latency_ms = 0, at_kind = SkippedCooling secs\<rparr>]) r0 = r"
  | (served) oc where "snd (cooldowns_remaining c now (tg_provider target)) = None"
      "walk_result run req now target = (t', Inr oc)"
      "c' = cooldowns_clear (fst (cooldowns_remaining c now (tg_provider target))) (tg_provider target)"
      "r = Some \<lparr>cr_attempts = [\<lparr>at_target = target, at_latency_ms = latency_ms now t',
                  at_kind = Served oc\<rparr>], cr_served = Some 0\<rparr>"
  | (panic) err where "snd (cooldowns_remaining c now (tg_provider target)) = None"
      "walk_result run req now target = (t', Inl err)" "classify err (default_hold run) = None"
      "c' = fst (cooldowns_remaining c now (tg_provider target))" "r = None"
  | (terminal) err where "snd (cooldowns_remaining c now (tg_provider target)) = None"
      "walk_result run req now target = (t', Inl err)"
      "classify err (default_hold run) = Some Terminal"
      "c' = fst (cooldowns_remaining c now (tg_provider target))"
      "r = Some \<lparr>cr_attempts = [\<lparr>at_target = target, at_latency_ms = latency_ms now t',
                  at_kind = Failed (err_to_string run err) Terminal\<rparr>], cr_served = None\<rparr>"
  | (failed) t err v where "snd (cooldowns_remaining c now (tg_provider target)) = None"
      "walk_result run req now target = (t, Inl err)"
      "classify err (default_hold run) = Some v" "v \<noteq> Terminal"
      "\<exists>r0. chain_walk run req t (walk_mark v (fst (cooldowns_remaining c now (tg_provider target))) t
            (tg_provider target)) [] chain = (t', c', r0)
          \<and> map_option (prepend [\<lparr>at_target = target, at_latency_ms = latency_ms now t,
                  at_kind = Failed (err_to_string run err) v\<rparr>]) r0 = r"
proof -
  obtain c1 rem where rem: "cooldowns_remaining c now (tg_provider target) = (c1, rem)"
    by (cases "cooldowns_remaining c now (tg_provider target)")
  obtain t res where res: "walk_result run req now target = (t, res)"
    by (cases "walk_result run req now target")
  note step = assms [unfolded chain_walk_Cons rem res, simplified]
  show thesis
  proof (cases rem)
    case (Some secs)
    show thesis
      by (rule skip [of secs])
        (use step in \<open>simp_all add: rem Some chain_walk_acc [of _ _ _ _ "[_]"] split: prod.splits\<close>)
  next
    case None
    show thesis
    proof (cases res)
      case (Inr oc)
      show thesis by (rule served [of oc]) (use step in \<open>auto simp: rem None res Inr\<close>)
    next
      case (Inl err)
      show thesis
      proof (cases "classify err (default_hold run)")
        case n: None
        show thesis by (rule panic [of err]) (use step in \<open>auto simp: rem None res Inl n\<close>)
      next
        case v: (Some v)
        show thesis
        proof (cases "v = Terminal")
          case True
          show thesis by (rule terminal [of err])
              (use step in \<open>auto simp: rem None res Inl v True walk_mark_def\<close>)
        next
          case False
          show thesis by (rule failed [of t err v])
              (use step False in \<open>simp_all add: rem None res Inl v Let_def
                chain_walk_acc [of _ _ _ _ "[_]"] split: prod.splits\<close>)
        qed
      qed
    qed
  qed
qed

text \<open>
  The attempts are the first targets of the chain, in order; an answer or a terminal failure ends
  the list, and a walk with neither has tried every target.
\<close>

definition walk_shape :: "target list \<Rightarrow> 'o chain_result \<Rightarrow> bool" where
  "walk_shape chain res \<longleftrightarrow>
     map at_target (cr_attempts res) = take (length (cr_attempts res)) chain
     \<and> (\<forall>a \<in> set (butlast (cr_attempts res)).
          (\<exists>secs. at_kind a = SkippedCooling secs)
          \<or> (\<exists>e v. at_kind a = Failed e v \<and> v \<noteq> Terminal))
     \<and> (case cr_served res of
          Some i \<Rightarrow> length (cr_attempts res) = Suc i
            \<and> (\<exists>oc. at_kind (cr_attempts res ! i) = Served oc)
        | None \<Rightarrow> (\<forall>a \<in> set (cr_attempts res). \<forall>oc. at_kind a \<noteq> Served oc)
            \<and> (length (cr_attempts res) = length chain
               \<or> (\<exists>e. cr_attempts res \<noteq> [] \<and> at_kind (last (cr_attempts res)) = Failed e Terminal)))"

lemma walk_shape_Cons:
  assumes "walk_shape chain r0" and "at_target a = target"
    and "(\<exists>secs. at_kind a = SkippedCooling secs)
          \<or> (\<exists>e v. at_kind a = Failed e v \<and> v \<noteq> Terminal)"
  shows "walk_shape (target # chain) (prepend [a] r0)"
  using assms by (cases r0; cases "cr_served r0") (auto simp: walk_shape_def)

lemma chain_walk_shape:
  "chain_walk run req now c [] chain = (t', c', Some res) \<Longrightarrow> walk_shape chain res"
proof (induction chain arbitrary: now c res)
  case Nil
  then show ?case by (auto simp: walk_shape_def)
next
  case (Cons target chain)
  from Cons.prems show ?case
  proof (cases rule: chain_walk_cases)
    case (skip secs)
    then show ?thesis by (auto intro!: walk_shape_Cons dest: Cons.IH)
  next
    case (failed t err v)
    then show ?thesis by (auto intro!: walk_shape_Cons dest: Cons.IH)
  qed (auto simp: walk_shape_def)
qed

text \<open>
  C21: A walk tries the targets of its chain strictly in order, each at most once per place. Whatever
  comes before the last attempt was skipped or failed for a reason another seat may not share; the
  answer, when there is one, is the last attempt; and when no target answered, either the whole chain
  was walked or the last failure was terminal.
\<close>

theorem failover_in_order:
  assumes "chain_run run req now c chain = (t, c', Some res)"
  shows "walk_shape chain res"
  using assms unfolding chain_run_def by (rule chain_walk_shape)

definition monotone_gen :: "('r, 'o) chain_runner \<Rightarrow> bool" where
  "monotone_gen run \<longleftrightarrow> (\<forall>now tg req. now \<le> fst (gen run now tg req))"

lemma walk_result_mono: "monotone_gen run \<Longrightarrow> walk_result run req now tg = (t, r) \<Longrightarrow> now \<le> t"
  unfolding monotone_gen_def walk_result_def by (metis fst_conv order_refl)

lemma chain_walk_mono:
  "chain_walk run req now c [] chain = (t', c', r) \<Longrightarrow> monotone_gen run \<Longrightarrow> now \<le> t'"
proof (induction chain arbitrary: now c r)
  case Nil
  then show ?case by simp
next
  case (Cons target chain)
  from Cons.prems(1) show ?case
    by (cases rule: chain_walk_cases)
      (use Cons.prems(2) Cons.IH in \<open>fastforce dest: walk_result_mono\<close>)+
qed

text \<open>A hold that outlasts the walk is never lifted by it: its target is skipped instead.\<close>

lemma held_walk_mark: "cd.held c u p \<Longrightarrow> cd.held (walk_mark v c t q) u p"
  by (cases v) (simp_all add: walk_mark_def cd.held_mark_mono)

lemma chain_walk_keeps_hold:
  assumes "chain_walk run req now c [] chain = (t', c', r)" and "monotone_gen run"
    and "cd.held c u p" and "t' \<le> u"
  shows "cd.held c' u p"
  using assms
proof (induction chain arbitrary: now c r)
  case Nil
  then show ?case by simp
next
  case (Cons target chain)
  let ?c1 = "fst (cooldowns_remaining c now (tg_provider target))"
  have now: "now \<le> t'" using Cons.prems(1,2) by (rule chain_walk_mono)
  then have c1: "cd.held ?c1 u p" using Cons.prems by (simp add: cd.held_remaining)
  have skipped: "snd (cooldowns_remaining c now p) \<noteq> None"
    using cd.held_antimono [OF Cons.prems(3)] now Cons.prems(4)
    by (simp add: cd.remaining_None_iff)
  from Cons.prems(1) show ?case
  proof (cases rule: chain_walk_cases)
    case (skip secs)
    with Cons c1 show ?thesis by blast
  next
    case (served oc)
    with c1 skipped show ?thesis by (auto simp: cd.held_clear)
  next
    case (panic err)
    with c1 show ?thesis by simp
  next
    case (terminal err)
    with c1 show ?thesis by simp
  next
    case (failed t err v)
    then show ?thesis using Cons.IH Cons.prems(2,4) held_walk_mark [OF c1] by blast
  qed
qed

lemma chain_walk_holds:
  assumes "chain_walk run req now c [] chain = (t', c', Some res)" and "monotone_gen run"
    and "a \<in> set (cr_attempts res)" and "at_kind a = Failed e (Exhausted d)"
    and "t' \<le> u" and "u < now + int d"
  shows "cd.held c' u (tg_provider (at_target a))"
  using assms
proof (induction chain arbitrary: now c res)
  case Nil
  then show ?case by auto
next
  case (Cons target chain)
  from Cons.prems(1) show ?case
  proof (cases rule: chain_walk_cases)
    case (skip secs)
    then show ?thesis using Cons.IH Cons.prems(2-6) by auto
  next
    case (failed t err v)
    then obtain r0 where w: "chain_walk run req t (walk_mark v
          (fst (cooldowns_remaining c now (tg_provider target))) t (tg_provider target)) [] chain
        = (t', c', Some r0)" and r: "res = prepend [\<lparr>at_target = target,
          at_latency_ms = latency_ms now t, at_kind = Failed (err_to_string run err) v\<rparr>] r0"
      by auto
    have t: "now \<le> t" using Cons.prems(2) failed(2) by (rule walk_result_mono)
    from r Cons.prems(3) consider "a = \<lparr>at_target = target, at_latency_ms = latency_ms now t,
          at_kind = Failed (err_to_string run err) v\<rparr>" | "a \<in> set (cr_attempts r0)"
      by (auto simp: prepend_def)
    then show ?thesis
    proof cases
      case 1
      with Cons.prems(4) have v: "v = Exhausted d" by simp
      have "u < t + int d" using Cons.prems(6) t by simp
      then have "cd.held (walk_mark v (fst (cooldowns_remaining c now (tg_provider target))) t
          (tg_provider target)) u (tg_provider target)"
        by (simp add: walk_mark_def v cd.held_mark_until)
      from chain_walk_keeps_hold [OF w Cons.prems(2) this Cons.prems(5)] 1 show ?thesis by simp
    next
      case 2
      with Cons.IH [OF w] Cons.prems t show ?thesis by simp
    qed
  qed (use Cons.prems in auto)
qed

text \<open>
  A seat a walk found exhausted for \<open>d\<close> is skipped by every later walk that starts before
  \<open>d\<close> has passed since this one began, whatever other requests mark or read in between, as long as
  none of them clears it: the generator is not called for it.
\<close>

theorem exhausted_seat_skipped:
  assumes "chain_run run req now c chain = (t, c', Some res)" and "monotone_gen run"
    and "a \<in> set (cr_attempts res)" and "at_kind a = Failed e (Exhausted d)"
    and "t \<le> u" and "u < now + int d"
    and "\<forall>(s, op) \<in> set ops. s \<le> u \<and> op \<noteq> OpClear (tg_provider (at_target a))"
  shows "\<exists>secs. 1 \<le> secs \<and>
     snd (cooldowns_remaining (cd.exec c' ops) u (tg_provider (at_target a))) = Some secs"
proof -
  have "cd.held c' u (tg_provider (at_target a))"
    using assms(1-6) unfolding chain_run_def by (rule chain_walk_holds)
  then have "cd.held (cd.exec c' ops) u (tg_provider (at_target a))"
    using assms(7) by (rule cd.held_exec)
  then obtain s where "snd (cooldowns_remaining (cd.exec c' ops) u (tg_provider (at_target a))) = Some s"
    using cd.remaining_None_iff by (metis option.exhaust)
  then show ?thesis using cd.remaining_positive by blast
qed

text \<open>An error the engine can produce never makes classification panic.\<close>

definition engine_made :: "engine_error \<Rightarrow> bool" where
  "engine_made e \<longleftrightarrow> (\<forall>who asked rem n. e = OverBudgetWait who asked rem n \<longrightarrow>
     (\<exists>d. d < duration_of_secs (2 ^ 63) \<and> asked = as_secs_f64 d))"

lemma classify_engine_made:
  assumes "engine_made e"
  shows "classify e h \<noteq> None"
proof (cases e)
  case (OverBudgetWait who asked rem n)
  then obtain d where d: "d < duration_of_secs (2 ^ 63)" "asked = as_secs_f64 d"
    using assms unfolding engine_made_def by blast
  from as_secs_f64_range [OF d(1)] obtain q where "asked = Fin q" "0 \<le> q"
      "q \<le> 13835058055282163712" using d(2) by blast
  then show ?thesis using OverBudgetWait by (simp add: fmax_def)
qed (simp_all add: Let_def)


lemma walk_shape_served:
  assumes "walk_shape chain res" and "chain_outcome res = Some (tg, oc)"
  shows "\<exists>i < length chain. chain ! i = tg \<and> fell_back res = (0 < i)"
proof -
  obtain i where i: "cr_served res = Some i" "at_target (cr_attempts res ! i) = tg"
    using assms(2)
    by (auto simp: chain_outcome_def Let_def split: option.splits attempt_kind.splits)
  with assms(1) have len: "length (cr_attempts res) = Suc i"
    and m: "map at_target (cr_attempts res) = take (Suc i) chain"
    by (auto simp: walk_shape_def)
  then have "i < length chain" by (metis Suc_le_lessD length_map length_take min.absorb_iff2 min_def not_less_eq_eq)
  moreover have "chain ! i = tg" using m len i by (metis lessI nth_map nth_take)
  ultimately show ?thesis using i by (auto simp: fell_back_def)
qed

text \<open>
  C30: Under a configuration that validates, an answer comes from a target of the chain the request's
  model resolves to, the fell-back flag says whether it is not the first one, and an answer that fell
  back is never metered on the seat of the target it stands in for. With tools in the request, the
  target can run them; with a throttled verdict, nothing is served.
\<close>

theorem chat_served_sound:
  assumes "chat cfg dev run admitted sim model has_tools req now c = (c', ChatServed tg oc fb)"
    and "gateway_validate cfg = None"
  shows "\<exists>p prim rest. resolve cfg model = Inr p \<and> plan_chain p = prim # rest
     \<and> tg \<in> set (prim # rest) \<and> (fb \<longrightarrow> \<not> same_seat tg prim) \<and> (\<not> fb \<longrightarrow> tg = prim)
     \<and> (has_tools \<longrightarrow> supports_tools (tg_provider tg))
     \<and> (\<forall>v. admitted = Some v \<longrightarrow> \<not> throttled v)"
proof -
  obtain p run' t res where p: "resolve cfg model = Inr p"
    and tools: "has_tools \<Longrightarrow> find (\<lambda>t. \<not> supports_tools (tg_provider t)) (plan_chain p) = None"
    and adm: "\<forall>v. admitted = Some v \<longrightarrow> \<not> throttled v"
    and run: "chain_run run' req now c (plan_chain p) = (t, c', Some res)"
    and oc: "chain_outcome res = Some (tg, oc)" "fb = fell_back res"
    using assms(1)
    by (auto simp: chat_def Let_def split: sum.splits option.splits if_splits prod.splits)
  obtain prim rest where c: "plan_chain p = prim # rest" "\<forall>t \<in> set rest. \<not> same_seat t prim"
    using resolve_seats [OF assms(2) p] by blast
  from walk_shape_served [OF chain_walk_shape [OF run [unfolded chain_run_def]] oc(1)] c(1)
  obtain i where i: "i < length (prim # rest)" "(prim # rest) ! i = tg" "fb = (0 < i)"
    using oc(2) by auto
  then have mem: "tg \<in> set (prim # rest)" by (metis nth_mem)
  have "0 < i \<Longrightarrow> tg \<in> set rest" using i by (cases i) auto
  moreover have "has_tools \<Longrightarrow> supports_tools (tg_provider tg)"
    using tools mem unfolding c(1) find_None_iff by blast
  ultimately show ?thesis using p c i mem adm by (cases i) auto
qed

section \<open>A request whose primary seat is exhausted\<close>

abbreviation demo_primary :: target where
  "demo_primary \<equiv> \<lparr>tg_provider = ''anthropic'', tg_model = ''sonnet''\<rparr>"

abbreviation demo_fallback :: target where
  "demo_fallback \<equiv> \<lparr>tg_provider = ''codex'', tg_model = ''gpt''\<rparr>"

definition demo_gateway :: "(unit, string) chain_runner" where
  "demo_gateway = \<lparr>gen = (\<lambda>now tg req. (now + 5,
        if tg_provider tg = ''anthropic'' then Inl (RateLimited ''anthropic'' None) else Inr ''text'')),
     default_hold = duration_of_secs 300, simulate_exhausted = None, err_to_string = (\<lambda>_. ''limit'')\<rparr>"

definition demo_result :: "string chain_result" where
  "demo_result = \<lparr>cr_attempts =
      [\<lparr>at_target = demo_primary, at_latency_ms = 0,
        at_kind = Failed ''limit'' (Exhausted (duration_of_secs 300))\<rparr>,
       \<lparr>at_target = demo_fallback, at_latency_ms = 0, at_kind = Served ''text''\<rparr>],
     cr_served = Some 1\<rparr>"

lemmas walk_eval = chain_run_def chain_walk_Cons walk_result_def walk_mark_def
  cooldowns_remaining_def cooldowns_mark_def cooldowns_clear_def latency_ms_def
  duration_since_def as_millis_def duration_of_secs_def Let_def

lemma demo_gateway_run:
  "chain_run demo_gateway () 0 [] [demo_primary, demo_fallback]
     = (10, [(''anthropic'', 300000000005)], Some demo_result)"
  by (simp add: demo_gateway_def demo_result_def walk_eval)

lemma demo_gateway_mono: "monotone_gen demo_gateway"
  by (simp add: monotone_gen_def demo_gateway_def)

theorem failover_in_order_witness: "walk_shape [demo_primary, demo_fallback] demo_result"
  by (rule failover_in_order [OF demo_gateway_run])

theorem exhausted_seat_skipped_witness:
  "\<exists>secs. 1 \<le> secs \<and> snd (cooldowns_remaining
      (cd.exec [(''anthropic'', 300000000005)] [(12, OpRemaining ''anthropic''), (15, OpClear ''codex'')])
      100 ''anthropic'') = Some secs"
proof -
  let ?a = "\<lparr>at_target = demo_primary, at_latency_ms = 0,
      at_kind = Failed ''limit'' (Exhausted (duration_of_secs 300))\<rparr>"
  have "?a \<in> set (cr_attempts demo_result)" by (simp add: demo_result_def)
  from exhausted_seat_skipped [OF demo_gateway_run demo_gateway_mono this, of "''limit''"
      "duration_of_secs 300" 100 "[(12, OpRemaining ''anthropic''), (15, OpClear ''codex'')]"]
  show ?thesis by (simp add: duration_of_secs_def)
qed


definition demo_config :: gateway_config where
  "demo_config = \<lparr>cooldown_secs = 300, defaults_fallback = [],
     routes = [(''summarize'', \<lparr>primary = ''anthropic/sonnet'', fallback = [''codex/gpt'']\<rparr>)]\<rparr>"

lemma demo_targets:
  "target_parse ''anthropic/sonnet'' = Inr demo_primary"
  "target_parse ''codex/gpt'' = Inr demo_fallback"
  "str_trim ''summarize'' = ''summarize''"
  by code_simp+

lemma demo_families: "family_of ''anthropic'' = Anthropic" by code_simp

theorem chat_served_sound_witness: "\<not> same_seat demo_fallback demo_primary"
proof -
  have r: "resolve demo_config ''summarize'' = Inr \<lparr>plan_route = Some ''summarize'',
      plan_chain = [demo_primary, demo_fallback]\<rparr>"
    by (simp add: resolve_def demo_config_def demo_targets)
  have v: "gateway_validate demo_config = None"
    by (simp add: gateway_validate_def demo_config_def demo_targets same_seat_def
        target_family_def demo_families)
  have same: "demo_gateway\<lparr>default_hold := duration_of_secs (cooldown_secs demo_config),
      simulate_exhausted := None\<rparr> = demo_gateway"
    by (simp add: demo_gateway_def demo_config_def)
  have "chat demo_config False demo_gateway (None :: unit adm_verdict option) None ''summarize'' False () 0 []
      = ([(''anthropic'', 300000000005)], ChatServed demo_fallback ''text'' True)"
    using demo_gateway_run
    by (simp add: chat_def r same demo_result_def chain_outcome_def fell_back_def)
  from chat_served_sound [OF this v] r show ?thesis by simp
qed

end
