(* ===== verification/Leases.thy ===== *)
theory Leases
  imports LT_Prelude
begin

text \<open>
  \<^verbatim>\<open>crates/core/src/lease.rs\<close>: the answer a conditioned write gives its holder, and the contract
  of a table whose rows are held under a fence. The locale states what a queue promises one step at
  a time; the theorems about stale holders and final verdicts are proved once from it, and hold for
  both queues of the system through its interpretations.
\<close>

section \<open>What a conditioned write did\<close>

datatype lease_held =
    Held "instant option" bool
  | NotHeld string "instant option"
  | NoSuchRecord

definition lease_held_plain :: "instant option \<Rightarrow> lease_held" where
  "lease_held_plain deadline = Held deadline False"

definition lease_held_cancelling :: "instant option \<Rightarrow> lease_held" where
  "lease_held_cancelling deadline = Held deadline True"

definition is_held :: "lease_held \<Rightarrow> bool" where
  "is_held h = (case h of Held _ _ \<Rightarrow> True | _ \<Rightarrow> False)"

definition cancel_requested :: "lease_held \<Rightarrow> bool" where
  "cancel_requested h = (case h of Held _ c \<Rightarrow> c | _ \<Rightarrow> False)"

section \<open>Scopes\<close>

text \<open>
  \<open>scope_and\<close> of \<^verbatim>\<open>sqlite/mod.rs\<close>: an operator scope matches every row, a project scope its own.
\<close>

definition scope_and :: "string option \<Rightarrow> string option \<Rightarrow> bool" where
  "scope_and project row_project \<longleftrightarrow> project = None \<or> (project \<noteq> None \<and> row_project = project)"

section \<open>The contract of a leased table\<close>

text \<open>
  A history is a list of steps, each with its clock reading: a write a holder makes with the fence it
  was handed, or anything else that happens to the table.
\<close>

datatype ('w, 'e) lease_step =
    HolderStep instant string instant 'w
  | OtherStep instant 'e

fun step_time :: "('w, 'e) lease_step \<Rightarrow> instant" where
  "step_time (HolderStep now _ _ _) = now"
| "step_time (OtherStep now _) = now"

fun from_holder :: "string \<Rightarrow> instant \<Rightarrow> ('w, 'e) lease_step \<Rightarrow> bool" where
  "from_holder i f (HolderStep _ j g _) \<longleftrightarrow> i = j \<and> f = g"
| "from_holder i f (OtherStep _ _) \<longleftrightarrow> False"

locale leased_table =
  fixes wf :: "'s \<Rightarrow> bool"
    and row_of :: "'s \<Rightarrow> string \<Rightarrow> 'r option"
    and fence_of :: "'r \<Rightarrow> instant option"
    and open_row :: "'r \<Rightarrow> bool"
    and verdict_of :: "'r \<Rightarrow> 'v"
    and holder_write :: "instant \<Rightarrow> string \<Rightarrow> instant \<Rightarrow> 'w \<Rightarrow> 's \<Rightarrow> 's"
    and other_write :: "instant \<Rightarrow> 'e \<Rightarrow> 's \<Rightarrow> 's"
  assumes wf_holder: "wf s \<Longrightarrow> wf (holder_write now i f w s)"
    and wf_other: "wf s \<Longrightarrow> wf (other_write now e s)"
    and refused: "wf s \<Longrightarrow> \<not> (\<exists>r. row_of s i = Some r \<and> open_row r \<and> fence_of r = Some f)
      \<Longrightarrow> holder_write now i f w s = s"
    and holder_fence: "wf s \<Longrightarrow> row_of (holder_write now i f w s) j = Some r' \<Longrightarrow> open_row r'
      \<Longrightarrow> fence_of r' = Some g
      \<Longrightarrow> g = now \<or> (\<exists>r. row_of s j = Some r \<and> open_row r \<and> fence_of r = Some g)"
    and other_fence: "wf s \<Longrightarrow> row_of (other_write now e s) j = Some r' \<Longrightarrow> open_row r'
      \<Longrightarrow> fence_of r' = Some g
      \<Longrightarrow> g = now \<or> (\<exists>r. row_of s j = Some r \<and> open_row r \<and> fence_of r = Some g)"
    and holder_final: "wf s \<Longrightarrow> row_of s j = Some r \<Longrightarrow> \<not> open_row r
      \<Longrightarrow> \<exists>r'. row_of (holder_write now i f w s) j = Some r' \<and> \<not> open_row r'
            \<and> verdict_of r' = verdict_of r"
    and other_final: "wf s \<Longrightarrow> row_of s j = Some r \<Longrightarrow> \<not> open_row r
      \<Longrightarrow> \<exists>r'. row_of (other_write now e s) j = Some r' \<and> \<not> open_row r'
            \<and> verdict_of r' = verdict_of r"
begin

definition holds :: "'s \<Rightarrow> string \<Rightarrow> instant \<Rightarrow> bool" where
  "holds s i f \<longleftrightarrow> (\<exists>r. row_of s i = Some r \<and> open_row r \<and> fence_of r = Some f)"

fun perform :: "('w, 'e) lease_step \<Rightarrow> 's \<Rightarrow> 's" where
  "perform (HolderStep now i f w) s = holder_write now i f w s"
| "perform (OtherStep now e) s = other_write now e s"

definition history :: "('w, 'e) lease_step list \<Rightarrow> 's \<Rightarrow> 's" where
  "history steps s = fold perform steps s"

lemma perform_wf: "wf s \<Longrightarrow> wf (perform st s)"
  by (cases st) (simp_all add: wf_holder wf_other)

lemma perform_fence:
  assumes "wf s" and "holds (perform st s) i f" and "step_time st \<noteq> f"
  shows "holds s i f"
  using assms by (cases st) (auto simp: holds_def dest: holder_fence [rotated 1] other_fence [rotated 1])

lemma perform_stale: "wf s \<Longrightarrow> \<not> holds s i f \<Longrightarrow> from_holder i f st \<Longrightarrow> perform st s = s"
  by (cases st) (auto simp: holds_def refused)

text \<open>A fence that was lost never comes back, because a new one is stamped with its own instant.\<close>

lemma lost_forever:
  assumes "wf s" and "\<not> holds s i f" and "\<forall>st \<in> set steps. step_time st \<noteq> f"
  shows "\<not> holds (history steps s) i f"
  using assms
proof (induction steps arbitrary: s)
  case Nil
  then show ?case by (simp add: history_def)
next
  case (Cons st steps)
  then have "\<not> holds (perform st s) i f" using perform_fence by force
  with Cons perform_wf show ?case by (simp add: history_def)
qed

text \<open>So the late writes of a holder that lost its lease can be erased from any history.\<close>

lemma stale_erased:
  assumes "wf s" and "\<not> holds s i f" and "\<forall>st \<in> set steps. step_time st \<noteq> f"
  shows "history steps s = history (filter (\<lambda>st. \<not> from_holder i f st) steps) s"
  using assms
proof (induction steps arbitrary: s)
  case Nil
  then show ?case by simp
next
  case (Cons st steps)
  have later: "\<not> holds (perform st s) i f" using Cons.prems perform_fence by force
  show ?case
  proof (cases "from_holder i f st")
    case True
    then have "perform st s = s" using Cons.prems(1,2) by (intro perform_stale)
    with True Cons show ?thesis by (simp add: history_def)
  next
    case False
    with Cons.IH [OF perform_wf [OF Cons.prems(1)] later] Cons.prems(3) show ?thesis by (simp add: history_def)
  qed
qed

lemma perform_final:
  assumes "wf s" and "row_of s j = Some r" and "\<not> open_row r"
  shows "\<exists>r'. row_of (perform st s) j = Some r' \<and> \<not> open_row r' \<and> verdict_of r' = verdict_of r"
  using assms by (cases st) (simp_all add: holder_final other_final)

lemma verdict_final:
  assumes "wf s" and "row_of s j = Some r" and "\<not> open_row r"
  shows "\<exists>r'. row_of (history steps s) j = Some r' \<and> \<not> open_row r' \<and> verdict_of r' = verdict_of r"
  using assms
proof (induction steps arbitrary: s r)
  case Nil
  then show ?case by (auto simp: history_def)
next
  case (Cons st steps)
  from perform_final [OF Cons.prems, of st] Cons.IH [OF perform_wf [OF Cons.prems(1)]] show ?case
    by (fastforce simp: history_def)
qed

end

end
