(* ===== verification/JobQueue.thy ===== *)
theory JobQueue
  imports Leases
begin

text \<open>
  The background job queue: \<^verbatim>\<open>crates/core/src/job.rs\<close> (the row and its vocabularies),
  \<^verbatim>\<open>crates/store/src/sqlite/jobs.rs\<close> (one definition per statement), the claim and enqueue
  doors of \<^verbatim>\<open>crates/api/src\<close>, and what a worker reports
  (\<^verbatim>\<open>crates/runner/src/serve_job.rs\<close>). The table is the list of its rows; a statement is one
  function of the clock reading it takes. JSON columns are values of an arbitrary type, a JSON null
  being \<^term>\<open>None\<close>.
\<close>

section \<open>Vocabularies\<close>

datatype job_kind = BenchRun | ScoreEvents | ScoreTraces | DatasetSample | Calibrate | Contribute

definition JobKind_ALL :: "job_kind list" where
  "JobKind_ALL = [BenchRun, ScoreEvents, ScoreTraces, DatasetSample, Calibrate, Contribute]"

fun job_kind_as_str :: "job_kind \<Rightarrow> string" where
  "job_kind_as_str BenchRun = ''bench_run''"
| "job_kind_as_str ScoreEvents = ''score_events''"
| "job_kind_as_str ScoreTraces = ''score_traces''"
| "job_kind_as_str DatasetSample = ''dataset_sample''"
| "job_kind_as_str Calibrate = ''calibrate''"
| "job_kind_as_str Contribute = ''contribute''"

definition job_kind_from_wire :: "string \<Rightarrow> job_kind option" where
  "job_kind_from_wire s = find (\<lambda>k. job_kind_as_str k = s) JobKind_ALL"

interpretation jk: closed_vocabulary JobKind_ALL job_kind_as_str job_kind_from_wire
proof
  show "job_kind_from_wire s = wire_search JobKind_ALL job_kind_as_str s" for s
    by (simp add: job_kind_from_wire_def wire_search_def)
  show "v \<in> set JobKind_ALL" for v by (cases v) (simp_all add: JobKind_ALL_def)
  show "distinct (map job_kind_as_str JobKind_ALL)" by (simp add: JobKind_ALL_def)
qed

definition JOB_ERROR_WORKER_LOST :: string where
  "JOB_ERROR_WORKER_LOST = ''worker lost: the worker holding this job did not finish before the stale-claim timeout (crashed, killed, or partitioned) - this is not a benchmark failure''"

definition JOB_ERROR_CANCEL_ORPHANED :: string where
  "JOB_ERROR_CANCEL_ORPHANED = ''cancelled: the worker holding this job died after the cancel was requested, before it      reached a case boundary - any partial results it had not yet written are lost''"

definition JOB_ERROR_PREFIX_FAILURE :: string where
  "JOB_ERROR_PREFIX_FAILURE = ''benchmark failure: ''"

definition job_is_terminal :: "string \<Rightarrow> bool" where
  "job_is_terminal status \<longleftrightarrow> status \<in> {''done'', ''failed'', ''cancelled''}"

section \<open>The row\<close>

record 'v job =
  job_id :: string
  job_type :: string
  payload :: "'v option"
  status :: string
  project_id :: "string option"
  attempts :: nat
  failures :: nat
  stale_reclaims :: nat
  max_attempts :: nat
  progress :: "string option"
  error :: "string option"
  result :: "'v option"
  claimed_at :: "instant option"
  created_at :: instant
  updated_at :: instant

definition job_kind_of :: "'v job \<Rightarrow> job_kind option" where
  "job_kind_of j = job_kind_from_wire (job_type j)"

definition job_fence :: "'v job \<Rightarrow> instant option" where
  "job_fence j = claimed_at j"

datatype job_cancel = JobCancelled | JobCancelling | JobAlreadyFinished string

datatype job_finish =
    JobFinished
  | JobNotHeld string "instant option"
  | NoSuchJob

type_synonym 'v jobs = "'v job list"

section \<open>The statements\<close>

text \<open>\<open>INSERT\<close> fails on an id that is already there.\<close>

definition jobs_create :: "'v job \<Rightarrow> 'v jobs \<Rightarrow> 'v jobs option" where
  "jobs_create j t = (if row_by job_id (job_id j) t = None then Some (t @ [j]) else None)"

definition jobs_get :: "string option \<Rightarrow> string \<Rightarrow> 'v jobs \<Rightarrow> 'v job option" where
  "jobs_get project i t = row_by job_id i (filter (\<lambda>j. scope_and project (project_id j)) t)"

definition jobs_list :: "string option \<Rightarrow> string option \<Rightarrow> nat \<Rightarrow> 'v jobs \<Rightarrow> 'v jobs" where
  "jobs_list project st limit t =
     take limit (sort_key (\<lambda>j. - created_at j)
       (filter (\<lambda>j. (st = None \<or> st = Some (status j)) \<and> scope_and project (project_id j)) t))"

definition jobs_cancel :: "instant \<Rightarrow> string option \<Rightarrow> string \<Rightarrow> 'v jobs \<Rightarrow> 'v jobs \<times> job_cancel option" where
  "jobs_cancel now project i t =
     (let hit = (\<lambda>j. job_id j = i \<and> (status j = ''queued'' \<or> status j = ''running'')
            \<and> scope_and project (project_id j));
          t' = update_where hit (\<lambda>j. j\<lparr>status := (if status j = ''queued'' then ''cancelled''
                  else ''cancelling''), updated_at := now\<rparr>) t
      in case find hit t of
           Some j \<Rightarrow> (t', Some (if status j = ''queued'' then JobCancelled else JobCancelling))
         | None \<Rightarrow> (t', map_option (\<lambda>j. JobAlreadyFinished (status j)) (jobs_get project i t)))"

text \<open>The claim: settle orphaned cancels, then hand out the oldest job this worker can run.\<close>

definition settle_orphans :: "instant \<Rightarrow> instant \<Rightarrow> 'v jobs \<Rightarrow> 'v jobs" where
  "settle_orphans now stale t =
     update_where (\<lambda>j. status j = ''cancelling'' \<and> sql_lt (claimed_at j) stale)
       (\<lambda>j. j\<lparr>status := ''cancelled'', updated_at := now,
             error := Some JOB_ERROR_CANCEL_ORPHANED\<rparr>) t"

definition claimable :: "instant \<Rightarrow> string list \<Rightarrow> 'v job \<Rightarrow> bool" where
  "claimable stale kinds j \<longleftrightarrow>
     (status j = ''queued'' \<or> (status j = ''running'' \<and> sql_lt (claimed_at j) stale))
     \<and> (kinds = [] \<or> job_type j \<in> set kinds)"

definition take_job :: "instant \<Rightarrow> 'v job \<Rightarrow> 'v job" where
  "take_job now j = j\<lparr>status := ''running'', claimed_at := Some now, updated_at := now,
     attempts := attempts j + 1,
     stale_reclaims := stale_reclaims j + (if status j = ''running'' then 1 else 0),
     error := (if status j = ''running'' then Some JOB_ERROR_WORKER_LOST else error j)\<rparr>"

definition jobs_claim :: "instant \<Rightarrow> instant \<Rightarrow> string list \<Rightarrow> 'v jobs \<Rightarrow> 'v jobs \<times> 'v job option" where
  "jobs_claim now stale kinds t0 =
     (let t = settle_orphans now stale t0 in
      case min_row created_at (filter (claimable stale kinds) t) of
        None \<Rightarrow> (t, None)
      | Some j \<Rightarrow>
          (let t' = update_where (\<lambda>r. job_id r = job_id j) (take_job now) t
           in (t', row_by job_id (job_id j) t')))"

definition jobs_update_progress :: "instant \<Rightarrow> string \<Rightarrow> string \<Rightarrow> 'v jobs \<Rightarrow> 'v jobs" where
  "jobs_update_progress now i p t =
     update_where (\<lambda>j. job_id j = i) (\<lambda>j. j\<lparr>progress := Some p, updated_at := now\<rparr>) t"

definition jobs_renew_lease :: "instant \<Rightarrow> string \<Rightarrow> instant \<Rightarrow> 'v jobs \<Rightarrow> 'v jobs \<times> instant option" where
  "jobs_renew_lease now i fence t =
     (let hit = (\<lambda>j. job_id j = i \<and> sql_eq (claimed_at j) fence
            \<and> (status j = ''running'' \<or> status j = ''cancelling''))
      in (update_where hit (\<lambda>j. j\<lparr>claimed_at := Some now, updated_at := now\<rparr>) t,
          if list_ex hit t then Some now else None))"

definition jobs_finish :: "instant \<Rightarrow> string \<Rightarrow> string \<Rightarrow> 'v option \<Rightarrow> string option \<Rightarrow> instant option
    \<Rightarrow> 'v jobs \<Rightarrow> 'v jobs \<times> job_finish" where
  "jobs_finish now i st res err fence t =
     (let hit = (\<lambda>j. job_id j = i \<and> \<not> job_is_terminal (status j)
            \<and> (case fence of None \<Rightarrow> True | Some f \<Rightarrow> sql_eq (claimed_at j) f));
          t' = update_where hit (\<lambda>j. j\<lparr>status := st, result := res, error := err, updated_at := now,
                 failures := failures j + (if err \<noteq> None then 1 else 0)\<rparr>) t
      in if list_ex hit t then (t', JobFinished)
         else (t', case jobs_get None i t' of
                 Some j \<Rightarrow> JobNotHeld (status j) (claimed_at j)
               | None \<Rightarrow> NoSuchJob))"

section \<open>The doors in front of it\<close>

definition enqueue_row :: "instant \<Rightarrow> string \<Rightarrow> string option \<Rightarrow> job_kind \<Rightarrow> 'v option \<Rightarrow> 'v job" where
  "enqueue_row now i project kind pl =
     \<lparr>job_id = i, job_type = job_kind_as_str kind, payload = pl, status = ''queued'',
      project_id = project, attempts = 0, failures = 0, stale_reclaims = 0, max_attempts = 3,
      progress = None, error = None, result = None, claimed_at = None, created_at = now,
      updated_at = now\<rparr>"

definition MIN_STALE_SECS :: int where "MIN_STALE_SECS = 10"

definition api_stale_before :: "instant \<Rightarrow> int \<Rightarrow> instant" where
  "api_stale_before now stale_secs = now - chrono_secs (max stale_secs MIN_STALE_SECS)"

text \<open>An unknown kind is refused (the offending literal), otherwise the claim runs.\<close>

definition api_claim :: "instant \<Rightarrow> int \<Rightarrow> string list \<Rightarrow> 'v jobs \<Rightarrow> string + ('v jobs \<times> 'v job option)" where
  "api_claim now stale_secs kinds t =
     (case find (\<lambda>k. job_kind_from_wire k = None) kinds of
        Some k \<Rightarrow> Inl k
      | None \<Rightarrow> Inr (jobs_claim now (api_stale_before now stale_secs) kinds t))"

text \<open>
  What a worker sends when a run ends: \<open>retry_decision\<close> and the end of \<open>run_claimed_job\<close>. The
  outcome is the run's error or its result, \<open>cancelled\<close> whether the run was told to stop.
\<close>

definition retry_decision :: "nat \<Rightarrow> nat \<Rightarrow> string" where
  "retry_decision fails budget = (let after = fails + 1 in
     if after < budget then ''queued'' else ''failed'')"

definition worker_report :: "'v job \<Rightarrow> bool \<Rightarrow> (string + 'v option) \<Rightarrow>
    string \<times> 'v option \<times> string option" where
  "worker_report j cancelled outcome =
     (case outcome of
        Inr res \<Rightarrow> (if cancelled then ''cancelled'' else ''done'', res, None)
      | Inl e \<Rightarrow> (retry_decision (failures j) (max_attempts j), None,
                 Some (JOB_ERROR_PREFIX_FAILURE @ e)))"

section \<open>What each statement does to one row\<close>

lemma update_where_cong:
  "(\<And>r. r \<in> set t \<Longrightarrow> p r = q r) \<Longrightarrow> update_where p f t = update_where q f t"
  by (induction t) (auto simp: update_where_def)

lemma jobs_get_operator [simp]: "jobs_get None i t = row_by job_id i t"
  by (simp add: jobs_get_def scope_and_def)

text \<open>Every statement but the insert leaves the ids alone, so it acts on a row by itself.\<close>

lemma row_by_pick [simp]:
  assumes "\<And>r :: 'v job. job_id (f r) = job_id r"
  shows "row_by job_id k (update_where p f t)
       = map_option (\<lambda>r. if p r then f r else r) (row_by job_id k t)"
  by (rule row_by_update_where) (rule assms)

lemma jobs_cancel_fst:
  "fst (jobs_cancel now project i t) =
     update_where (\<lambda>j. job_id j = i \<and> (status j = ''queued'' \<or> status j = ''running'')
            \<and> scope_and project (project_id j))
       (\<lambda>j. j\<lparr>status := (if status j = ''queued'' then ''cancelled'' else ''cancelling''),
            updated_at := now\<rparr>) t"
  by (simp add: jobs_cancel_def Let_def split: option.splits)

lemma jobs_finish_fst:
  "fst (jobs_finish now i st res err fence t) =
     update_where (\<lambda>j. job_id j = i \<and> \<not> job_is_terminal (status j)
            \<and> (case fence of None \<Rightarrow> True | Some f \<Rightarrow> sql_eq (claimed_at j) f))
       (\<lambda>j. j\<lparr>status := st, result := res, error := err, updated_at := now,
            failures := failures j + (if err \<noteq> None then 1 else 0)\<rparr>) t"
  by (simp add: jobs_finish_def Let_def)

lemma take_job_id [simp]: "job_id (take_job now j) = job_id j"
  by (simp add: take_job_def)

text \<open>The claim, seen as one update of the settled table.\<close>

lemma jobs_claim_fst:
  "fst (jobs_claim now stale kinds t) =
     (case min_row created_at (filter (claimable stale kinds) (settle_orphans now stale t)) of
        None \<Rightarrow> settle_orphans now stale t
      | Some j \<Rightarrow> update_where (\<lambda>r. job_id r = job_id j) (take_job now) (settle_orphans now stale t))"
  by (simp add: jobs_claim_def Let_def split: option.splits)

lemma job_ids [simp]:
  "map job_id (settle_orphans now stale t) = map job_id t"
  "map job_id (fst (jobs_cancel now project i t)) = map job_id t"
  "map job_id (fst (jobs_claim now stale kinds t)) = map job_id t"
  "map job_id (jobs_update_progress now i p t) = map job_id t"
  "map job_id (fst (jobs_renew_lease now i fence t)) = map job_id t"
  "map job_id (fst (jobs_finish now i st res err fo t)) = map job_id t"
  by (simp_all add: settle_orphans_def jobs_cancel_fst jobs_claim_fst jobs_update_progress_def
      jobs_renew_lease_def Let_def jobs_finish_fst table_simps split: option.splits)

section \<open>The queue keeps the contract of a leased table\<close>

datatype 'v job_write = Renew | Finish string "'v option" "string option"

datatype 'v job_event =
    Enqueue string "string option" job_kind "'v option"
  | Cancel "string option" string
  | Claim instant "string list"
  | Progress string string
  | OperatorFinish string string "'v option" "string option"

fun job_holder_write :: "instant \<Rightarrow> string \<Rightarrow> instant \<Rightarrow> 'v job_write \<Rightarrow> 'v jobs \<Rightarrow> 'v jobs" where
  "job_holder_write now i f Renew t = fst (jobs_renew_lease now i f t)"
| "job_holder_write now i f (Finish st res err) t = fst (jobs_finish now i st res err (Some f) t)"

fun job_other_write :: "instant \<Rightarrow> 'v job_event \<Rightarrow> 'v jobs \<Rightarrow> 'v jobs" where
  "job_other_write now (Enqueue i project kind pl) t =
     (case jobs_create (enqueue_row now i project kind pl) t of Some t' \<Rightarrow> t' | None \<Rightarrow> t)"
| "job_other_write now (Cancel project i) t = fst (jobs_cancel now project i t)"
| "job_other_write now (Claim stale kinds) t = fst (jobs_claim now stale kinds t)"
| "job_other_write now (Progress i p) t = jobs_update_progress now i p t"
| "job_other_write now (OperatorFinish i st res err) t = fst (jobs_finish now i st res err None t)"

abbreviation job_open :: "'v job \<Rightarrow> bool" where
  "job_open j \<equiv> \<not> job_is_terminal (status j)"

definition job_verdict :: "'v job \<Rightarrow> string \<times> 'v option \<times> string option \<times> nat" where
  "job_verdict j = (status j, result j, error j, failures j)"

definition jobs_wf :: "'v jobs \<Rightarrow> bool" where
  "jobs_wf t \<longleftrightarrow> distinct (map job_id t)"

lemma open_statuses: "status j = ''queued'' \<or> status j = ''running'' \<or> status j = ''cancelling'' \<Longrightarrow> job_open j"
  by (auto simp: job_is_terminal_def)

text \<open>What the claim does to the row with a given id.\<close>

lemma jobs_claim_row:
  assumes "jobs_wf t"
  obtains (same) "row_by job_id k (fst (jobs_claim now stale kinds t))
        = row_by job_id k (settle_orphans now stale t)"
  | (taken) j where "row_by job_id k (settle_orphans now stale t) = Some j" "claimable stale kinds j"
      "row_by job_id k (fst (jobs_claim now stale kinds t)) = Some (take_job now j)"
proof -
  let ?s = "settle_orphans now stale t"
  show thesis
  proof (cases "min_row created_at (filter (claimable stale kinds) ?s)")
    case None
    then show thesis by (intro same) (simp add: jobs_claim_fst)
  next
    case (Some j)
    then have j: "j \<in> set ?s" "claimable stale kinds j" by (auto dest!: min_row_Some)
    have fst: "fst (jobs_claim now stale kinds t) = update_where (\<lambda>r. job_id r = job_id j) (take_job now) ?s"
      using Some by (simp add: jobs_claim_fst)
    show thesis
    proof (cases "k = job_id j")
      case True
      have "distinct (map job_id ?s)" using assms by (simp add: jobs_wf_def)
      from row_by_distinct [OF this j(1)] True have "row_by job_id k ?s = Some j" by simp
      then show thesis using j(2) True by (intro taken) (simp_all add: fst)
    next
      case False
      then have "row_by job_id k (fst (jobs_claim now stale kinds t)) = row_by job_id k ?s"
        by (cases "row_by job_id k ?s") (auto simp: fst dest: row_by_Some)
      then show thesis by (rule same)
    qed
  qed
qed

lemma settle_orphans_row:
  "row_by job_id k (settle_orphans now stale t) = map_option
     (\<lambda>j. if status j = ''cancelling'' \<and> sql_lt (claimed_at j) stale
          then j\<lparr>status := ''cancelled'', updated_at := now, error := Some JOB_ERROR_CANCEL_ORPHANED\<rparr>
          else j) (row_by job_id k t)"
  by (simp add: settle_orphans_def)

lemma jobs_renew_fst:
  "fst (jobs_renew_lease now i fence t) = update_where
     (\<lambda>j. job_id j = i \<and> claimed_at j = Some fence \<and> (status j = ''running'' \<or> status j = ''cancelling''))
     (\<lambda>j. j\<lparr>claimed_at := Some now, updated_at := now\<rparr>) t"
  by (simp add: jobs_renew_lease_def Let_def)

lemma job_writes_wf:
  "jobs_wf t \<Longrightarrow> jobs_wf (job_holder_write now i f w t)"
  "jobs_wf t \<Longrightarrow> jobs_wf (job_other_write now e t)"
  by (cases w; simp add: jobs_wf_def)
    (cases e; auto simp: jobs_wf_def jobs_create_def row_by_None split: option.splits)

lemma job_refused:
  assumes "jobs_wf t"
    and "\<not> (\<exists>r. row_by job_id i t = Some r \<and> job_open r \<and> claimed_at r = Some f)"
  shows "job_holder_write now i f w t = t"
proof -
  have "\<not> (job_open r \<and> claimed_at r = Some f)" if "r \<in> set t" "job_id r = i" for r
    using row_by_distinct [of job_id t r] assms that by (auto simp: jobs_wf_def)
  then show ?thesis
    by (cases w) (fastforce simp: jobs_renew_fst jobs_finish_fst job_is_terminal_def
      intro!: update_where_none)+
qed

lemma job_holder_fence:
  assumes "row_by job_id j (job_holder_write now i f w t) = Some r'"
    and "job_open r'" and "claimed_at r' = Some g"
  shows "g = now \<or> (\<exists>r. row_by job_id j t = Some r \<and> job_open r \<and> claimed_at r = Some g)"
  using assms by (cases w) (auto simp: jobs_renew_fst jobs_finish_fst split: if_splits)

lemma job_other_fence:
  assumes "jobs_wf t" and "row_by job_id j (job_other_write now e t) = Some r'"
    and "job_open r'" and "claimed_at r' = Some g"
  shows "g = now \<or> (\<exists>r. row_by job_id j t = Some r \<and> job_open r \<and> claimed_at r = Some g)"
proof (cases e)
  case (Enqueue i project kind pl)
  with assms(2-) show ?thesis
    by (auto simp: jobs_create_def enqueue_row_def row_by_append table_simps
        split: option.splits if_splits)
next
  case (Claim stale kinds)
  with assms(2) have r': "row_by job_id j (fst (jobs_claim now stale kinds t)) = Some r'" by simp
  show ?thesis
  proof (cases rule: jobs_claim_row [OF assms(1), of j now stale kinds])
    case 1
    with r' assms(3,4) show ?thesis
      by (auto simp: settle_orphans_row job_is_terminal_def split: if_splits)
  next
    case (2 q)
    with r' assms(4) show ?thesis by (auto simp: take_job_def)
  qed
qed (use assms(2-) in \<open>auto simp: jobs_cancel_fst jobs_update_progress_def jobs_finish_fst
    open_statuses job_is_terminal_def split: if_splits\<close>)

lemma job_holder_final:
  assumes "row_by job_id j t = Some r" and "\<not> job_open r"
  shows "\<exists>r'. row_by job_id j (job_holder_write now i f w t) = Some r' \<and> \<not> job_open r'
     \<and> job_verdict r' = job_verdict r"
  using assms by (cases w)
    (auto simp: jobs_renew_fst jobs_finish_fst job_verdict_def job_is_terminal_def)

lemma job_other_final:
  assumes "jobs_wf t" and "row_by job_id j t = Some r" and "\<not> job_open r"
  shows "\<exists>r'. row_by job_id j (job_other_write now e t) = Some r' \<and> \<not> job_open r'
     \<and> job_verdict r' = job_verdict r"
proof (cases e)
  case (Enqueue i project kind pl)
  with assms(2,3) show ?thesis
    by (auto simp: jobs_create_def row_by_append split: option.splits)
next
  case (Claim stale kinds)
  have settled: "row_by job_id j (settle_orphans now stale t) = Some r"
    using assms(2,3) by (auto simp: settle_orphans_row job_is_terminal_def)
  show ?thesis
  proof (cases rule: jobs_claim_row [OF assms(1), of j now stale kinds])
    case 1
    with settled assms(3) Claim show ?thesis by simp
  next
    case (2 q)
    with settled assms(3) show ?thesis by (auto simp: claimable_def job_is_terminal_def)
  qed
qed (use assms(2,3) in \<open>auto simp: jobs_cancel_fst jobs_update_progress_def jobs_finish_fst
    job_verdict_def job_is_terminal_def\<close>)

interpretation jq: leased_table jobs_wf "\<lambda>t i. row_by job_id i t" claimed_at job_open job_verdict
  job_holder_write job_other_write
proof (unfold_locales, goal_cases)
  case 1
  then show ?case by (rule job_writes_wf)
next
  case 2
  then show ?case by (rule job_writes_wf)
next
  case 3
  then show ?case by (rule job_refused)
next
  case 4
  then show ?case by (intro job_holder_fence)
next
  case 5
  then show ?case by (intro job_other_fence)
next
  case 6
  then show ?case by (intro job_holder_final)
next
  case 7
  then show ?case by (intro job_other_final)
qed

section \<open>Properties of the queue\<close>


text \<open>
  A verdict is final: status, result, error and failure count of a job that reached a terminal
  status are the same at the end of every later history.
\<close>

theorem job_verdict_is_final:
  assumes "jobs_wf t" and "row_by job_id i t = Some j" and "job_is_terminal (status j)"
  shows "\<exists>r. row_by job_id i (jq.history steps t) = Some r
     \<and> job_is_terminal (status r) \<and> job_verdict r = job_verdict j"
  using jq.verdict_final [OF assms(1,2), of steps] assms(3) by auto

text \<open>
  C37: A claim hands out exactly one job: the oldest of those that are queued, or running under a
  lease older than the stale bound, and of a kind the worker declared; it is now running under a
  fresh lease with one more attempt, and a death of its worker is counted apart from failures. Every
  other job is what settling orphaned cancels left. A claim that hands out nothing found no such job.
\<close>

theorem claim_hands_out_oldest:
  assumes "jobs_wf t" and "jobs_claim now stale kinds t = (t', res)"
  shows "case res of
      None \<Rightarrow> t' = settle_orphans now stale t \<and> filter (claimable stale kinds) t' = []
    | Some j' \<Rightarrow> (\<exists>j \<in> set (settle_orphans now stale t). claimable stale kinds j
        \<and> (status j = ''queued'' \<or> status j = ''running'' \<and> (\<exists>f. claimed_at j = Some f \<and> f < stale))
        \<and> (kinds = [] \<or> job_type j \<in> set kinds)
        \<and> (\<forall>r \<in> set (settle_orphans now stale t). claimable stale kinds r \<longrightarrow> created_at j \<le> created_at r)
        \<and> j' = take_job now j \<and> row_by job_id (job_id j) t' = Some j'
        \<and> (\<forall>k. k \<noteq> job_id j \<longrightarrow> row_by job_id k t' = row_by job_id k (settle_orphans now stale t)))"
proof -
  let ?s = "settle_orphans now stale t"
  show ?thesis
  proof (cases "min_row created_at (filter (claimable stale kinds) ?s)")
    case None
    then show ?thesis using assms(2) by (auto simp: jobs_claim_def Let_def)
  next
    case (Some j)
    note m = min_row_Some [OF Some]
    have "distinct (map job_id ?s)" using assms(1) by (simp add: jobs_wf_def)
    then have row: "row_by job_id (job_id j) ?s = Some j" using m by (intro row_by_distinct) auto
    have t': "t' = update_where (\<lambda>r. job_id r = job_id j) (take_job now) ?s"
      and res: "res = Some (take_job now j)"
      using assms(2) Some row by (auto simp: jobs_claim_def Let_def)
    have "row_by job_id k t' = row_by job_id k ?s" if "k \<noteq> job_id j" for k
      using that by (cases "row_by job_id k ?s") (auto simp: t' dest: row_by_Some)
    moreover have "(status j = ''queued'' \<or> status j = ''running'' \<and> (\<exists>f. claimed_at j = Some f \<and> f < stale))
        \<and> (kinds = [] \<or> job_type j \<in> set kinds)"
      using m by (auto simp: claimable_def sql_lt_def split: option.splits)
    ultimately show ?thesis using m row by (auto simp: res t')
  qed
qed

lemma scope_and_project: "scope_and (Some p) q \<longleftrightarrow> q = Some p"
  by (auto simp: scope_and_def)

lemma find_filter: "find P (filter Q xs) = find (\<lambda>x. Q x \<and> P x) xs"
  by (induction xs) auto

lemma find_cong_iff: "(\<And>x. P x = Q x) \<Longrightarrow> find P xs = find Q xs"
  by (induction xs) auto

text \<open>
  A tenant's door is closed on other tenants: cancelling, reading and listing under a project
  scope answer from that project's rows alone, and leave every other row as it was.
\<close>

theorem job_scope_isolation:
  "filter (\<lambda>j. project_id j \<noteq> Some p) (fst (jobs_cancel now (Some p) i t))
       = filter (\<lambda>j. project_id j \<noteq> Some p) t
   \<and> snd (jobs_cancel now (Some p) i t)
       = snd (jobs_cancel now (Some p) i (filter (\<lambda>j. project_id j = Some p) t))
   \<and> jobs_get (Some p) i t = jobs_get None i (filter (\<lambda>j. project_id j = Some p) t)
   \<and> jobs_list (Some p) st n t = jobs_list None st n (filter (\<lambda>j. project_id j = Some p) t)"
proof (intro conjI)
  show "filter (\<lambda>j. project_id j \<noteq> Some p) (fst (jobs_cancel now (Some p) i t))
       = filter (\<lambda>j. project_id j \<noteq> Some p) t"
    by (induction t) (auto simp: jobs_cancel_fst scope_and_project update_where_def)
  show "snd (jobs_cancel now (Some p) i t)
       = snd (jobs_cancel now (Some p) i (filter (\<lambda>j. project_id j = Some p) t))"
  proof -
    have "find (\<lambda>j. job_id j = i \<and> (status j = ''queued'' \<or> status j = ''running'') \<and> project_id j = Some p) t
        = find (\<lambda>j. project_id j = Some p \<and> job_id j = i
            \<and> (status j = ''queued'' \<or> status j = ''running'') \<and> project_id j = Some p) t"
      by (rule find_cong_iff) blast
    then show ?thesis
      by (simp add: jobs_cancel_def jobs_get_def scope_and_project find_filter Let_def
          split: option.splits)
  qed
  show "jobs_get (Some p) i t = jobs_get None i (filter (\<lambda>j. project_id j = Some p) t)"
    by (simp add: jobs_get_def scope_and_project scope_and_def)
  show "jobs_list (Some p) st n t = jobs_list None st n (filter (\<lambda>j. project_id j = Some p) t)"
  proof -
    have "filter (\<lambda>j. (st = None \<or> st = Some (status j)) \<and> project_id j = Some p) t
        = filter (\<lambda>j. (st = None \<or> st = Some (status j))) (filter (\<lambda>j. project_id j = Some p) t)"
      by (simp add: conj_commute)
    then show ?thesis by (simp add: jobs_list_def scope_and_project scope_and_def)
  qed
qed

text \<open>
  A cancel can be lost. When a job that was asked to stop ends with an error and has a retry
  left, the report its worker sends (told of the cancel or not) puts it back on the queue, from which
  any worker of its kind may be handed it again.
\<close>

theorem cancelled_run_can_restart:
  assumes "row_by job_id i t = Some j" and "status j = ''cancelling''" and "claimed_at j = Some f"
    and "failures j + 1 < max_attempts j" and "worker_report j told (Inl e) = (st, res, err)"
  shows "\<exists>r. row_by job_id i (fst (jobs_finish now i st res err (Some f) t)) = Some r
     \<and> snd (jobs_finish now i st res err (Some f) t) = JobFinished
     \<and> status r = ''queued'' \<and> claimable stale [job_type j] r"
proof -
  have st: "st = ''queued''" using assms(4,5) by (simp add: worker_report_def retry_decision_def)
  have j: "j \<in> set t" "job_id j = i" using row_by_Some [OF assms(1)] by auto
  then have "list_ex (\<lambda>j. job_id j = i \<and> \<not> job_is_terminal (status j) \<and> claimed_at j = Some f) t"
    using assms(2,3) by (auto simp: list_ex_iff job_is_terminal_def)
  then show ?thesis using assms(1-3) st
    by (auto simp: jobs_finish_def Let_def claimable_def job_is_terminal_def dest: row_by_Some)
qed

text \<open>
  A failure report is not idempotent. Requeueing keeps the lease stamp, so the same report
  delivered twice is accepted twice and consumes two of the job's chances.
\<close>

theorem duplicate_failure_counts_twice:
  fixes now later :: instant
  assumes "row_by job_id i t = Some j" and "status j = ''running''" and "claimed_at j = Some f"
    and "failures j + 1 < max_attempts j" and "worker_report j told (Inl e) = (st, res, err)"
  defines "t1 \<equiv> fst (jobs_finish now i st res err (Some f) t)"
  shows "snd (jobs_finish later i st res err (Some f) t1) = JobFinished
     \<and> (\<exists>r. row_by job_id i (fst (jobs_finish later i st res err (Some f) t1)) = Some r
           \<and> failures r = failures j + 2)"
proof -
  have st: "st = ''queued''" and err: "err \<noteq> None"
    using assms(4,5) by (auto simp: worker_report_def retry_decision_def)
  have t1: "row_by job_id i t1 = Some (j\<lparr>status := st, result := res, error := err,
      updated_at := now, failures := failures j + 1\<rparr>)" (is "_ = Some ?j1")
    unfolding t1_def jobs_finish_fst using assms(1-3) err
    by (auto simp: job_is_terminal_def dest: row_by_Some)
  then have "?j1 \<in> set t1" "job_id ?j1 = i" by (auto dest: row_by_Some)
  then have "list_ex (\<lambda>j. job_id j = i \<and> \<not> job_is_terminal (status j) \<and> claimed_at j = Some f) t1"
    unfolding list_ex_iff using assms(3) st
    by (intro bexI [of _ ?j1]) (simp_all add: job_is_terminal_def)
  then show ?thesis using t1 st err assms(3)
    by (auto simp: jobs_finish_def Let_def job_is_terminal_def dest: row_by_Some)
qed

section \<open>Reachable queues\<close>

text \<open>The steps of a deployment: workers finish with a status of \<open>worker_report\<close> or requeue.\<close>

inductive job_step :: "instant \<Rightarrow> 'v jobs \<Rightarrow> 'v jobs \<Rightarrow> bool" where
  step_enqueue: "jobs_create (enqueue_row now i project kind pl) t = Some t' \<Longrightarrow> job_step now t t'"
| step_cancel: "t' = fst (jobs_cancel now project i t) \<Longrightarrow> job_step now t t'"
| step_claim: "api_claim now stale_secs kinds t = Inr (t', res) \<Longrightarrow> job_step now t t'"
| step_progress: "t' = jobs_update_progress now i p t \<Longrightarrow> job_step now t t'"
| step_renew: "t' = fst (jobs_renew_lease now i f t) \<Longrightarrow> job_step now t t'"
| step_finish: "st \<in> {''queued'', ''done'', ''failed'', ''cancelled''} \<Longrightarrow>
    t' = fst (jobs_finish now i st res err fo t) \<Longrightarrow> job_step now t t'"

inductive job_reach :: "instant \<Rightarrow> 'v jobs \<Rightarrow> bool" where
  reach_empty: "job_reach now []"
| reach_step: "job_reach now t \<Longrightarrow> now \<le> later \<Longrightarrow> job_step later t t' \<Longrightarrow> job_reach later t'"

definition job_row_ok :: "instant \<Rightarrow> 'v job \<Rightarrow> bool" where
  "job_row_ok now j \<longleftrightarrow> job_kind_of j \<noteq> None
     \<and> status j \<in> {''queued'', ''running'', ''cancelling'', ''cancelled'', ''done'', ''failed''}
     \<and> (status j \<in> {''running'', ''cancelling''} \<longrightarrow> claimed_at j \<noteq> None)
     \<and> (claimed_at j = None \<longleftrightarrow> attempts j = 0) \<and> stale_reclaims j \<le> attempts j
     \<and> (\<forall>f. claimed_at j = Some f \<longrightarrow> created_at j \<le> f \<and> f \<le> now)
     \<and> created_at j \<le> updated_at j \<and> updated_at j \<le> now"

abbreviation jobs_ok :: "instant \<Rightarrow> 'v jobs \<Rightarrow> bool" where
  "jobs_ok now t \<equiv> \<forall>j \<in> set t. job_row_ok now j"

lemma job_row_ok_later: "job_row_ok now j \<Longrightarrow> now \<le> later \<Longrightarrow> job_row_ok later j"
  by (auto simp: job_row_ok_def)

lemma jobs_ok_update:
  "jobs_ok now t \<Longrightarrow> (\<And>j. job_row_ok now j \<Longrightarrow> p j \<Longrightarrow> job_row_ok now (f j))
     \<Longrightarrow> jobs_ok now (update_where p f t)"
  by (auto simp: set_update_where)

lemma job_created_le: "job_row_ok now j \<Longrightarrow> created_at j \<le> now"
  by (auto simp: job_row_ok_def)

lemma jobs_ok_settle: "jobs_ok now t \<Longrightarrow> jobs_ok now (settle_orphans now stale t)"
  unfolding settle_orphans_def
  by (rule jobs_ok_update) (auto simp: job_row_ok_def job_kind_of_def)

lemma jobs_ok_claim:
  assumes "jobs_ok now t"
  shows "jobs_ok now (fst (jobs_claim now stale kinds t))"
proof -
  have take: "job_row_ok now (take_job now j)" if "job_row_ok now j" for j :: "'v job"
    using that by (auto simp: job_row_ok_def take_job_def job_kind_of_def)
  show ?thesis
    using jobs_ok_settle [OF assms, of stale] take
    by (auto simp: jobs_claim_fst set_update_where split: option.splits)
qed

lemma job_step_ok:
  assumes "job_step now t t'" and "jobs_ok now t"
  shows "jobs_ok now t'"
  using assms
proof (cases rule: job_step.cases)
  case (step_enqueue i project kind pl)
  moreover have "job_kind_from_wire (job_kind_as_str kind) = Some kind" by (rule jk.parse_literal)
  ultimately show ?thesis using assms(2)
    by (auto simp: jobs_create_def enqueue_row_def job_row_ok_def job_kind_of_def split: if_splits)
next
  case (step_cancel project i)
  show ?thesis unfolding step_cancel(1) jobs_cancel_fst using assms(2)
    by (rule jobs_ok_update) (auto simp: job_row_ok_def job_kind_of_def)
next
  case (step_claim stale_secs kinds res)
  then have "t' = fst (jobs_claim now (api_stale_before now stale_secs) kinds t)"
    by (auto simp: api_claim_def split: option.splits)
  then show ?thesis using jobs_ok_claim [OF assms(2)] by simp
next
  case (step_progress i p)
  show ?thesis unfolding step_progress(1) jobs_update_progress_def using assms(2)
    by (rule jobs_ok_update) (auto simp: job_row_ok_def job_kind_of_def)
next
  case (step_renew i f)
  show ?thesis unfolding step_renew(1) jobs_renew_fst using assms(2)
    by (rule jobs_ok_update) (auto simp: job_row_ok_def job_kind_of_def)
next
  case (step_finish st i res err fo)
  show ?thesis unfolding step_finish(2) jobs_finish_fst using assms(2)
    by (rule jobs_ok_update) (use step_finish(1) in \<open>auto simp: job_row_ok_def job_kind_of_def\<close>)
qed

lemma job_step_wf: "job_step now t t' \<Longrightarrow> jobs_wf t \<Longrightarrow> jobs_wf t'"
proof (induction rule: job_step.induct)
  case (step_enqueue now i project kind pl t t')
  then show ?case by (fastforce simp: jobs_wf_def jobs_create_def row_by_None split: if_splits)
next
  case (step_claim now stale_secs kinds t t' res)
  then have "t' = fst (jobs_claim now (api_stale_before now stale_secs) kinds t)"
    by (auto simp: api_claim_def split: option.splits)
  with step_claim show ?case by (simp add: jobs_wf_def)
qed (simp_all add: jobs_wf_def)


section \<open>A job's story\<close>

text \<open>One job is enqueued, claimed, cancelled while it runs, and its worker fails.\<close>

definition demo_job :: "unit job" where
  "demo_job = \<lparr>job_id = ''j'', job_type = ''bench_run'', payload = None, status = ''cancelling'',
     project_id = Some ''p'', attempts = 1, failures = 0, stale_reclaims = 0, max_attempts = 3,
     progress = None, error = None, result = None, claimed_at = Some 5, created_at = 0,
     updated_at = 7\<rparr>"

abbreviation demo_running :: "unit job" where
  "demo_running \<equiv> demo_job\<lparr>status := ''running''\<rparr>"

lemma demo_job_simps [simp]:
  "job_id demo_job = ''j''" "status demo_job = ''cancelling''" "claimed_at demo_job = Some 5"
  "failures demo_job = 0" "max_attempts demo_job = 3" "job_type demo_job = ''bench_run''"
  "created_at demo_job = 0"
  by (simp_all add: demo_job_def)

lemma demo_wf: "jobs_wf [demo_job]" "jobs_wf [demo_running]"
  by (simp_all add: jobs_wf_def)


theorem job_verdict_is_final_witness:
  "\<exists>r. row_by job_id ''j'' (jq.history [OtherStep 9 (Claim 8 [])] [demo_job\<lparr>status := ''done''\<rparr>]) = Some r
     \<and> job_is_terminal (status r) \<and> job_verdict r = (''done'', None, None, 0)"
  using job_verdict_is_final [of "[demo_job\<lparr>status := ''done''\<rparr>]" "''j''"
      "demo_job\<lparr>status := ''done''\<rparr>" "[OtherStep 9 (Claim 8 [])]"]
  by (simp add: jobs_wf_def row_by_Cons job_is_terminal_def job_verdict_def)
    (simp add: demo_job_def)

lemma demo_claim: "jobs_claim 20 10 [] [demo_running] = ([take_job 20 demo_running], Some (take_job 20 demo_running))"
  by (simp add: jobs_claim_def settle_orphans_def claimable_def row_by_Cons table_simps)

theorem claim_hands_out_oldest_witness:
  "\<exists>j. claimable 10 [] j \<and> row_by job_id (job_id j) [take_job 20 demo_running] = Some (take_job 20 j)"
proof -
  obtain j where j: "claimable 10 [] j" "take_job 20 demo_running = take_job 20 j"
      "row_by job_id (job_id j) [take_job 20 demo_running] = Some (take_job 20 demo_running)"
    using claim_hands_out_oldest [OF demo_wf(2) demo_claim]
    unfolding option.case by (elim bexE conjE)
  have "row_by job_id (job_id j) [take_job 20 demo_running] = Some (take_job 20 j)"
    using j(3) unfolding j(2) .
  with j(1) show ?thesis by (intro exI conjI)
qed

lemma demo_report: "worker_report demo_job True (Inl ''boom'')
    = (''queued'', None, Some (JOB_ERROR_PREFIX_FAILURE @ ''boom''))"
    "worker_report demo_running True (Inl ''boom'')
    = (''queued'', None, Some (JOB_ERROR_PREFIX_FAILURE @ ''boom''))"
  by (simp_all add: worker_report_def retry_decision_def)

theorem cancelled_run_can_restart_witness:
  "\<exists>r. row_by job_id ''j'' (fst (jobs_finish 9 ''j'' ''queued'' None
        (Some (JOB_ERROR_PREFIX_FAILURE @ ''boom'')) (Some 5) [demo_job])) = Some r
     \<and> status r = ''queued'' \<and> claimable 0 [''bench_run''] r"
  using cancelled_run_can_restart [OF _ _ _ _ demo_report(1), of "''j''" "[demo_job]" 5 9 0]
  by (auto simp: row_by_Cons)

theorem duplicate_failure_counts_twice_witness:
  "\<exists>r. row_by job_id ''j'' (fst (jobs_finish 11 ''j'' ''queued'' None
        (Some (JOB_ERROR_PREFIX_FAILURE @ ''boom'')) (Some 5)
        (fst (jobs_finish 9 ''j'' ''queued'' None
        (Some (JOB_ERROR_PREFIX_FAILURE @ ''boom'')) (Some 5) [demo_running])))) = Some r
     \<and> failures r = 2"
  using duplicate_failure_counts_twice [OF _ _ _ _ demo_report(2), of "''j''" "[demo_running]" 5 11 9]
  by (auto simp: row_by_Cons)


end
