(* ===== verification/RelayQueue.thy ===== *)
theory RelayQueue
  imports Leases ProviderModel
begin

text \<open>
  The cloud-to-device relay: \<^verbatim>\<open>crates/core/src/relay.rs\<close>, \<^verbatim>\<open>relay_verdict.rs\<close> and
  \<^verbatim>\<open>device.rs\<close>; the statements of \<^verbatim>\<open>crates/store/src/sqlite/relay.rs\<close>,
  \<^verbatim>\<open>relay_lease.rs\<close> and the capability filter of \<^verbatim>\<open>devices.rs\<close>; and the lease and
  enqueue doors of \<^verbatim>\<open>crates/api/src\<close>. The fence and the deadline are separate columns here:
  renewal moves the deadline and never the fence.
\<close>

section \<open>Statuses\<close>

datatype relay_status = Queued | Leased | Succeeded | Dead | Cancelling | Cancelled

definition RelayStatus_ALL :: "relay_status list" where
  "RelayStatus_ALL = [Queued, Leased, Succeeded, Dead, Cancelling, Cancelled]"

fun relay_status_as_str :: "relay_status \<Rightarrow> string" where
  "relay_status_as_str Queued = ''queued''"
| "relay_status_as_str Leased = ''leased''"
| "relay_status_as_str Succeeded = ''succeeded''"
| "relay_status_as_str Dead = ''dead''"
| "relay_status_as_str Cancelling = ''cancelling''"
| "relay_status_as_str Cancelled = ''cancelled''"

definition relay_status_is_terminal :: "relay_status \<Rightarrow> bool" where
  "relay_status_is_terminal s \<longleftrightarrow> s = Succeeded \<or> s = Dead \<or> s = Cancelled"

definition relay_status_from_wire :: "string \<Rightarrow> relay_status option" where
  "relay_status_from_wire s = find (\<lambda>v. relay_status_as_str v = s) RelayStatus_ALL"

interpretation rs: closed_vocabulary RelayStatus_ALL relay_status_as_str relay_status_from_wire
proof
  show "relay_status_from_wire s = wire_search RelayStatus_ALL relay_status_as_str s" for s
    by (simp add: relay_status_from_wire_def wire_search_def)
  show "v \<in> set RelayStatus_ALL" for v by (cases v) (simp_all add: RelayStatus_ALL_def)
  show "distinct (map relay_status_as_str RelayStatus_ALL)" by (simp add: RelayStatus_ALL_def)
qed

definition RELAY_DEFAULT_MAX_ATTEMPTS :: nat where "RELAY_DEFAULT_MAX_ATTEMPTS = 4"
definition RELAY_DEFAULT_RETRY_INTERVAL_SECS :: nat where "RELAY_DEFAULT_RETRY_INTERVAL_SECS = 18000"
definition RELAY_MAX_STALE_RECLAIMS :: nat where "RELAY_MAX_STALE_RECLAIMS = 3"

definition RELAY_ERROR_DEVICE_LOST :: string where
  "RELAY_ERROR_DEVICE_LOST = ''device lost: the device holding this task did not renew its lease before the deadline (crashed, killed, or offline) - this is not an action failure''"

section \<open>The row\<close>

record 'v relay_task =
  rt_id :: string
  rt_project_id :: string
  rt_source :: "string option"
  rt_action_type :: string
  rt_payload :: "'v option"
  rt_status :: string
  rt_attempts :: nat
  rt_failures :: nat
  rt_stale_reclaims :: nat
  rt_lease_fence :: "instant option"
  rt_progress :: "string option"
  rt_max_attempts :: nat
  rt_retry_interval_secs :: nat
  rt_idempotency_key :: "string option"
  rt_device :: "string option"
  rt_lease_deadline :: "instant option"
  rt_next_attempt_at :: instant
  rt_result :: "'v option"
  rt_error :: "string option"
  rt_created_at :: instant
  rt_updated_at :: instant

type_synonym 'v relay = "'v relay_task list"

datatype 'v relay_outcome =
    OutSucceeded "'v option"
  | OutFailed string
  | OutDeferred "nat option" "string option"

datatype 'v relay_settle =
    Settled "'v relay_task"
  | SettleNotHeld string "instant option"
  | NoSuchTask

datatype relay_cancel = RelayCancelled | RelayCancelling | RelayAlreadyFinished string

section \<open>What a device can run\<close>

text \<open>\<open>strip_suffix_star\<close> is \<^verbatim>\<open>strip_suffix("/*")\<close>.\<close>

definition strip_suffix_star :: "string \<Rightarrow> string option" where
  "strip_suffix_star c =
     (if 2 \<le> length c \<and> drop (length c - 2) c = ''/*'' then Some (take (length c - 2) c) else None)"

definition capability_matches :: "string list \<Rightarrow> string \<Rightarrow> bool" where
  "capability_matches capabilities action_type \<longleftrightarrow>
     (if capabilities = [] then True
      else list_ex (\<lambda>c0. let c = str_trim c0 in
        if c = ''*'' then True
        else case strip_suffix_star c of
          Some ns \<Rightarrow> starts_with action_type ns
            \<and> starts_with (drop (length ns) action_type) ''/''
        | None \<Rightarrow> c = action_type) capabilities)"

text \<open>
  The \<^verbatim>\<open>WHERE\<close> fragment: unfiltered, or the disjunction of its parts, each
  \<^verbatim>\<open>substr(action_type, 1, n) = prefix\<close> or \<^verbatim>\<open>action_type = value\<close>.
\<close>

datatype cap_clause = CapPrefix string | CapExact string

fun cap_parts :: "string list \<Rightarrow> cap_clause list" where
  "cap_parts [] = []"
| "cap_parts (c0 # cs) =
     (let c = str_trim c0 in
      if c = [] then cap_parts cs
      else (case strip_suffix_star c of
              Some ns \<Rightarrow> CapPrefix (ns @ ''/'') | None \<Rightarrow> CapExact c) # cap_parts cs)"

definition capability_filter :: "string list \<Rightarrow> cap_clause list option" where
  "capability_filter capabilities =
     (if capabilities = [] \<or> list_ex (\<lambda>c. str_trim c = ''*'') capabilities then None
      else let parts = cap_parts capabilities in if parts = [] then None else Some parts)"

fun cap_clause_holds :: "string \<Rightarrow> cap_clause \<Rightarrow> bool" where
  "cap_clause_holds action_type (CapPrefix p) \<longleftrightarrow> take (length p) action_type = p"
| "cap_clause_holds action_type (CapExact v) \<longleftrightarrow> action_type = v"

definition capability_selects :: "string list \<Rightarrow> string \<Rightarrow> bool" where
  "capability_selects capabilities action_type \<longleftrightarrow>
     (case capability_filter capabilities of
        None \<Rightarrow> True
      | Some parts \<Rightarrow> list_ex (cap_clause_holds action_type) parts)"

record device =
  dev_id :: string
  dev_project_id :: "string option"
  dev_capabilities :: "string list"
  dev_last_seen_at :: "instant option"
  dev_agent_version :: "string option"
  dev_revoked :: bool

definition device_serves :: "device \<Rightarrow> string \<Rightarrow> bool" where
  "device_serves d action_type \<longleftrightarrow>
     \<not> dev_revoked d \<and> capability_matches (dev_capabilities d) action_type"

record eligibility =
  enrolled :: nat
  eligible :: nat

definition eligibility_count :: "device list \<Rightarrow> string \<Rightarrow> eligibility" where
  "eligibility_count devices action_type = fold (\<lambda>d e.
     if dev_revoked d then e
     else e\<lparr>enrolled := enrolled e + 1,
            eligible := eligible e + (if device_serves d action_type then 1 else 0)\<rparr>)
     devices \<lparr>enrolled = 0, eligible = 0\<rparr>"

datatype relay_admission = AdmQueued nat | AdmRefused string nat

definition eligibility_admit :: "eligibility \<Rightarrow> string \<Rightarrow> relay_admission" where
  "eligibility_admit e action_type =
     (if 0 < eligible e \<or> enrolled e = 0 then AdmQueued (eligible e)
      else AdmRefused action_type (enrolled e))"

section \<open>The statements of the queue\<close>

text \<open>The primary key and the unique index on \<open>(project_id, idempotency_key)\<close> refuse an insert.\<close>

definition relay_create :: "'v relay_task \<Rightarrow> 'v relay \<Rightarrow> 'v relay option" where
  "relay_create r t =
     (if row_by rt_id (rt_id r) t = None
         \<and> \<not> (\<exists>q \<in> set t. rt_idempotency_key r \<noteq> None \<and> rt_project_id q = rt_project_id r
               \<and> rt_idempotency_key q = rt_idempotency_key r)
      then Some (t @ [r]) else None)"

definition relay_get :: "string option \<Rightarrow> string \<Rightarrow> 'v relay \<Rightarrow> 'v relay_task option" where
  "relay_get project i t =
     row_by rt_id i (filter (\<lambda>r. scope_and project (Some (rt_project_id r))) t)"

definition relay_find_by_key :: "string \<Rightarrow> string \<Rightarrow> 'v relay \<Rightarrow> 'v relay_task option" where
  "relay_find_by_key project key t =
     find (\<lambda>r. rt_project_id r = project \<and> sql_eq (rt_idempotency_key r) key) t"

definition relay_list_where :: "string option \<Rightarrow> string option \<Rightarrow> string option \<Rightarrow> nat \<Rightarrow> 'v relay
    \<Rightarrow> 'v relay" where
  "relay_list_where project action_type st limit t =
     take limit (sort_key (\<lambda>r. - rt_created_at r) (filter (\<lambda>r.
       (project = None \<or> project = Some (rt_project_id r)) \<and> (st = None \<or> st = Some (rt_status r))
       \<and> (action_type = None \<or> action_type = Some (rt_action_type r))) t))"

definition relay_exhausted :: "'v relay_task \<Rightarrow> bool" where
  "relay_exhausted r \<longleftrightarrow>
     rt_max_attempts r \<le> rt_failures r \<or> RELAY_MAX_STALE_RECLAIMS \<le> rt_stale_reclaims r"

definition relay_sweepable :: "instant \<Rightarrow> 'v relay_task \<Rightarrow> bool" where
  "relay_sweepable now r \<longleftrightarrow>
     rt_status r = ''leased'' \<and> sql_lt (rt_lease_deadline r) now \<and> relay_exhausted r"

definition relay_bury :: "instant \<Rightarrow> 'v relay_task \<Rightarrow> 'v relay_task" where
  "relay_bury now r = r\<lparr>rt_status := ''dead'',
     rt_error := (case rt_error r of Some e \<Rightarrow> Some e | None \<Rightarrow> Some RELAY_ERROR_DEVICE_LOST),
     rt_lease_deadline := None, rt_lease_fence := None, rt_updated_at := now\<rparr>"

definition relay_sweep_dead :: "instant \<Rightarrow> 'v relay \<Rightarrow> 'v relay \<times> 'v relay" where
  "relay_sweep_dead now t =
     (update_where (relay_sweepable now) (relay_bury now) t,
      map (relay_bury now) (filter (relay_sweepable now) t))"

definition relay_leasable :: "instant \<Rightarrow> string list \<Rightarrow> 'v relay_task \<Rightarrow> bool" where
  "relay_leasable now capabilities r \<longleftrightarrow>
     ((rt_status r = ''queued'' \<and> rt_next_attempt_at r \<le> now)
      \<or> (rt_status r = ''leased'' \<and> sql_lt (rt_lease_deadline r) now \<and> \<not> relay_exhausted r))
     \<and> capability_selects capabilities (rt_action_type r)"

definition relay_take :: "instant \<Rightarrow> string \<Rightarrow> int \<Rightarrow> 'v relay_task \<Rightarrow> 'v relay_task" where
  "relay_take now device lease_secs r = r\<lparr>rt_status := ''leased'', rt_device := Some device,
     rt_lease_deadline := Some (now + chrono_secs (max lease_secs 0)), rt_lease_fence := Some now,
     rt_attempts := rt_attempts r + 1, rt_progress := None,
     rt_stale_reclaims := rt_stale_reclaims r + (if rt_status r = ''leased'' then 1 else 0),
     rt_error := (if rt_status r = ''leased'' then Some RELAY_ERROR_DEVICE_LOST else rt_error r),
     rt_updated_at := now\<rparr>"

definition relay_lease :: "instant \<Rightarrow> string \<Rightarrow> string list \<Rightarrow> int \<Rightarrow> nat \<Rightarrow> 'v relay
    \<Rightarrow> 'v relay \<times> 'v relay" where
  "relay_lease now device capabilities lease_secs limit t =
     (let ids = map rt_id (take limit
            (sort_key rt_created_at (filter (relay_leasable now capabilities) t)));
          hit = (\<lambda>r. rt_id r \<in> set ids)
      in (update_where hit (relay_take now device lease_secs) t,
          map (relay_take now device lease_secs) (filter hit t)))"

definition is_live_lease :: "string \<Rightarrow> bool" where
  "is_live_lease st \<longleftrightarrow> st = ''leased'' \<or> st = ''cancelling''"

definition relay_held :: "instant option \<Rightarrow> string \<Rightarrow> lease_held" where
  "relay_held deadline st =
     (if st = ''cancelling'' then lease_held_cancelling deadline else lease_held_plain deadline)"

definition relay_not_held :: "string \<Rightarrow> 'v relay \<Rightarrow> lease_held" where
  "relay_not_held i t = (case relay_get None i t of
     Some r \<Rightarrow> NotHeld (rt_status r) (rt_lease_fence r) | None \<Rightarrow> NoSuchRecord)"

definition holder_row :: "string \<Rightarrow> instant \<Rightarrow> 'v relay_task \<Rightarrow> bool" where
  "holder_row i fence r \<longleftrightarrow>
     rt_id r = i \<and> sql_eq (rt_lease_fence r) fence \<and> is_live_lease (rt_status r)"

definition relay_renew :: "instant \<Rightarrow> string \<Rightarrow> instant \<Rightarrow> int \<Rightarrow> 'v relay \<Rightarrow> 'v relay \<times> lease_held" where
  "relay_renew now i fence lease_secs t =
     (let deadline = now + chrono_secs (max lease_secs 0);
          t' = update_where (holder_row i fence)
                 (\<lambda>r. r\<lparr>rt_lease_deadline := Some deadline, rt_updated_at := now\<rparr>) t
      in case find (holder_row i fence) t of
           Some r \<Rightarrow> (t', relay_held (Some deadline) (rt_status r))
         | None \<Rightarrow> (t', relay_not_held i t'))"

definition relay_update_progress :: "instant \<Rightarrow> string \<Rightarrow> instant \<Rightarrow> string \<Rightarrow> 'v relay
    \<Rightarrow> 'v relay \<times> lease_held" where
  "relay_update_progress now i fence p t =
     (let t' = update_where (holder_row i fence)
                 (\<lambda>r. r\<lparr>rt_progress := Some p, rt_updated_at := now\<rparr>) t
      in case find (holder_row i fence) t of
           Some r \<Rightarrow> (t', relay_held None (rt_status r))
         | None \<Rightarrow> (t', relay_not_held i t'))"

definition relay_cancel_task :: "instant \<Rightarrow> string option \<Rightarrow> string \<Rightarrow> 'v relay
    \<Rightarrow> 'v relay \<times> relay_cancel option" where
  "relay_cancel_task now project i t =
     (let hit = (\<lambda>r. rt_id r = i \<and> (rt_status r = ''queued'' \<or> rt_status r = ''leased'')
            \<and> scope_and project (Some (rt_project_id r)));
          t' = update_where hit (\<lambda>r. r\<lparr>rt_status := (if rt_status r = ''queued'' then ''cancelled''
                  else ''cancelling''), rt_updated_at := now\<rparr>) t
      in case find hit t of
           Some r \<Rightarrow> (t', Some (if rt_status r = ''queued'' then RelayCancelled else RelayCancelling))
         | None \<Rightarrow> (t', map_option (\<lambda>r. RelayAlreadyFinished (rt_status r)) (relay_get project i t)))"

text \<open>The row a settle writes, given what the row held.\<close>

definition settle_row :: "instant \<Rightarrow> 'v relay_outcome \<Rightarrow> 'v relay_task \<Rightarrow> 'v relay_task" where
  "settle_row now outcome task =
     (let cancelling = rt_status task = ''cancelling'' in
      case outcome of
        OutSucceeded res \<Rightarrow> task\<lparr>
          rt_status := (if cancelling then ''cancelled'' else ''succeeded''), rt_result := res,
          rt_error := None, rt_lease_deadline := None, rt_lease_fence := None, rt_updated_at := now\<rparr>
      | OutFailed err \<Rightarrow>
          (let failures = rt_failures task + (if cancelling then 0 else 1);
               (st, next_at) =
                 (if cancelling then (''cancelled'', rt_next_attempt_at task)
                  else if rt_max_attempts task \<le> failures then (''dead'', rt_next_attempt_at task)
                  else (''queued'', now + chrono_secs (int (rt_retry_interval_secs task))))
           in task\<lparr>rt_status := st, rt_error := Some err, rt_next_attempt_at := next_at,
                rt_failures := failures, rt_lease_deadline := None, rt_lease_fence := None,
                rt_updated_at := now\<rparr>)
      | OutDeferred retry_after reason \<Rightarrow>
          (let attempts = rt_attempts task - 1;
               delay = (case retry_after of Some d \<Rightarrow> d | None \<Rightarrow> rt_retry_interval_secs task)
           in task\<lparr>rt_status := (if cancelling then ''cancelled'' else ''queued''),
                rt_attempts := attempts,
                rt_error := (case reason of Some e \<Rightarrow> Some e | None \<Rightarrow> rt_error task),
                rt_next_attempt_at := now + chrono_secs (int delay),
                rt_lease_deadline := None, rt_lease_fence := None, rt_updated_at := now\<rparr>))"

definition relay_settle_task :: "instant \<Rightarrow> string \<Rightarrow> instant option \<Rightarrow> 'v relay_outcome \<Rightarrow> 'v relay
    \<Rightarrow> 'v relay \<times> 'v relay_settle" where
  "relay_settle_task now i fence outcome t =
     (case relay_get None i t of
        None \<Rightarrow> (t, NoSuchTask)
      | Some task \<Rightarrow>
          if is_live_lease (rt_status task)
             \<and> (case fence of None \<Rightarrow> True | Some f \<Rightarrow> rt_lease_fence task = Some f)
          then (let t' = update_where (\<lambda>r. rt_id r = i) (\<lambda>_. settle_row now outcome task) t
                in (t', case relay_get None i t' of Some r \<Rightarrow> Settled r | None \<Rightarrow> NoSuchTask))
          else (t, SettleNotHeld (rt_status task) (rt_lease_fence task)))"

section \<open>The doors\<close>

definition MIN_LEASE_SECS :: int where "MIN_LEASE_SECS = 60"
definition MAX_LEASE_SECS :: int where "MAX_LEASE_SECS = 1800"
definition default_lease_secs :: int where "default_lease_secs = 600"

definition renew_secs :: "int \<Rightarrow> nat" where
  "renew_secs lease_secs = max (nat (max lease_secs 3) div 3) 1"

datatype device_identity = Enrolled device | Legacy

definition LEGACY_DEVICE_NAME :: string where "LEGACY_DEVICE_NAME = ''default''"

definition task_device :: "device_identity \<Rightarrow> string" where
  "task_device ident = (case ident of Enrolled d \<Rightarrow> dev_id d | Legacy \<Rightarrow> LEGACY_DEVICE_NAME)"

text \<open>One round of the lease door's loop: sweep, then lease, with what the response says.\<close>

definition api_lease :: "instant \<Rightarrow> device_identity \<Rightarrow> string list \<Rightarrow> int \<Rightarrow> nat \<Rightarrow> 'v relay
    \<Rightarrow> 'v relay \<times> 'v relay \<times> nat \<times> int" where
  "api_lease now ident capabilities req_lease_secs req_max t =
     (let lease_secs = min (max req_lease_secs MIN_LEASE_SECS) MAX_LEASE_SECS;
          limit = min (max req_max 1) 20;
          (t, dead) = relay_sweep_dead now t;
          (t, tasks) = relay_lease now (task_device ident) capabilities lease_secs limit t
      in (t, tasks, renew_secs lease_secs, lease_secs))"

definition api_renew :: "instant \<Rightarrow> string \<Rightarrow> instant \<Rightarrow> 'v relay \<Rightarrow> 'v relay \<times> lease_held" where
  "api_renew now i fence t = relay_renew now i fence (min MAX_LEASE_SECS default_lease_secs) t"

definition relay_row :: "instant \<Rightarrow> string \<Rightarrow> string \<Rightarrow> string option \<Rightarrow> string \<Rightarrow> 'v option
    \<Rightarrow> string option \<Rightarrow> nat option \<Rightarrow> nat option \<Rightarrow> 'v relay_task" where
  "relay_row now i project source action pl key max_attempts retry_interval =
     \<lparr>rt_id = i, rt_project_id = project, rt_source = source, rt_action_type = action,
      rt_payload = pl, rt_status = relay_status_as_str Queued, rt_attempts = 0, rt_failures = 0,
      rt_stale_reclaims = 0, rt_lease_fence = None, rt_progress = None,
      rt_max_attempts = max (case max_attempts of Some n \<Rightarrow> n | None \<Rightarrow> RELAY_DEFAULT_MAX_ATTEMPTS) 1,
      rt_retry_interval_secs = max (case retry_interval of Some n \<Rightarrow> n
        | None \<Rightarrow> RELAY_DEFAULT_RETRY_INTERVAL_SECS) 1,
      rt_idempotency_key = key, rt_device = None, rt_lease_deadline = None,
      rt_next_attempt_at = now, rt_result = None, rt_error = None, rt_created_at = now,
      rt_updated_at = now\<rparr>"

datatype 'v relay_reply =
    EnqBadRequest
  | EnqConflict string
  | EnqReplayed "'v relay_task" relay_admission
  | EnqRefused string nat
  | EnqRateLimited
  | EnqAccepted "'v relay_task" relay_admission
  | EnqFailed

text \<open>
  \<open>budget_ok\<close> is whether \<open>budget_allows\<close> lets the project spend. A replay asks neither the fleet
  nor the budget for permission.
\<close>

definition api_enqueue :: "instant \<Rightarrow> string \<Rightarrow> device list \<Rightarrow> bool \<Rightarrow> string \<Rightarrow> string option \<Rightarrow> string
    \<Rightarrow> 'v option \<Rightarrow> string option \<Rightarrow> nat option \<Rightarrow> nat option \<Rightarrow> 'v relay
    \<Rightarrow> 'v relay \<times> 'v relay_reply" where
  "api_enqueue now i devices budget_ok project source action0 pl key max_attempts retry_interval t =
     (let action = str_trim action0; adm = (\<lambda>a. eligibility_admit (eligibility_count devices a) a) in
      if action = [] then (t, EnqBadRequest)
      else case (case key of Some k \<Rightarrow> relay_find_by_key project k t | None \<Rightarrow> None) of
        Some existing \<Rightarrow>
          if rt_action_type existing \<noteq> action \<or> rt_payload existing \<noteq> pl
          then (t, EnqConflict (rt_action_type existing))
          else (t, EnqReplayed existing (adm (rt_action_type existing)))
      | None \<Rightarrow>
          (case adm action of
             AdmRefused a n \<Rightarrow> (t, EnqRefused a n)
           | AdmQueued n \<Rightarrow>
               if \<not> budget_ok then (t, EnqRateLimited)
               else
                 let r = relay_row now i project source action pl key max_attempts retry_interval
                 in (case relay_create r t of
                       Some t' \<Rightarrow> (t', EnqAccepted r (AdmQueued n))
                     | None \<Rightarrow> (t, EnqFailed))))"

section \<open>One update at a time\<close>

lemma relay_get_operator [simp]: "relay_get None i t = row_by rt_id i t"
  by (simp add: relay_get_def scope_and_def)

lemma relay_pick [simp]:
  assumes "\<And>r :: 'v relay_task. rt_id (f r) = rt_id r"
  shows "row_by rt_id k (update_where p f t)
       = map_option (\<lambda>r. if p r then f r else r) (row_by rt_id k t)"
  by (rule row_by_update_where) (rule assms)

lemma relay_writes_id [simp]:
  "rt_id (relay_bury now r) = rt_id r" "rt_id (relay_take now d s r) = rt_id r"
  "rt_id (settle_row now oc r) = rt_id r"
  by (simp_all add: relay_bury_def relay_take_def settle_row_def Let_def split: relay_outcome.splits)

definition relay_wf :: "'v relay \<Rightarrow> bool" where
  "relay_wf t \<longleftrightarrow> distinct (map rt_id t)"

lemma relay_renew_fst:
  "fst (relay_renew now i fence s t) = update_where (holder_row i fence)
     (\<lambda>r. r\<lparr>rt_lease_deadline := Some (now + chrono_secs (max s 0)), rt_updated_at := now\<rparr>) t"
  by (simp add: relay_renew_def Let_def split: option.splits)

lemma relay_update_progress_fst:
  "fst (relay_update_progress now i fence p t) = update_where (holder_row i fence)
     (\<lambda>r. r\<lparr>rt_progress := Some p, rt_updated_at := now\<rparr>) t"
  by (simp add: relay_update_progress_def Let_def split: option.splits)

lemma relay_cancel_fst:
  "fst (relay_cancel_task now project i t) =
     update_where (\<lambda>r. rt_id r = i \<and> (rt_status r = ''queued'' \<or> rt_status r = ''leased'')
            \<and> scope_and project (Some (rt_project_id r)))
       (\<lambda>r. r\<lparr>rt_status := (if rt_status r = ''queued'' then ''cancelled'' else ''cancelling''),
            rt_updated_at := now\<rparr>) t"
  by (simp add: relay_cancel_task_def Let_def split: option.splits)

text \<open>With unique ids, a settle rewrites the one row it read.\<close>

definition settle_accepts :: "instant option \<Rightarrow> 'v relay_task \<Rightarrow> bool" where
  "settle_accepts fence r \<longleftrightarrow> is_live_lease (rt_status r)
     \<and> (case fence of None \<Rightarrow> True | Some f \<Rightarrow> rt_lease_fence r = Some f)"

lemma relay_settle_fst:
  assumes "relay_wf t"
  shows "fst (relay_settle_task now i fence oc t)
     = update_where (\<lambda>r. rt_id r = i \<and> settle_accepts fence r) (settle_row now oc) t"
proof (cases "row_by rt_id i t")
  case None
  then have "update_where (\<lambda>r. rt_id r = i \<and> settle_accepts fence r) (settle_row now oc) t = t"
    by (intro update_where_none) (auto simp: row_by_None)
  with None show ?thesis by (simp add: relay_settle_task_def)
next
  case (Some task)
  have only: "r = task" if "r \<in> set t" "rt_id r = i" for r
    using row_by_distinct [of rt_id t r] assms that Some by (auto simp: relay_wf_def)
  show ?thesis
  proof (cases "settle_accepts fence task")
    case True
    have "update_where (\<lambda>r. rt_id r = i) (\<lambda>_. settle_row now oc task) t
        = update_where (\<lambda>r. rt_id r = i \<and> settle_accepts fence r) (settle_row now oc) t"
      unfolding update_where_def by (rule map_cong) (use only True in auto)
    moreover have "fst (relay_settle_task now i fence oc t)
        = update_where (\<lambda>r. rt_id r = i) (\<lambda>_. settle_row now oc task) t"
      using True by (simp add: relay_settle_task_def Some settle_accepts_def Let_def)
    ultimately show ?thesis by simp
  next
    case False
    then have "update_where (\<lambda>r. rt_id r = i \<and> settle_accepts fence r) (settle_row now oc) t = t"
      by (intro update_where_none) (auto dest: only)
    moreover have "fst (relay_settle_task now i fence oc t) = t"
      using False by (auto simp: relay_settle_task_def Some settle_accepts_def)
    ultimately show ?thesis by simp
  qed
qed

lemma relay_ids [simp]:
  "map rt_id (fst (relay_renew now i fence s t)) = map rt_id t"
  "map rt_id (fst (relay_update_progress now i fence p t)) = map rt_id t"
  "map rt_id (fst (relay_cancel_task now project i t)) = map rt_id t"
  "map rt_id (fst (relay_sweep_dead now t)) = map rt_id t"
  "map rt_id (fst (relay_lease now d caps s n t)) = map rt_id t"
  by (simp_all add: relay_renew_fst relay_update_progress_fst relay_cancel_fst relay_sweep_dead_def
      relay_lease_def Let_def table_simps)

lemma relay_ids_settle [simp]:
  "relay_wf t \<Longrightarrow> map rt_id (fst (relay_settle_task now i fence oc t)) = map rt_id t"
  by (simp add: relay_settle_fst table_simps)

text \<open>The ids a lease takes are those of the oldest leasable rows.\<close>

definition lease_ids :: "instant \<Rightarrow> string list \<Rightarrow> nat \<Rightarrow> 'v relay \<Rightarrow> string list" where
  "lease_ids now caps n t =
     map rt_id (take n (sort_key rt_created_at (filter (relay_leasable now caps) t)))"

lemma relay_lease_eq:
  "relay_lease now d caps s n t =
     (update_where (\<lambda>r. rt_id r \<in> set (lease_ids now caps n t)) (relay_take now d s) t,
      map (relay_take now d s) (filter (\<lambda>r. rt_id r \<in> set (lease_ids now caps n t)) t))"
  by (simp add: relay_lease_def lease_ids_def Let_def)

lemma lease_ids_leasable:
  assumes "relay_wf t" and "r \<in> set t" and "rt_id r \<in> set (lease_ids now caps n t)"
  shows "relay_leasable now caps r"
proof -
  obtain q where "q \<in> set (take n (sort_key rt_created_at (filter (relay_leasable now caps) t)))"
      "rt_id q = rt_id r"
    using assms(3) by (auto simp: lease_ids_def)
  then have q: "q \<in> set t" "relay_leasable now caps q" "rt_id q = rt_id r"
    by (auto dest: in_set_takeD)
  have "inj_on rt_id (set t)" using assms(1) by (simp add: relay_wf_def distinct_map)
  then have "q = r" using q(3,1) assms(2) by (rule inj_onD)
  with q show ?thesis by simp
qed

lemma lease_ids_length: "length (lease_ids now caps n t) \<le> n"
  by (simp add: lease_ids_def)

section \<open>The queue keeps the contract of a leased table\<close>

datatype 'v relay_write = RenewLease int | ReportProgress string | Settle "'v relay_outcome"

datatype 'v relay_event =
    EnqueueTask string "device list" bool string "string option" string "'v option"
      "string option" "nat option" "nat option"
  | CancelTask "string option" string
  | SweepDead
  | LeaseTasks string "string list" int nat
  | OperatorSettle string "'v relay_outcome"

fun relay_holder_write :: "instant \<Rightarrow> string \<Rightarrow> instant \<Rightarrow> 'v relay_write \<Rightarrow> 'v relay \<Rightarrow> 'v relay" where
  "relay_holder_write now i f (RenewLease s) t = fst (relay_renew now i f s t)"
| "relay_holder_write now i f (ReportProgress p) t = fst (relay_update_progress now i f p t)"
| "relay_holder_write now i f (Settle oc) t = fst (relay_settle_task now i (Some f) oc t)"

fun relay_other_write :: "instant \<Rightarrow> 'v relay_event \<Rightarrow> 'v relay \<Rightarrow> 'v relay" where
  "relay_other_write now (EnqueueTask i devs ok project source action pl key ma ri) t =
     fst (api_enqueue now i devs ok project source action pl key ma ri t)"
| "relay_other_write now (CancelTask project i) t = fst (relay_cancel_task now project i t)"
| "relay_other_write now SweepDead t = fst (relay_sweep_dead now t)"
| "relay_other_write now (LeaseTasks d caps s n) t = fst (relay_lease now d caps s n t)"
| "relay_other_write now (OperatorSettle i oc) t = fst (relay_settle_task now i None oc t)"

definition relay_open :: "'v relay_task \<Rightarrow> bool" where
  "relay_open r \<longleftrightarrow> rt_status r \<notin> {''succeeded'', ''dead'', ''cancelled''}"

definition relay_verdict :: "'v relay_task \<Rightarrow> string \<times> 'v option \<times> string option \<times> nat" where
  "relay_verdict r = (rt_status r, rt_result r, rt_error r, rt_failures r)"

lemma live_open: "is_live_lease (rt_status r) \<Longrightarrow> relay_open r"
  by (auto simp: is_live_lease_def relay_open_def)

lemma leasable_open: "relay_leasable now caps r \<Longrightarrow> relay_open r"
  by (auto simp: relay_leasable_def relay_open_def)

lemma api_enqueue_fst:
  "fst (api_enqueue now i devs ok project source action pl key ma ri t) = t
   \<or> (\<exists>r. relay_create r t = Some (fst (api_enqueue now i devs ok project source action pl key ma ri t))
        \<and> rt_lease_fence r = None \<and> rt_id r = i
        \<and> r = relay_row now i project source (str_trim action) pl key ma ri)"
  by (auto simp: api_enqueue_def Let_def relay_row_def split: option.splits relay_admission.splits)

lemma relay_create_append: "relay_create r t = Some t' \<Longrightarrow> t' = t @ [r]"
  by (simp add: relay_create_def split: if_splits)

lemma relay_create_wf: "relay_create r t = Some t' \<Longrightarrow> relay_wf t \<Longrightarrow> relay_wf t'"
  by (fastforce simp: relay_create_def relay_wf_def row_by_None split: if_splits)

lemma relay_create_row:
  "relay_create r t = Some t' \<Longrightarrow>
     row_by rt_id j t' = (if j = rt_id r then Some r else row_by rt_id j t)"
  by (auto simp: relay_create_def row_by_append row_by_Cons row_by_Nil split: option.splits if_splits
      dest: row_by_Some)

lemma relay_writes_wf:
  "relay_wf t \<Longrightarrow> relay_wf (relay_holder_write now i f w t)"
  "relay_wf t \<Longrightarrow> relay_wf (relay_other_write now e t)"
proof -
  assume "relay_wf t"
  then show "relay_wf (relay_holder_write now i f w t)"
    by (cases w) (simp_all add: relay_wf_def relay_ids_settle [unfolded relay_wf_def])
next
  assume wf: "relay_wf t"
  show "relay_wf (relay_other_write now e t)"
  proof (cases e)
    case (EnqueueTask i devs ok project source action pl key ma ri)
    show ?thesis
      using api_enqueue_fst [of now i devs ok project source action pl key ma ri t] wf
      by (auto simp: EnqueueTask dest: relay_create_wf)
  qed (use wf in \<open>simp_all add: relay_wf_def relay_ids_settle [unfolded relay_wf_def]\<close>)
qed

lemma relay_refused:
  assumes "relay_wf t"
    and "\<not> (\<exists>r. row_by rt_id i t = Some r \<and> relay_open r \<and> rt_lease_fence r = Some f)"
  shows "relay_holder_write now i f w t = t"
proof -
  have no: "\<not> (rt_id r = i \<and> rt_lease_fence r = Some f \<and> is_live_lease (rt_status r))"
    if "r \<in> set t" for r
    using row_by_distinct [of rt_id t r] assms that live_open by (auto simp: relay_wf_def)
  show ?thesis
    using no by (cases w)
      (auto simp: relay_renew_fst relay_update_progress_fst relay_settle_fst [OF assms(1)]
        holder_row_def settle_accepts_def intro!: update_where_none)
qed

lemma settle_row_fence [simp]: "rt_lease_fence (settle_row now oc r) = None"
  by (simp add: settle_row_def Let_def split: relay_outcome.splits)

lemma relay_holder_fence:
  assumes "relay_wf t" and "row_by rt_id j (relay_holder_write now i f w t) = Some r'"
    and "relay_open r'" and "rt_lease_fence r' = Some g"
  shows "g = now \<or> (\<exists>r. row_by rt_id j t = Some r \<and> relay_open r \<and> rt_lease_fence r = Some g)"
  using assms(2-) by (cases w)
    (auto simp: relay_renew_fst relay_update_progress_fst relay_settle_fst [OF assms(1)]
      relay_open_def split: if_splits)

lemma relay_other_fence:
  assumes "relay_wf t" and "row_by rt_id j (relay_other_write now e t) = Some r'"
    and "relay_open r'" and "rt_lease_fence r' = Some g"
  shows "g = now \<or> (\<exists>r. row_by rt_id j t = Some r \<and> relay_open r \<and> rt_lease_fence r = Some g)"
proof (cases e)
  case (EnqueueTask i devs ok project source action pl key ma ri)
  show ?thesis
    using api_enqueue_fst [of now i devs ok project source action pl key ma ri t] assms(2-)
    by (auto simp: EnqueueTask relay_create_row split: if_splits)
next
  case (LeaseTasks d caps s n)
  with assms(2) obtain r where r: "row_by rt_id j t = Some r"
      "r' = (if rt_id r \<in> set (lease_ids now caps n t) then relay_take now d s r else r)"
    by (auto simp: relay_lease_eq)
  then show ?thesis using assms(3,4) by (auto simp: relay_take_def split: if_splits)
qed (use assms(2-) in \<open>auto simp: relay_cancel_fst relay_sweep_dead_def relay_bury_def
    relay_settle_fst [OF assms(1)] relay_open_def split: if_splits\<close>)

lemma relay_holder_final:
  assumes "relay_wf t" and "row_by rt_id j t = Some r" and "\<not> relay_open r"
  shows "\<exists>r'. row_by rt_id j (relay_holder_write now i f w t) = Some r' \<and> \<not> relay_open r'
     \<and> relay_verdict r' = relay_verdict r"
  using assms(2,3) live_open by (cases w)
    (auto simp: relay_renew_fst relay_update_progress_fst relay_settle_fst [OF assms(1)]
      holder_row_def settle_accepts_def)

lemma relay_other_final:
  assumes "relay_wf t" and "row_by rt_id j t = Some r" and "\<not> relay_open r"
  shows "\<exists>r'. row_by rt_id j (relay_other_write now e t) = Some r' \<and> \<not> relay_open r'
     \<and> relay_verdict r' = relay_verdict r"
proof (cases e)
  case (EnqueueTask i devs ok project source action pl key ma ri)
  have "\<exists>r'. row_by rt_id j t' = Some r' \<and> \<not> relay_open r' \<and> relay_verdict r' = relay_verdict r"
    if "relay_create q t = Some t'" for q t'
    using that assms(2,3) by (auto simp: relay_create_row) (auto simp: relay_create_def split: if_splits)
  then show ?thesis
    using api_enqueue_fst [of now i devs ok project source action pl key ma ri t] assms(2,3)
    by (auto simp: EnqueueTask)
next
  case (LeaseTasks d caps s n)
  have "r \<in> set t" using assms(2) by (auto dest: row_by_Some)
  then have "rt_id r \<notin> set (lease_ids now caps n t)"
    using lease_ids_leasable [OF assms(1)] leasable_open assms(3) by blast
  then show ?thesis using assms(2,3) by (simp add: LeaseTasks relay_lease_eq)
qed (use assms(2,3) live_open in \<open>auto simp: relay_cancel_fst relay_sweep_dead_def relay_sweepable_def
    relay_settle_fst [OF assms(1)] settle_accepts_def relay_open_def\<close>)

interpretation rq: leased_table relay_wf "\<lambda>t i. row_by rt_id i t" rt_lease_fence relay_open
  relay_verdict relay_holder_write relay_other_write
proof (unfold_locales, goal_cases)
  case 1
  then show ?case by (rule relay_writes_wf)
next
  case 2
  then show ?case by (rule relay_writes_wf)
next
  case 3
  then show ?case by (rule relay_refused)
next
  case 4
  then show ?case by (intro relay_holder_fence)
next
  case 5
  then show ?case by (intro relay_other_fence)
next
  case 6
  then show ?case by (intro relay_holder_final)
next
  case 7
  then show ?case by (intro relay_other_final)
qed

section \<open>Properties of the relay\<close>

text \<open>
  C19: A device that lost its lease (it expired and the task was leased elsewhere, dead-lettered,
  settled or cancelled to its end) can do nothing more to the queue under its old fence: in every
  later history its renewals, progress notes and reports can be erased without changing the table.
\<close>

theorem relay_stale_writes_erased:
  assumes "relay_wf t"
    and "\<not> (\<exists>r. row_by rt_id i t = Some r \<and> relay_open r \<and> rt_lease_fence r = Some f)"
    and "\<forall>st \<in> set steps. step_time st \<noteq> f"
  shows "rq.history steps t = rq.history (filter (\<lambda>st. \<not> from_holder i f st) steps) t"
  using assms by (intro rq.stale_erased) (simp_all add: rq.holds_def)

lemma relay_verdict_final:
  assumes "relay_wf t" and "row_by rt_id i t = Some r" and "\<not> relay_open r"
  shows "\<exists>r'. row_by rt_id i (rq.history steps t) = Some r' \<and> \<not> relay_open r'
     \<and> relay_verdict r' = relay_verdict r"
  using assms by (rule rq.verdict_final)

lemma take_sorted_oldest:
  assumes "r \<in> set xs" and "r \<notin> set (take n (sort_key k xs))"
    and "q \<in> set (take n (sort_key k xs))"
  shows "k q \<le> (k r :: int)"
proof -
  let ?ys = "sort_key k xs"
  have "r \<in> set ?ys" using assms(1) by simp
  then have "r \<in> set (drop n ?ys)" using assms(2) by (metis Un_iff append_take_drop_id set_append)
  moreover have "sorted (map k (take n ?ys) @ map k (drop n ?ys))"
    by (metis append_take_drop_id map_append sorted_sort_key)
  ultimately show ?thesis using assms(3) by (auto simp: sorted_append)
qed

lemma length_filter_ids:
  assumes "relay_wf t" and "ids = map rt_id qs" and "distinct ids" and "set qs \<subseteq> set t"
  shows "length (filter (\<lambda>r. rt_id r \<in> set ids) t) = length ids"
proof -
  have inj: "inj_on rt_id (set t)" and dt: "distinct t"
    using assms(1) by (auto simp: relay_wf_def distinct_map)
  have "set (filter (\<lambda>r. rt_id r \<in> set ids) t) = set qs"
    using inj assms(2,4) by (auto dest: inj_onD)
  moreover have "distinct qs" using assms(2,3) by (simp add: distinct_map)
  ultimately have "length (filter (\<lambda>r. rt_id r \<in> set ids) t) = length qs"
    using dt by (metis distinct_card distinct_filter)
  then show ?thesis by (simp add: assms(2))
qed

text \<open>
  C32: A lease hands out at most the asked number of tasks, each of which was due or expired with
  budget left on both counters and is covered by the device's capabilities; it is stamped with a
  fence of this instant, and a task handed out was never one that an operator cancelled. Rows not
  handed out are untouched, and none of the leasable rows left behind is older than one handed out.
\<close>

theorem relay_lease_sound:
  assumes "relay_wf t" and "relay_lease now d caps s n t = (t', tasks)"
  shows "length tasks \<le> n
    \<and> (\<forall>r' \<in> set tasks. \<exists>r \<in> set t. r' = relay_take now d s r \<and> relay_leasable now caps r
          \<and> rt_status r \<noteq> ''cancelling'' \<and> rt_status r \<noteq> ''cancelled'' \<and> r' \<in> set t')
    \<and> (\<forall>r \<in> set t. relay_take now d s r \<notin> set tasks \<longrightarrow> r \<in> set t'
          \<and> (relay_leasable now caps r \<longrightarrow> (\<forall>r' \<in> set tasks. rt_created_at r' \<le> rt_created_at r)))"
proof -
  let ?L = "sort_key rt_created_at (filter (relay_leasable now caps) t)"
  let ?ids = "lease_ids now caps n t"
  have t': "t' = update_where (\<lambda>r. rt_id r \<in> set ?ids) (relay_take now d s) t"
    and tasks: "tasks = map (relay_take now d s) (filter (\<lambda>r. rt_id r \<in> set ?ids) t)"
    using assms(2) by (auto simp: relay_lease_eq)
  have inj: "inj_on rt_id (set t)" using assms(1) by (simp add: relay_wf_def distinct_map)
  have sub: "set (take n ?L) \<subseteq> set t" by (auto dest: in_set_takeD)
  have "distinct ?ids" unfolding lease_ids_def distinct_map
    using assms(1) inj_on_subset [OF inj sub]
    by (simp add: relay_wf_def distinct_map distinct_take)
  then have "length tasks \<le> n"
    using length_filter_ids [OF assms(1) _ _ sub, of ?ids] lease_ids_length [of now caps n t]
    by (simp add: tasks lease_ids_def)
  moreover have "\<exists>r \<in> set t. r' = relay_take now d s r \<and> relay_leasable now caps r
      \<and> rt_status r \<noteq> ''cancelling'' \<and> rt_status r \<noteq> ''cancelled'' \<and> r' \<in> set t'"
    if h: "r' \<in> set tasks" for r'
  proof -
    obtain r where r: "r \<in> set t" "rt_id r \<in> set ?ids" "r' = relay_take now d s r"
      using h unfolding tasks by auto
    then have "r' \<in> set t'" by (auto simp: t' set_update_where)
    moreover have "relay_leasable now caps r" using lease_ids_leasable [OF assms(1) r(1,2)] .
    ultimately show ?thesis using r by (intro bexI [of _ r]) (auto simp: relay_leasable_def)
  qed
  moreover have "r \<in> set t' \<and> (relay_leasable now caps r \<longrightarrow> (\<forall>r' \<in> set tasks. rt_created_at r' \<le> rt_created_at r))"
    if r: "r \<in> set t" "relay_take now d s r \<notin> set tasks" for r
  proof -
    have notin: "rt_id r \<notin> set ?ids" using r by (auto simp: tasks)
    then have "r \<in> set t'" using r(1) by (auto simp: t' set_update_where image_iff intro!: bexI [of _ r])
    moreover have "rt_created_at r' \<le> rt_created_at r"
      if h: "relay_leasable now caps r" "r' \<in> set tasks" for r'
    proof -
      obtain q where q: "q \<in> set t" "rt_id q \<in> set ?ids" "r' = relay_take now d s q"
        using h(2) unfolding tasks by auto
      then obtain q' where "q' \<in> set (take n ?L)" "rt_id q' = rt_id q" by (auto simp: lease_ids_def)
      then have "q \<in> set (take n ?L)" using inj sub q(1) by (metis inj_onD subsetD)
      moreover have "r \<notin> set (take n ?L)" using notin by (auto simp: lease_ids_def)
      ultimately have "rt_created_at q \<le> rt_created_at r"
        using r(1) h(1) by (intro take_sorted_oldest [of r "filter (relay_leasable now caps) t"]) auto
      then show ?thesis by (simp add: q(3) relay_take_def)
    qed
    ultimately show ?thesis by blast
  qed
  ultimately show ?thesis by blast
qed

lemma starts_with_append: "starts_with s p \<longleftrightarrow> (\<exists>r. s = p @ r)"
  unfolding starts_with_def by (metis append_eq_conv_conj append_take_drop_id)

lemma starts_with_prefix: "starts_with s (p @ q) \<longleftrightarrow> starts_with s p \<and> starts_with (drop (length p) s) q"
  by (auto simp: starts_with_append)

lemma cap_prefix_holds:
  "cap_clause_holds a (CapPrefix (ns @ ''/''))
     \<longleftrightarrow> starts_with a ns \<and> starts_with (drop (length ns) a) ''/''"
  unfolding starts_with_prefix [symmetric] by (simp add: starts_with_def)

definition covers_one :: "string \<Rightarrow> string \<Rightarrow> bool" where
  "covers_one action_type c0 = (let c = str_trim c0 in
      if c = ''*'' then True
      else case strip_suffix_star c of
        Some ns \<Rightarrow> starts_with action_type ns \<and> starts_with (drop (length ns) action_type) ''/''
      | None \<Rightarrow> c = action_type)"

lemma cap_parts_covers:
  assumes "action \<noteq> []" and "\<forall>c \<in> set caps. str_trim c \<noteq> ''*''"
  shows "list_ex (cap_clause_holds action) (cap_parts caps) \<longleftrightarrow> list_ex (covers_one action) caps"
  using assms(2)
proof (induction caps)
  case Nil
  then show ?case by simp
next
  case (Cons c0 cs)
  show ?case
  proof (cases "str_trim c0 = []")
    case True
    then have "\<not> covers_one action c0"
      using assms(1) by (simp add: covers_one_def strip_suffix_star_def)
    with True Cons show ?thesis by simp
  next
    case False
    have "cap_clause_holds action (case strip_suffix_star (str_trim c0) of
        Some ns \<Rightarrow> CapPrefix (ns @ ''/'') | None \<Rightarrow> CapExact (str_trim c0)) \<longleftrightarrow> covers_one action c0"
      using Cons.prems
      by (auto simp: covers_one_def cap_prefix_holds Let_def simp del: cap_clause_holds.simps(1)
          split: option.splits)
    with False Cons show ?thesis by (simp add: Let_def)
  qed
qed

lemma cap_parts_nonempty: "c \<in> set caps \<Longrightarrow> str_trim c \<noteq> [] \<Longrightarrow> cap_parts caps \<noteq> []"
  by (induction caps) (auto simp: Let_def)

text \<open>
  The rows a lease statement selects for a device are those of the actions the device's
  capabilities cover: the SQL filter and the shared rule of the fleet agree, for every action type and
  every capability list that is empty or has an entry that is not blank.
\<close>

theorem capability_filter_agrees:
  assumes "action \<noteq> []" and "caps = [] \<or> (\<exists>c \<in> set caps. str_trim c \<noteq> [])"
  shows "capability_selects caps action = capability_matches caps action"
proof (cases "caps = []")
  case True
  then show ?thesis by (simp add: capability_selects_def capability_filter_def capability_matches_def)
next
  case False
  have m: "capability_matches caps action = list_ex (covers_one action) caps"
    using False by (simp add: capability_matches_def covers_one_def [abs_def])
  show ?thesis
  proof (cases "list_ex (\<lambda>c. str_trim c = ''*'') caps")
    case True
    then have "list_ex (covers_one action) caps" by (auto simp: list_ex_iff covers_one_def Let_def)
    with True show ?thesis by (simp add: m capability_selects_def capability_filter_def)
  next
    case nostar: False
    have "cap_parts caps \<noteq> []" using assms(2) False cap_parts_nonempty by blast
    then show ?thesis
      using nostar False cap_parts_covers [OF assms(1), of caps]
      by (simp add: m capability_selects_def capability_filter_def list_ex_iff)
  qed
qed

text \<open>A device that advertises only blanks is counted as serving nothing, yet is leased everything.\<close>

lemma blank_capability_disagrees:
  "capability_selects ['' ''] ''ops/nightly'' \<and> \<not> capability_matches ['' ''] ''ops/nightly''"
  by code_simp

text \<open>
  What a report does, on every branch. A cancelled run ends as cancelled and consumes nothing; a
  success is final; a failure consumes one of the task's chances and dead-letters it exactly when none
  is left, otherwise it is due again after its retry interval; a deferral consumes no chance and hands
  its attempt back. In every case the lease is gone afterwards.
\<close>

theorem relay_settle_branches:
  assumes "relay_wf t" and "row_by rt_id i t = Some r" and "is_live_lease (rt_status r)"
    and "rt_lease_fence r = Some f"
  shows "\<exists>r'. relay_settle_task now i (Some f) oc t
        = (update_where (\<lambda>q. rt_id q = i) (\<lambda>_. r') t, Settled r')
      \<and> rt_lease_fence r' = None \<and> rt_lease_deadline r' = None
      \<and> (if rt_status r = ''cancelling'' then rt_status r' = ''cancelled'' \<and> rt_failures r' = rt_failures r
         else case oc of
            OutSucceeded v \<Rightarrow> rt_status r' = ''succeeded'' \<and> rt_result r' = v \<and> rt_error r' = None
                \<and> rt_failures r' = rt_failures r
          | OutFailed e \<Rightarrow> rt_failures r' = rt_failures r + 1 \<and> rt_error r' = Some e
                \<and> (if rt_max_attempts r \<le> rt_failures r + 1 then rt_status r' = ''dead''
                   else rt_status r' = ''queued''
                     \<and> rt_next_attempt_at r' = now + chrono_secs (int (rt_retry_interval_secs r)))
          | OutDeferred d why \<Rightarrow> rt_status r' = ''queued'' \<and> rt_failures r' = rt_failures r
                \<and> rt_attempts r' = rt_attempts r - 1
                \<and> rt_next_attempt_at r' = now + chrono_secs (int (case d of Some n \<Rightarrow> n
                     | None \<Rightarrow> rt_retry_interval_secs r)))"
proof -
  let ?r = "settle_row now oc r"
  have "row_by rt_id i (update_where (\<lambda>q. rt_id q = i) (\<lambda>_. ?r) t) = Some ?r"
    using assms(2) row_by_Some [OF assms(2)]
    by (induction t) (auto simp: table_simps)
  then have "relay_settle_task now i (Some f) oc t
      = (update_where (\<lambda>q. rt_id q = i) (\<lambda>_. ?r) t, Settled ?r)"
    using assms by (simp add: relay_settle_task_def Let_def)
  then show ?thesis
    by (intro exI [of _ ?r]) (auto simp: settle_row_def Let_def split: relay_outcome.splits)
qed

definition no_report :: "string \<Rightarrow> instant \<Rightarrow> ('v relay_write, 'v relay_event) lease_step \<Rightarrow> bool" where
  "no_report i f st = (case st of
     HolderStep _ j g _ \<Rightarrow> \<not> (i = j \<and> f = g)
   | OtherStep _ e \<Rightarrow> (case e of OperatorSettle j _ \<Rightarrow> i \<noteq> j | _ \<Rightarrow> True))"

lemma cancelling_step:
  assumes "relay_wf t" and "row_by rt_id i t = Some r" and "rt_status r = ''cancelling''"
    and "rt_lease_fence r = Some f" and "no_report i f st"
  shows "row_by rt_id i (rq.perform st t) = Some r"
proof -
  have rid: "rt_id r = i" "r \<in> set t" using row_by_Some [OF assms(2)] by auto
  show ?thesis
  proof (cases st)
    case (HolderStep now j g w)
    then have "\<not> (rt_id r = j \<and> rt_lease_fence r = Some g)"
      using assms(4,5) rid by (auto simp: no_report_def)
    then show ?thesis using HolderStep assms(2)
      by (cases w) (auto simp: relay_renew_fst relay_update_progress_fst relay_settle_fst [OF assms(1)]
        holder_row_def settle_accepts_def)
  next
    case (OtherStep now e)
    show ?thesis
    proof (cases e)
      case (EnqueueTask j devs ok project source action pl key ma ri)
      have "row_by rt_id i t' = Some r" if "relay_create q t = Some t'" for q t'
        using that assms(2) by (auto simp: relay_create_row) (auto simp: relay_create_def split: if_splits)
      then show ?thesis
        using api_enqueue_fst [of now j devs ok project source action pl key ma ri t] assms(2)
        by (auto simp: OtherStep EnqueueTask)
    next
      case (LeaseTasks d caps s n)
      have "rt_id r \<notin> set (lease_ids now caps n t)"
        using lease_ids_leasable [OF assms(1) rid(2), of now caps n] assms(3)
        by (auto simp: relay_leasable_def)
      then show ?thesis using assms(2) by (simp add: OtherStep LeaseTasks relay_lease_eq)
    next
      case (OperatorSettle j oc)
      then have "rt_id r \<noteq> j" using OtherStep assms(5) rid by (auto simp: no_report_def)
      then show ?thesis using assms(2)
        by (simp add: OtherStep OperatorSettle relay_settle_fst [OF assms(1)])
    qed (use assms(2,3) in \<open>simp_all add: OtherStep relay_cancel_fst relay_sweep_dead_def
        relay_sweepable_def\<close>)
  qed
qed

text \<open>
  A task that is being cancelled is never handed out again and never dead-lettered; but nothing
  other than a report ends it either. When its device is gone, every history of leases, sweeps,
  cancels, enqueues and other devices' writes leaves it cancelling, with its lease as it was.
\<close>

theorem cancelling_task_stays:
  assumes "relay_wf t" and "row_by rt_id i t = Some r" and "rt_status r = ''cancelling''"
    and "rt_lease_fence r = Some f" and "\<forall>st \<in> set steps. no_report i f st"
  shows "row_by rt_id i (rq.history steps t) = Some r"
  using assms
proof (induction steps arbitrary: t)
  case Nil
  then show ?case by (simp add: rq.history_def)
next
  case (Cons st steps)
  then have "row_by rt_id i (rq.perform st t) = Some r" by (intro cancelling_step) auto
  moreover have "relay_wf (rq.perform st t)" using Cons.prems(1) by (rule rq.perform_wf)
  ultimately show ?case using Cons by (simp add: rq.history_def)
qed

text \<open>
  The lease door does not look at the project a device was enrolled for: every device leases the
  same tasks whatever its project, so one scoped to a project is handed the others' payloads.
\<close>

theorem lease_door_ignores_project:
  assumes "dev_id d = dev_id d'"
  shows "api_lease now (Enrolled d) caps secs n t = api_lease now (Enrolled d') caps secs n t"
  by (simp add: api_lease_def task_device_def assms)

section \<open>Histories from an empty queue\<close>

definition relay_row_ok :: "'v relay_task \<Rightarrow> bool" where
  "relay_row_ok r \<longleftrightarrow> relay_status_from_wire (rt_status r) \<noteq> None
     \<and> (rt_lease_fence r \<noteq> None \<longleftrightarrow> is_live_lease (rt_status r))
     \<and> (rt_lease_deadline r \<noteq> None \<longleftrightarrow> is_live_lease (rt_status r))
     \<and> rt_failures r \<le> rt_max_attempts r \<and> rt_stale_reclaims r \<le> RELAY_MAX_STALE_RECLAIMS
     \<and> (rt_status r \<in> {''queued'', ''leased'', ''cancelling''} \<longrightarrow> rt_failures r < rt_max_attempts r)
     \<and> 1 \<le> rt_retry_interval_secs r"

lemma known_statuses [simp]:
  "relay_status_from_wire ''queued'' = Some Queued" "relay_status_from_wire ''leased'' = Some Leased"
  "relay_status_from_wire ''succeeded'' = Some Succeeded" "relay_status_from_wire ''dead'' = Some Dead"
  "relay_status_from_wire ''cancelling'' = Some Cancelling"
  "relay_status_from_wire ''cancelled'' = Some Cancelled"
  by (simp_all add: rs.parse_iff)

lemma rows_ok_update:
  "list_all relay_row_ok t \<Longrightarrow> (\<And>r. r \<in> set t \<Longrightarrow> relay_row_ok r \<Longrightarrow> p r \<Longrightarrow> relay_row_ok (f r))
     \<Longrightarrow> list_all relay_row_ok (update_where p f t)"
  by (auto simp: list_all_iff set_update_where)

lemma relay_take_ok:
  "relay_row_ok r \<Longrightarrow> relay_leasable now caps r \<Longrightarrow> relay_row_ok (relay_take now d s r)"
  by (auto simp: relay_row_ok_def relay_leasable_def relay_take_def is_live_lease_def
      relay_exhausted_def)

lemma settle_row_ok: "relay_row_ok r \<Longrightarrow> settle_accepts f r \<Longrightarrow> relay_row_ok (settle_row now oc r)"
  by (auto simp: relay_row_ok_def settle_accepts_def settle_row_def is_live_lease_def Let_def
      split: relay_outcome.splits)

lemma relay_perform_ok:
  assumes "relay_wf t" and "list_all relay_row_ok t"
  shows "list_all relay_row_ok (rq.perform st t)"
proof (cases st)
  case (HolderStep now i f w)
  then show ?thesis
    by (cases w) (auto simp: relay_renew_fst relay_update_progress_fst relay_settle_fst [OF assms(1)]
        holder_row_def relay_row_ok_def intro!: rows_ok_update [OF assms(2)] settle_row_ok)
next
  case (OtherStep now e)
  show ?thesis
  proof (cases e)
    case (EnqueueTask i devs ok project source action pl key ma ri)
    have "relay_row_ok (relay_row now i project source a pl key ma ri)" for a
      by (simp add: relay_row_ok_def relay_row_def is_live_lease_def RELAY_MAX_STALE_RECLAIMS_def)
    then show ?thesis
      using api_enqueue_fst [of now i devs ok project source action pl key ma ri t] assms(2)
      by (auto simp: OtherStep EnqueueTask dest!: relay_create_append)
  next
    case (LeaseTasks d caps s n)
    have "list_all relay_row_ok (update_where (\<lambda>r. rt_id r \<in> set (lease_ids now caps n t)) (relay_take now d s) t)"
      by (rule rows_ok_update [OF assms(2)]) (auto intro: relay_take_ok lease_ids_leasable [OF assms(1)])
    then show ?thesis by (simp add: OtherStep LeaseTasks relay_lease_eq)
  next
    case (CancelTask project i)
    have "list_all relay_row_ok (fst (relay_cancel_task now project i t))"
      unfolding relay_cancel_fst
      by (rule rows_ok_update [OF assms(2)]) (auto simp: relay_row_ok_def is_live_lease_def)
    then show ?thesis by (simp add: OtherStep CancelTask)
  next
    case SweepDead
    have "list_all relay_row_ok (update_where (relay_sweepable now) (relay_bury now) t)"
      by (rule rows_ok_update [OF assms(2)])
        (auto simp: relay_row_ok_def is_live_lease_def relay_bury_def)
    then show ?thesis by (simp add: OtherStep SweepDead relay_sweep_dead_def)
  next
    case (OperatorSettle i oc)
    have "list_all relay_row_ok (fst (relay_settle_task now i None oc t))"
      unfolding relay_settle_fst [OF assms(1)]
      by (rule rows_ok_update [OF assms(2)]) (auto intro: settle_row_ok)
    then show ?thesis by (simp add: OtherStep OperatorSettle)
  qed
qed

lemma relay_history_ok:
  "relay_wf t \<Longrightarrow> list_all relay_row_ok t \<Longrightarrow>
     relay_wf (rq.history steps t) \<and> list_all relay_row_ok (rq.history steps t)"
proof (induction steps arbitrary: t)
  case Nil
  then show ?case by (simp add: rq.history_def)
next
  case (Cons st steps)
  from Cons.IH [OF rq.perform_wf [OF Cons.prems(1)] relay_perform_ok [OF Cons.prems]]
  show ?case by (simp add: rq.history_def)
qed

text \<open>
  C25: Whatever happens to a queue from its creation on, ids stay unique, statuses stay in the
  vocabulary, a task has a fence and a deadline exactly while a device holds it, a task that can still
  run has a chance left, no task outlives its budget of failures, and none is reclaimed from more than
  three dead devices.
\<close>

theorem relay_queue_invariant:
  "relay_wf (rq.history steps []) \<and> list_all relay_row_ok (rq.history steps [])"
  by (rule relay_history_ok) (simp_all add: relay_wf_def)

definition rt_static :: "'v relay_task \<Rightarrow> string \<times> string \<times> string \<times> 'v option \<times> string option" where
  "rt_static r = (rt_id r, rt_project_id r, rt_action_type r, rt_payload r, rt_idempotency_key r)"

lemma rt_static_writes [simp]:
  "rt_static (relay_bury now r) = rt_static r" "rt_static (relay_take now d s r) = rt_static r"
  "rt_static (settle_row now oc r) = rt_static r"
  by (simp_all add: rt_static_def relay_bury_def relay_take_def settle_row_def Let_def
      split: relay_outcome.splits)

lemma rt_static_updates [simp]:
  "rt_static (r\<lparr>rt_lease_deadline := x\<rparr>) = rt_static r" "rt_static (r\<lparr>rt_updated_at := y\<rparr>) = rt_static r"
  "rt_static (r\<lparr>rt_progress := z\<rparr>) = rt_static r" "rt_static (r\<lparr>rt_status := st\<rparr>) = rt_static r"
  by (simp_all add: rt_static_def)

lemma perform_static:
  assumes "relay_wf t"
  shows "\<exists>news. map rt_static (rq.perform st t) = map rt_static t @ news"
proof (cases st)
  case (HolderStep now i f w)
  then show ?thesis
    by (cases w) (simp_all add: relay_renew_fst relay_update_progress_fst
        relay_settle_fst [OF assms] table_simps)
next
  case (OtherStep now e)
  show ?thesis
  proof (cases e)
    case (EnqueueTask i devs ok project source action pl key ma ri)
    then show ?thesis
      using api_enqueue_fst [of now i devs ok project source action pl key ma ri t]
      by (auto simp: OtherStep dest!: relay_create_append)
  qed (simp_all add: OtherStep relay_cancel_fst relay_sweep_dead_def relay_lease_eq
      relay_settle_fst [OF assms] table_simps)
qed

lemma history_static:
  "relay_wf t \<Longrightarrow> \<exists>news. map rt_static (rq.history steps t) = map rt_static t @ news"
proof (induction steps arbitrary: t)
  case Nil
  then show ?case by (simp add: rq.history_def)
next
  case (Cons st steps)
  from perform_static [OF Cons.prems, of st] Cons.IH [OF rq.perform_wf [OF Cons.prems], of st]
  show ?case by (auto simp: rq.history_def)
qed

lemma find_map_static: "find Q (map h xs) = map_option h (find (Q \<circ> h) xs)"
  by (induction xs) auto

lemma relay_find_static:
  "map_option rt_static (relay_find_by_key project key t)
     = find (\<lambda>(_, p, _, _, k). p = project \<and> k = Some key) (map rt_static t)"
  by (simp add: relay_find_by_key_def find_map_static comp_def rt_static_def)

lemma find_append_None: "find P xs = None \<Longrightarrow> find P (xs @ ys) = find P ys"
  by (induction xs) (auto split: if_splits)

text \<open>
  Enqueueing is idempotent under a key, for good: once a request with a key was accepted, the same
  request with that key is answered with that very task, and adds no row, after every later history.
\<close>

theorem enqueue_idempotent:
  fixes now later :: instant and steps
  assumes "relay_wf t"
    and "api_enqueue now i devs ok project source action pl (Some key) ma ri t = (t1, EnqAccepted r adm)"
  defines "t2 \<equiv> rq.history steps t1"
  shows "\<exists>r2 adm2. api_enqueue later j devs2 ok2 project source2 action pl (Some key) ma2 ri2 t2
       = (t2, EnqReplayed r2 adm2) \<and> rt_id r2 = i"
proof -
  let ?a = "str_trim action"
  have r: "r = relay_row now i project source ?a pl (Some key) ma ri" "?a \<noteq> []"
    and fresh: "relay_find_by_key project key t = None" and create: "relay_create r t = Some t1"
    using assms(2)
    by (auto simp: api_enqueue_def Let_def split: option.splits relay_admission.splits if_splits)
  have t1: "t1 = t @ [r]" using create by (auto simp: relay_create_def split: if_splits)
  have "relay_wf t1" using create assms(1) by (rule relay_create_wf)
  from history_static [OF this, of steps] obtain news where
    s: "map rt_static t2 = map rt_static t @ rt_static r # news" by (auto simp: t2_def t1)
  have "find (\<lambda>(_, p, _, _, k). p = project \<and> k = Some key) (map rt_static t) = None"
    using relay_find_static [of project key t] fresh by simp
  then have "map_option rt_static (relay_find_by_key project key t2) = Some (rt_static r)"
    unfolding relay_find_static s
    by (subst find_append_None) (simp_all add: rt_static_def r relay_row_def)
  then obtain r2 where "relay_find_by_key project key t2 = Some r2" "rt_static r2 = rt_static r" by auto
  then show ?thesis using r(2)
    by (auto simp: api_enqueue_def Let_def rt_static_def r(1) relay_row_def)
qed

text \<open>
  A report sent twice: the second is refused with what the row holds now, as the statement documents.
  (The type's own documentation promises the settled row instead.)
\<close>

lemma duplicate_report_refused:
  assumes "relay_wf t" and "row_by rt_id i t = Some r" and "is_live_lease (rt_status r)"
    and "rt_lease_fence r = Some f"
  shows "\<exists>st. snd (relay_settle_task later i (Some f) oc
      (fst (relay_settle_task now i (Some f) oc t))) = SettleNotHeld st None"
proof -
  have "row_by rt_id i (fst (relay_settle_task now i (Some f) oc t)) = Some (settle_row now oc r)"
    using assms(2-) row_by_Some [OF assms(2)]
    by (simp add: relay_settle_fst [OF assms(1)] settle_accepts_def)
  then show ?thesis by (simp add: relay_settle_task_def)
qed

text \<open>
  The cadence the lease door tells a device, against the deadline the renew door grants: for a lease
  of the maximal half hour they are the same ten minutes.
\<close>

lemma renew_cadence_at_maximum:
  "renew_secs MAX_LEASE_SECS = 600 \<and> min MAX_LEASE_SECS default_lease_secs = 600"
  by (simp add: renew_secs_def MAX_LEASE_SECS_def default_lease_secs_def)

section \<open>A task's story\<close>

definition demo_task :: "unit relay_task" where
  "demo_task = (relay_row 0 ''t'' ''p'' None ''ops/nightly'' None (Some ''k'') None None)
     \<lparr>rt_status := ''cancelling'', rt_lease_fence := Some 5, rt_lease_deadline := Some 60,
      rt_attempts := 1\<rparr>"

lemma demo_task_simps [simp]:
  "rt_id demo_task = ''t''" "rt_status demo_task = ''cancelling''" "rt_lease_fence demo_task = Some 5"
  "rt_failures demo_task = 0"
  by (simp_all add: demo_task_def relay_row_def)

lemma demo_relay_wf: "relay_wf [demo_task]"
  by (simp add: relay_wf_def)

lemma demo_row: "row_by rt_id ''t'' [demo_task] = Some demo_task"
  by (simp add: row_by_Cons)

theorem relay_stale_writes_erased_witness:
  "rq.history [HolderStep 9 ''t'' 4 (Settle (OutFailed ''late'')), OtherStep 10 SweepDead] [demo_task]
     = rq.history [OtherStep 10 SweepDead] [demo_task]"
  using relay_stale_writes_erased [OF demo_relay_wf, of "''t''" 4
      "[HolderStep 9 ''t'' 4 (Settle (OutFailed ''late'')), OtherStep 10 SweepDead]"]
  by (simp add: row_by_Cons)

definition demo_due :: "unit relay_task" where
  "demo_due = relay_row 0 ''t'' ''p'' None ''ops/nightly'' None None None None"

lemma demo_lease: "relay_lease 7 ''d'' [] 60 1 [demo_due]
    = ([relay_take 7 ''d'' 60 demo_due], [relay_take 7 ''d'' 60 demo_due])"
  by (simp add: relay_lease_def relay_leasable_def demo_due_def relay_row_def
      capability_selects_def capability_filter_def table_simps)

theorem relay_lease_sound_witness:
  "length [relay_take 7 ''d'' 60 demo_due] \<le> 1 \<and> relay_leasable 7 [] demo_due"
proof -
  have wf: "relay_wf [demo_due]" by (simp add: relay_wf_def)
  show ?thesis using relay_lease_sound [OF wf demo_lease] by auto
qed

theorem capability_filter_agrees_witness:
  "capability_selects [''ops/*''] ''ops/nightly'' = capability_matches [''ops/*''] ''ops/nightly''"
  by (rule capability_filter_agrees) code_simp+

theorem relay_settle_branches_witness:
  "\<exists>r'. relay_settle_task 9 ''t'' (Some 5) (OutFailed ''stopped'') [demo_task] = ([r'], Settled r')
     \<and> rt_status r' = ''cancelled'' \<and> rt_failures r' = 0"
  using relay_settle_branches [OF demo_relay_wf demo_row, of 5 9 "OutFailed ''stopped''"]
  by (auto simp: is_live_lease_def table_simps)

theorem cancelling_task_stays_witness:
  "row_by rt_id ''t'' (rq.history [OtherStep 100 SweepDead, OtherStep 101 (LeaseTasks ''d'' [] 60 5)]
     [demo_task]) = Some demo_task"
  by (rule cancelling_task_stays [OF demo_relay_wf demo_row]) (simp_all add: no_report_def)

theorem lease_door_ignores_project_witness:
  "api_lease 7 (Enrolled \<lparr>dev_id = ''d'', dev_project_id = Some ''p'', dev_capabilities = [],
      dev_last_seen_at = None, dev_agent_version = None, dev_revoked = False\<rparr>) [] 60 1 [demo_due]
   = api_lease 7 (Enrolled \<lparr>dev_id = ''d'', dev_project_id = Some ''other'', dev_capabilities = [],
      dev_last_seen_at = None, dev_agent_version = None, dev_revoked = False\<rparr>) [] 60 1 [demo_due]"
  by (rule lease_door_ignores_project) simp

theorem enqueue_idempotent_witness:
  "\<exists>r2 adm2. api_enqueue 50 ''u'' [] True ''p'' None ''a/b'' None (Some ''k'') None None
       (rq.history [OtherStep 9 (LeaseTasks ''d'' [] 60 1)]
         [relay_row 0 ''t'' ''p'' None ''a/b'' (None :: unit option) (Some ''k'') None None])
     = (rq.history [OtherStep 9 (LeaseTasks ''d'' [] 60 1)]
         [relay_row 0 ''t'' ''p'' None ''a/b'' None (Some ''k'') None None], EnqReplayed r2 adm2)
     \<and> rt_id r2 = ''t''"
proof (rule enqueue_idempotent)
  show "relay_wf ([] :: unit relay)" by (simp add: relay_wf_def)
  have "str_trim ''a/b'' = ''a/b''" by code_simp
  then show "api_enqueue 0 ''t'' [] True ''p'' None ''a/b'' None (Some ''k'') None None []
      = ([relay_row 0 ''t'' ''p'' None ''a/b'' (None :: unit option) (Some ''k'') None None],
         EnqAccepted (relay_row 0 ''t'' ''p'' None ''a/b'' None (Some ''k'') None None) (AdmQueued 0))"
    by (simp add: api_enqueue_def relay_find_by_key_def eligibility_admit_def eligibility_count_def
        relay_create_def row_by_Nil Let_def)
qed

end
