(* ===== verification/LimitRules.thy ===== *)
theory LimitRules
  imports LT_F64 ProviderModel "HOL-Library.Word"
begin

text \<open>
  \<^verbatim>\<open>crates/core/src/limits\<close> and the dimension vocabulary of
  \<^verbatim>\<open>crates/core/src/rollup/dimension.rs\<close>: what a limit rule measures, which traffic it
  applies to, how it evaluates against a current value, and what its status does to an event. All
  arithmetic is that of the code, in binary64; the shed lottery is computed on 64-bit words.
\<close>

unbundle bit_operations_syntax

section \<open>Dimensions\<close>

datatype storage = Column string | MetadataKey string | DayOfKey

datatype dimension =
  DimProject | DimProvider | DimModel | DimName | DimApiKey | DimCustomer | DimProduct | DimPrompt | DimDay

definition Dimension_ALL :: "dimension list" where
  "Dimension_ALL = [DimProject, DimProvider, DimModel, DimName, DimApiKey, DimCustomer, DimProduct,
     DimPrompt, DimDay]"

fun dimension_as_str :: "dimension \<Rightarrow> string" where
  "dimension_as_str DimProject = ''project''"
| "dimension_as_str DimProvider = ''provider''"
| "dimension_as_str DimModel = ''model''"
| "dimension_as_str DimName = ''name''"
| "dimension_as_str DimApiKey = ''api_key''"
| "dimension_as_str DimCustomer = ''customer''"
| "dimension_as_str DimProduct = ''product''"
| "dimension_as_str DimPrompt = ''prompt''"
| "dimension_as_str DimDay = ''day''"

definition dimension_parse :: "string \<Rightarrow> dimension option" where
  "dimension_parse s = find (\<lambda>d. dimension_as_str d = s) Dimension_ALL"

interpretation dm: closed_vocabulary Dimension_ALL dimension_as_str dimension_parse
proof
  show "dimension_parse s = wire_search Dimension_ALL dimension_as_str s" for s
    by (simp add: dimension_parse_def wire_search_def)
  show "v \<in> set Dimension_ALL" for v by (cases v) (simp_all add: Dimension_ALL_def)
  show "distinct (map dimension_as_str Dimension_ALL)" by (simp add: Dimension_ALL_def)
qed

fun dimension_storage :: "dimension \<Rightarrow> storage" where
  "dimension_storage DimProject = Column ''project_id''"
| "dimension_storage DimProvider = Column ''provider''"
| "dimension_storage DimModel = Column ''model''"
| "dimension_storage DimName = Column ''name''"
| "dimension_storage DimApiKey = MetadataKey ''api_key_id''"
| "dimension_storage DimCustomer = MetadataKey ''customer_id''"
| "dimension_storage DimProduct = MetadataKey ''product_id''"
| "dimension_storage DimPrompt = MetadataKey ''prompt''"
| "dimension_storage DimDay = DayOfKey"

section \<open>Scopes\<close>

record scope_dims =
  sd_provider :: string
  sd_model :: string
  sd_name :: "string option"
  sd_api_key_id :: "string option"
  sd_customer_id :: "string option"

definition scope_dims_new :: "string \<Rightarrow> string \<Rightarrow> string option \<Rightarrow> scope_dims" where
  "scope_dims_new provider model name = \<lparr>sd_provider = provider, sd_model = model, sd_name = name,
     sd_api_key_id = None, sd_customer_id = None\<rparr>"

datatype limit_scope =
  ScProvider string | ScModel string | ScName string | ScApiKey string | ScCustomer string

fun scope_dimension :: "limit_scope \<Rightarrow> dimension" where
  "scope_dimension (ScProvider _) = DimProvider"
| "scope_dimension (ScModel _) = DimModel"
| "scope_dimension (ScName _) = DimName"
| "scope_dimension (ScApiKey _) = DimApiKey"
| "scope_dimension (ScCustomer _) = DimCustomer"

definition scope_kind_str :: "limit_scope \<Rightarrow> string" where
  "scope_kind_str s = dimension_as_str (scope_dimension s)"

fun scope_value :: "limit_scope \<Rightarrow> string" where
  "scope_value (ScProvider v) = v"
| "scope_value (ScModel v) = v"
| "scope_value (ScName v) = v"
| "scope_value (ScApiKey v) = v"
| "scope_value (ScCustomer v) = v"

definition scope_from_parts :: "string \<Rightarrow> string \<Rightarrow> limit_scope option" where
  "scope_from_parts kind v =
     (if kind = ''provider'' then Some (ScProvider v)
      else if kind = ''model'' then Some (ScModel v)
      else if kind = ''name'' then Some (ScName v)
      else if kind = ''api_key'' then Some (ScApiKey v)
      else if kind = ''customer'' then Some (ScCustomer v)
      else None)"

definition scope_label :: "limit_scope \<Rightarrow> string" where
  "scope_label s = scope_kind_str s @ ''='' @ scope_value s"

fun scope_covers :: "limit_scope \<Rightarrow> scope_dims \<Rightarrow> bool" where
  "scope_covers (ScProvider v) d \<longleftrightarrow> sd_provider d = v"
| "scope_covers (ScModel v) d \<longleftrightarrow> sd_model d = v
     \<or> mi_family (canonicalize (sd_provider d) (sd_model d)) = mi_family (canonicalize (sd_provider d) v)"
| "scope_covers (ScName v) d \<longleftrightarrow> sd_name d = Some v"
| "scope_covers (ScApiKey v) d \<longleftrightarrow> sd_api_key_id d = Some v"
| "scope_covers (ScCustomer v) d \<longleftrightarrow> sd_customer_id d = Some v"

definition folds_canonical_family :: "limit_scope \<Rightarrow> bool" where
  "folds_canonical_family s = (case s of ScModel _ \<Rightarrow> True | _ \<Rightarrow> False)"

definition matches_model_row :: "limit_scope \<Rightarrow> string \<Rightarrow> string \<Rightarrow> bool" where
  "matches_model_row s provider model = scope_covers s (scope_dims_new provider model None)"

definition scope_matches :: "limit_scope option \<Rightarrow> scope_dims \<Rightarrow> bool" where
  "scope_matches s d = (case s of None \<Rightarrow> True | Some s \<Rightarrow> scope_covers s d)"

section \<open>Thresholds\<close>

datatype threshold_dimension = TdCustomer

datatype threshold = Fixed f64 | RevenueShare f64 threshold_dimension

definition threshold_fixed :: "threshold \<Rightarrow> f64 option" where
  "threshold_fixed t = (case t of Fixed v \<Rightarrow> Some v | RevenueShare _ _ \<Rightarrow> None)"

datatype limit_error =
  BadThreshold f64 | BadPct f64 | BadEtaDays f64 | BadForHours nat | BadWarnAt f64 | BlankScope string

definition threshold_validate :: "threshold \<Rightarrow> limit_error option" where
  "threshold_validate t = (case t of
     Fixed v \<Rightarrow> if \<not> (is_finite v \<and> 0 < v) then Some (BadThreshold v) else None
   | RevenueShare pct _ \<Rightarrow>
       if \<not> (is_finite pct \<and> 0 < pct \<and> pct \<le> f64_of_int 1000) then Some (BadPct pct) else None)"

datatype threshold_kind = TkFixed | TkRevenueShare | TkUnknown

record threshold_basis =
  tb_kind :: threshold_kind
  tb_revenue_usd :: "f64 option"
  tb_pct :: "f64 option"
  tb_dimension :: "threshold_dimension option"

definition basis_fixed :: threshold_basis where
  "basis_fixed = \<lparr>tb_kind = TkFixed, tb_revenue_usd = None, tb_pct = None, tb_dimension = None\<rparr>"

definition basis_derived :: "threshold_basis \<Rightarrow> bool" where
  "basis_derived b \<longleftrightarrow> tb_kind b \<noteq> TkFixed"

definition threshold_resolve :: "threshold \<Rightarrow> f64 option \<Rightarrow> f64 \<times> threshold_basis" where
  "threshold_resolve t revenue_usd = (case t of
     Fixed v \<Rightarrow> (v, basis_fixed)
   | RevenueShare pct dmn \<Rightarrow>
       (case (case revenue_usd of Some rv \<Rightarrow> if is_finite rv then Some rv else None
              | None \<Rightarrow> None) of
          Some rv \<Rightarrow> (rv * pct / f64_of_int 100,
            \<lparr>tb_kind = TkRevenueShare, tb_revenue_usd = Some rv, tb_pct = Some pct,
             tb_dimension = Some dmn\<rparr>)
        | None \<Rightarrow> (PInf,
            \<lparr>tb_kind = TkUnknown, tb_revenue_usd = None, tb_pct = Some pct,
             tb_dimension = Some dmn\<rparr>)))"

section \<open>Rules\<close>

datatype limit_metric = CostUsd | Calls | Tokens
datatype limit_window = Hour | Day | Month
datatype limit_action = Alert | Throttle | Block

definition LimitWindow_ALL :: "limit_window list" where
  "LimitWindow_ALL = [Hour, Day, Month]"

fun limit_window_as_str :: "limit_window \<Rightarrow> string" where
  "limit_window_as_str Hour = ''hour''"
| "limit_window_as_str Day = ''day''"
| "limit_window_as_str Month = ''month''"

definition limit_window_from_wire :: "string \<Rightarrow> limit_window option" where
  "limit_window_from_wire s = find (\<lambda>w. limit_window_as_str w = s) LimitWindow_ALL"

interpretation lw: closed_vocabulary LimitWindow_ALL limit_window_as_str limit_window_from_wire
proof
  show "limit_window_from_wire s = wire_search LimitWindow_ALL limit_window_as_str s" for s
    by (simp add: limit_window_from_wire_def wire_search_def)
  show "v \<in> set LimitWindow_ALL" for v by (cases v) (simp_all add: LimitWindow_ALL_def)
  show "distinct (map limit_window_as_str LimitWindow_ALL)" by (simp add: LimitWindow_ALL_def)
qed

fun window_retry_after_secs :: "limit_window \<Rightarrow> nat" where
  "window_retry_after_secs Hour = 30"
| "window_retry_after_secs Day = 300"
| "window_retry_after_secs Month = 900"

fun window_lookback :: "limit_window \<Rightarrow> int" where
  "window_lookback Hour = chrono_secs 3600"
| "window_lookback Day = chrono_secs 86400"
| "window_lookback Month = chrono_secs (30 * 86400)"

definition window_since :: "limit_window \<Rightarrow> instant \<Rightarrow> instant" where
  "window_since w now = now - window_lookback w"

definition action_enforces :: "limit_action \<Rightarrow> bool" where
  "action_enforces a \<longleftrightarrow> a = Throttle \<or> a = Block"

definition action_sheds :: "limit_action \<Rightarrow> bool" where
  "action_sheds a \<longleftrightarrow> a = Throttle"

definition DEFAULT_THROTTLE_START :: f64 where
  "DEFAULT_THROTTLE_START = rnd (8 / 10)"

record escalation =
  on_eta_days :: f64
  escalate_to :: limit_action
  for_hours :: nat

definition escalation_validate :: "escalation \<Rightarrow> limit_error option" where
  "escalation_validate e =
     (if \<not> (is_finite (on_eta_days e) \<and> 0 < on_eta_days e) then Some (BadEtaDays (on_eta_days e))
      else if for_hours e = 0 \<or> 24 * 30 < for_hours e then Some (BadForHours (for_hours e))
      else None)"

definition escalation_until :: "escalation \<Rightarrow> instant \<Rightarrow> instant" where
  "escalation_until e now = now + chrono_secs (3600 * int (for_hours e))"

record limit_rule =
  lr_id :: string
  lr_project_id :: string
  lr_metric :: limit_metric
  lr_window :: limit_window
  lr_threshold :: threshold
  lr_action :: limit_action
  lr_enabled :: bool
  lr_warn_at :: "f64 option"
  lr_scope :: "limit_scope option"
  lr_escalation :: "escalation option"
  lr_escalated_until :: "instant option"
  lr_origin :: "string option"
  lr_expires_at :: "instant option"

definition rule_validate :: "limit_rule \<Rightarrow> limit_error option" where
  "rule_validate r =
     (case threshold_validate (lr_threshold r) of Some e \<Rightarrow> Some e
      | None \<Rightarrow>
     (case (case lr_escalation r of Some e \<Rightarrow> escalation_validate e | None \<Rightarrow> None) of
        Some e \<Rightarrow> Some e
      | None \<Rightarrow>
     (case (case lr_warn_at r of
              Some w \<Rightarrow> if \<not> (is_finite w \<and> 0 < w \<and> w < 1) then Some (BadWarnAt w) else None
            | None \<Rightarrow> None) of
        Some e \<Rightarrow> Some e
      | None \<Rightarrow>
     (case lr_scope r of
        Some s \<Rightarrow> if str_trim (scope_value s) = [] then Some (BlankScope (scope_kind_str s)) else None
      | None \<Rightarrow> None))))"

definition throttle_start :: "limit_rule \<Rightarrow> f64" where
  "throttle_start r = (case lr_warn_at r of
     Some w \<Rightarrow> if is_finite w \<and> 0 < w \<and> w < 1 then w else DEFAULT_THROTTLE_START
   | None \<Rightarrow> DEFAULT_THROTTLE_START)"

definition effective_action_at :: "limit_rule \<Rightarrow> instant \<Rightarrow> limit_action" where
  "effective_action_at r now = (case (lr_escalation r, lr_escalated_until r) of
     (Some e, Some until) \<Rightarrow> if now < until then escalate_to e else lr_action r
   | _ \<Rightarrow> lr_action r)"

definition is_active_at :: "limit_rule \<Rightarrow> instant \<Rightarrow> bool" where
  "is_active_at r now \<longleftrightarrow>
     lr_enabled r \<and> (case lr_expires_at r of None \<Rightarrow> True | Some e \<Rightarrow> now < e)"

definition nominal_threshold :: "limit_rule \<Rightarrow> f64" where
  "nominal_threshold r = (case threshold_fixed (lr_threshold r) of Some v \<Rightarrow> v | None \<Rightarrow> PInf)"

section \<open>Status\<close>

record cost_evidence =
  priced_calls :: int
  unpriced_calls :: int
  imputed_cost_usd :: f64
  client_reported_cost_usd :: f64
  unpriceable :: bool

definition evidence_estimated :: "cost_evidence \<Rightarrow> bool" where
  "evidence_estimated e \<longleftrightarrow> 0 < unpriced_calls e"

record limit_status =
  ls_rule_id :: string
  ls_project_id :: string
  ls_metric :: limit_metric
  ls_window :: limit_window
  ls_action :: limit_action
  ls_current :: f64
  ls_threshold :: f64
  ls_breached :: bool
  ls_ratio :: f64
  ls_warn_at :: "f64 option"
  ls_warning :: bool
  ls_scope :: "limit_scope option"
  ls_basis :: threshold_basis
  ls_cost_evidence :: "cost_evidence option"
  ls_shed_fraction :: f64
  ls_shedding :: bool

definition usage_ratio :: "f64 \<Rightarrow> f64 \<Rightarrow> f64" where
  "usage_ratio current thr = (if 0 < thr then current / thr else PInf)"

definition shed_fraction_of :: "limit_rule \<Rightarrow> limit_action \<Rightarrow> bool \<Rightarrow> f64 \<Rightarrow> f64" where
  "shed_fraction_of r action breached ratio =
     (if \<not> action_sheds action then 0
      else if breached then 1
      else let start = throttle_start r in fclamp ((ratio - start) / (1 - start)) 0 1)"

definition evaluate_resolved_at :: "limit_rule \<Rightarrow> f64 \<Rightarrow> f64 \<Rightarrow> threshold_basis \<Rightarrow> cost_evidence option
    \<Rightarrow> instant \<Rightarrow> limit_status" where
  "evaluate_resolved_at r current thr basis evidence now =
     (let action = effective_action_at r now;
          ratio = usage_ratio current thr;
          breached = (thr \<le> current);
          warning = (\<not> breached \<and> (case lr_warn_at r of Some w \<Rightarrow> w \<le> ratio | None \<Rightarrow> False))
      in \<lparr>ls_rule_id = lr_id r, ls_project_id = lr_project_id r, ls_metric = lr_metric r,
          ls_window = lr_window r, ls_action = action, ls_current = current, ls_threshold = thr,
          ls_breached = breached, ls_ratio = ratio, ls_warn_at = lr_warn_at r, ls_warning = warning,
          ls_scope = lr_scope r, ls_basis = basis, ls_cost_evidence = evidence,
          ls_shed_fraction = shed_fraction_of r action breached ratio, ls_shedding = False\<rparr>)"

definition evaluate_with_evidence :: "limit_rule \<Rightarrow> f64 \<Rightarrow> cost_evidence option \<Rightarrow> instant
    \<Rightarrow> limit_status" where
  "evaluate_with_evidence r current evidence now =
     (let (thr, basis) = threshold_resolve (lr_threshold r) None
      in evaluate_resolved_at r current thr basis evidence now)"

definition status_unpriceable :: "limit_status \<Rightarrow> bool" where
  "status_unpriceable st = (case ls_cost_evidence st of Some e \<Rightarrow> unpriceable e | None \<Rightarrow> False)"

definition rejects_ingest :: "limit_status \<Rightarrow> bool" where
  "rejects_ingest st \<longleftrightarrow> action_enforces (ls_action st) \<and> (ls_breached st \<or> status_unpriceable st)"

definition status_inert :: "limit_status \<Rightarrow> bool" where
  "status_inert st \<longleftrightarrow> tb_kind (ls_basis st) = TkUnknown"

definition status_estimated :: "limit_status \<Rightarrow> bool" where
  "status_estimated st = (case ls_cost_evidence st of Some e \<Rightarrow> evidence_estimated e | None \<Rightarrow> False)"

definition scope_tag :: "limit_status \<Rightarrow> string" where
  "scope_tag st = (case ls_scope st of None \<Rightarrow> ''all'' | Some s \<Rightarrow> scope_label s)"

subsection \<open>The shed lottery\<close>

definition fnv_offset :: "64 word" where "fnv_offset = 0xcbf29ce484222325"
definition fnv_prime :: "64 word" where "fnv_prime = 0x1000000001b3"

definition fnv_step :: "64 word \<Rightarrow> char \<Rightarrow> 64 word" where
  "fnv_step h c = (h XOR of_nat (of_char c)) * fnv_prime"

definition splitmix :: "64 word \<Rightarrow> 64 word" where
  "splitmix h0 =
     (let h1 = (h0 XOR drop_bit 30 h0) * 0xbf58476d1ce4e5b9;
          h2 = (h1 XOR drop_bit 27 h1) * 0x94d049bb133111eb
      in h2 XOR drop_bit 31 h2)"

definition shed_hash :: "string \<Rightarrow> string \<Rightarrow> 64 word" where
  "shed_hash rule_id event_id =
     splitmix (foldl fnv_step fnv_offset (rule_id @ [CHR 0x1F] @ event_id))"

definition shed_ticket :: "string \<Rightarrow> string \<Rightarrow> f64" where
  "shed_ticket rule_id event_id =
     f64_of_int (uint (drop_bit 11 (shed_hash rule_id event_id))) / f64_of_int (2 ^ 53)"

definition status_sheds :: "limit_status \<Rightarrow> string \<Rightarrow> bool" where
  "status_sheds st event_id \<longleftrightarrow> \<not> ls_breached st \<and> 0 < ls_shed_fraction st
     \<and> shed_ticket (ls_rule_id st) event_id < ls_shed_fraction st"

definition status_retry_after_secs :: "limit_status \<Rightarrow> nat" where
  "status_retry_after_secs st =
     (if ls_breached st \<or> status_unpriceable st then window_retry_after_secs (ls_window st)
      else 1 + f64_to_u64 (fceil (f64_of_int 14 * fclamp (ls_shed_fraction st) 0 1)))"

section \<open>The interval of ratios\<close>

lemma f64_div_ge_1: "0 < b \<Longrightarrow> Fin b \<le> x \<Longrightarrow> Fin 1 \<le> x / Fin b"
  by (cases x) (auto intro!: rnd_ge_exact)

text \<open>
  Two neighbouring doubles differ by at least one part in \<open>2 ^ 53\<close> of the larger one, so a value
  below the threshold has a ratio that still rounds below one.
\<close>

lemma representable_ratio:
  assumes "representable a" "representable b" "0 \<le> a" "a < b"
  shows "a / b \<le> 1 - 1 / 2 ^ 53"
proof -
  obtain n f where a: "a = of_int n * 2 powi f" and n: "\<bar>n\<bar> < 2 ^ 53"
    using assms(1) unfolding representable_def by blast
  obtain m e where b: "b = of_int m * 2 powi e" and m: "\<bar>m\<bar> < 2 ^ 53"
    using assms(2) unfolding representable_def by blast
  have m': "(of_int m :: rat) \<le> 2 ^ 53 - 1" using m by (simp add: of_int_le_iff [of m "2 ^ 53 - 1", where 'a = rat, simplified])
  have n': "(of_int n :: rat) \<le> 2 ^ 53 - 1" using n by (simp add: of_int_le_iff [of n "2 ^ 53 - 1", where 'a = rat, simplified])
  have b0: "0 < b" using assms by linarith
  have step: "2 powi k \<le> b - a" if "a = of_int i * 2 powi k" "b = of_int j * 2 powi k" for i j k
  proof -
    have "(of_int i :: rat) < of_int j" using assms(4) that by simp
    then have "(of_int (i + 1) :: rat) \<le> of_int j" by (simp only: of_int_less_iff of_int_le_iff)
    then have "(1 :: rat) \<le> of_int j - of_int i" by simp
    then have "1 * 2 powi k \<le> (of_int j - of_int i) * (2 powi k :: rat)"
      by (rule mult_right_mono) simp
    then show ?thesis by (simp add: that left_diff_distrib)
  qed
  have rescale: "of_int i * 2 powi k = of_int (i * 2 ^ nat (k - l)) * (2 powi l :: rat)" if "l \<le> k" for i k l
  proof -
    have "(2 powi k :: rat) = 2 powi (k - l) * 2 powi l" by (simp add: powi_two_add [symmetric])
    then show ?thesis using powi_two_int [of "k - l"] that by simp
  qed
  have gap: "b \<le> 2 ^ 53 * (b - a)" if "2 powi k \<le> b - a" "b \<le> 2 ^ 53 * 2 powi k" for k
  proof -
    have "2 ^ 53 * 2 powi k \<le> 2 ^ 53 * (b - a)" using that(1) by (rule mult_left_mono) simp
    with that(2) show ?thesis by (rule order_trans)
  qed
  have "b \<le> 2 ^ 53 * (b - a)"
  proof (cases "e \<le> f")
    case True
    have "2 powi e \<le> b - a" using step [of _ e m] rescale [OF True, of n] a b by blast
    moreover have "b \<le> 2 ^ 53 * 2 powi e"
      unfolding b using m' by (intro mult_right_mono) simp_all
    ultimately show ?thesis by (rule gap)
  next
    case False
    then have fe: "f \<le> e" by simp
    have gf: "2 powi f \<le> b - a" using step [of n f] rescale [OF fe, of m] a b by blast
    show ?thesis
    proof (cases "b \<le> 2 ^ 53 * 2 powi f")
      case True
      with gf show ?thesis by (rule gap)
    next
      case large: False
      have "a \<le> (2 ^ 53 - 1) * 2 powi f"
        unfolding a using n' by (intro mult_right_mono) simp_all
      then show ?thesis using large by (simp add: algebra_simps)
    qed
  qed
  then show ?thesis using b0 by (simp add: field_simps)
qed

lemma f64_div_less_1:
  assumes "wf64 x" "wf64 (Fin b)" "Fin 0 \<le> x" "x < Fin b"
  shows "x / Fin b < Fin 1"
proof -
  obtain a where x: "x = Fin a" using assms by (cases x) (auto simp: less_f64_def)
  have "a / b \<le> 1 - 1 / 2 ^ 53" using assms x by (intro representable_ratio) auto
  moreover have "representable (1 - 1 / 2 ^ 53)"
    unfolding representable_def
    by (rule exI [of _ "2 ^ 53 - 1"], rule exI [of _ "-53"]) (simp add: power_int_def power_one_over)
  ultimately have "rnd (a / b) \<le> Fin (1 - 1 / 2 ^ 53)" by (intro rnd_le_exact)
  moreover have "b \<noteq> 0" using assms x by auto
  ultimately show ?thesis using x by (auto intro: f64_le_less_trans)
qed

section \<open>The shed lottery and its pressure\<close>

lemma f64_of_int_2_53: "f64_of_int (2 ^ 53) = Fin (2 ^ 53)"
proof -
  have "rnd (of_int (2 ^ 53)) = Fin (of_int (2 ^ 53))"
    by (rule rnd_dyadic [where m = 1 and e = 53]) simp_all
  then show ?thesis by (simp add: f64_of_int_def)
qed

lemma ticket_grid:
  "\<exists>k. 0 \<le> k \<and> k < 2 ^ 53 \<and> shed_ticket r e = Fin (of_int k / 2 ^ 53)"
proof -
  define k where "k = uint (drop_bit 11 (shed_hash r e))"
  have "uint (shed_hash r e) < 2 ^ 64" using uint_lt2p [of "shed_hash r e"] by simp
  moreover have "k = uint (shed_hash r e) div 2 ^ 11"
    by (simp add: k_def drop_bit_eq_div uint_div)
  ultimately have k2: "k < 2 ^ 53" by simp
  have k1: "0 \<le> k" unfolding k_def by (rule unsigned_greater_eq)
  note k = k1 k2
  have "of_int k / 2 ^ 53 = (of_int k * 2 powi (- 53) :: rat)"
    by (simp only: power_int_minus power_int_numeral divide_inverse)
  then have "rnd (of_int k / 2 ^ 53) = Fin (of_int k / 2 ^ 53)"
    by (rule rnd_dyadic) (use k in simp_all)
  moreover have "shed_ticket r e = f64_of_int k / f64_of_int (2 ^ 53)"
    by (simp only: shed_ticket_def k_def)
  moreover have "f64_of_int k = Fin (of_int k)" using k by (simp add: f64_of_int_exact)
  ultimately have "shed_ticket r e = Fin (of_int k / 2 ^ 53)"
    unfolding f64_of_int_2_53 by simp
  with k show ?thesis by blast
qed

text \<open>
  The lottery ticket of every event under every rule is a point of the grid of multiples of
  \<open>2 ^ -53\<close> in \<open>[0, 1)\<close>: the two roundings of the last line never reach one.
\<close>

theorem shed_ticket_grid:
  "0 \<le> shed_ticket rule_id event_id \<and> shed_ticket rule_id event_id < 1
   \<and> (\<exists>k. 0 \<le> k \<and> k < 2 ^ 53 \<and> shed_ticket rule_id event_id = Fin (of_int k / 2 ^ 53))"
proof -
  obtain k where k: "0 \<le> k" "k < 2 ^ 53" "shed_ticket rule_id event_id = Fin (of_int k / 2 ^ 53)"
    using ticket_grid by blast
  then have "(of_int k :: rat) < of_int (2 ^ 53)" by (simp only: of_int_less_iff)
  with k show ?thesis by auto
qed

lemma ticket_less_1: "shed_ticket r e < Fin 1"
proof -
  obtain k where k: "k < 2 ^ 53" "shed_ticket r e = Fin (of_int k / 2 ^ 53)"
    using ticket_grid by blast
  then have "(of_int k :: rat) < of_int (2 ^ 53)" by (simp only: of_int_less_iff)
  with k show ?thesis by simp
qed

text \<open>What a rule carries: its fractions are doubles.\<close>

definition wf_rule :: "limit_rule \<Rightarrow> bool" where
  "wf_rule r \<longleftrightarrow> (case lr_warn_at r of Some w \<Rightarrow> wf64 w | None \<Rightarrow> True)"

lemma DEFAULT_THROTTLE_START_range: "\<exists>s. DEFAULT_THROTTLE_START = Fin s \<and> representable s \<and> 0 < s \<and> s < 1"
proof -
  have rep: "representable (1 / 2)" "representable (7 / 8)"
    unfolding representable_def
    by (rule exI [of _ 1], rule exI [of _ "-1"], simp add: power_int_def)
       (rule exI [of _ 7], rule exI [of _ "-3"], simp add: power_int_def power_one_over)
  have "Fin (1 / 2) \<le> DEFAULT_THROTTLE_START" "DEFAULT_THROTTLE_START \<le> Fin (7 / 8)"
    unfolding DEFAULT_THROTTLE_START_def
    by (rule rnd_ge_exact [OF rep(1)], simp) (rule rnd_le_exact [OF rep(2)], simp)
  moreover have "wf64 DEFAULT_THROTTLE_START" by (simp add: DEFAULT_THROTTLE_START_def)
  moreover obtain s where s: "DEFAULT_THROTTLE_START = Fin s"
    using calculation(1,2) by (cases DEFAULT_THROTTLE_START) auto
  ultimately have "representable s" "1 / 2 \<le> s" "s \<le> 7 / 8"
    unfolding s by (simp_all only: wf64_simps less_eq_f64.simps)
  then show ?thesis by (intro exI [of _ s] conjI s) linarith+
qed

lemma throttle_start_range:
  "wf_rule r \<Longrightarrow> \<exists>s. throttle_start r = Fin s \<and> representable s \<and> 0 < s \<and> s < 1"
  using DEFAULT_THROTTLE_START_range
  by (auto simp: throttle_start_def wf_rule_def is_finite_iff split: option.splits)

text \<open>The denominator of the ramp, \<open>1 - start\<close>, is a positive double.\<close>

lemma one_minus_pos:
  assumes "representable s" "0 < s" "s < 1"
  shows "\<exists>c. Fin 1 - Fin s = Fin c \<and> 0 < c"
proof -
  obtain m e where s: "s = of_int m * 2 powi e" and e: "-1074 \<le> e"
    using assms(1) unfolding representable_def by blast
  have neg: "e < 0"
  proof (rule ccontr)
    assume "\<not> e < 0"
    then have "s = of_int (m * 2 ^ nat e)" using s powi_two_int [of e] by simp
    with assms(2,3) show False by (simp only: of_int_0_less_iff of_int_less_1_iff)
  qed
  have one: "(1 :: rat) = of_int (2 ^ nat (- e)) * 2 powi e"
  proof -
    have "(2 powi (- e) :: rat) * 2 powi e = 1" by (simp add: powi_two_add [symmetric])
    then show ?thesis using neg powi_two_int [of "- e"] by simp
  qed
  have "(of_int m :: rat) * 2 powi e < of_int (2 ^ nat (- e)) * 2 powi e"
    using assms(3) s one by simp
  then have "(of_int m :: rat) < of_int (2 ^ nat (- e))" by (simp only: mult_less_cancel_right_pos zero_less_power_int zero_less_numeral)
  then have "m + 1 \<le> 2 ^ nat (- e)" by (simp only: of_int_less_iff)
  then have "(of_int (m + 1) :: rat) \<le> of_int (2 ^ nat (- e))" by (simp only: of_int_le_iff)
  then have "(1 :: rat) \<le> of_int (2 ^ nat (- e)) - of_int m" by simp
  then have "1 * 2 powi e \<le> (of_int (2 ^ nat (- e)) - of_int m) * (2 powi e :: rat)"
    by (rule mult_right_mono) simp
  then have ge: "2 powi e \<le> 1 - s" using s one by (simp only: left_diff_distrib mult_1)
  have rep: "representable (2 powi e)"
    unfolding representable_def using e neg by (intro exI [of _ 1] exI [of _ e]) auto
  have "Fin (2 powi e) \<le> rnd (1 - s)" by (rule rnd_ge_exact [OF rep ge])
  moreover have "rnd (1 - s) \<le> Fin 1" using assms by (intro rnd_le_exact) simp_all
  moreover have "(0 :: rat) < 2 powi e" by simp
  moreover have "Fin 1 - Fin s = rnd (1 - s)" by (simp add: minus_f64_def)
  ultimately show ?thesis
    by (cases "rnd (1 - s)") (auto intro: less_le_trans [of 0 "2 powi e"])
qed

section \<open>What an evaluation means\<close>

lemma usage_ratio_not_NaN: "Fin 0 \<le> x \<Longrightarrow> x < y \<Longrightarrow> usage_ratio x y \<noteq> NaN \<and> Fin 0 \<le> usage_ratio x y"
  by (cases x; cases y) (auto simp: usage_ratio_def intro: rnd_nonneg)

lemma usage_ratio_mono:
  "Fin 0 \<le> x \<Longrightarrow> x \<le> y \<Longrightarrow> y < thr \<Longrightarrow> usage_ratio x thr \<le> usage_ratio y thr"
  by (cases x; cases y; cases thr) (auto simp: usage_ratio_def intro!: rnd_mono divide_right_mono)

lemma ramp_mono:
  assumes "wf_rule r" and "x \<le> y"
  shows "fclamp ((x - throttle_start r) / (1 - throttle_start r)) 0 1
       \<le> fclamp ((y - throttle_start r) / (1 - throttle_start r)) 0 1"
proof -
  obtain s where s: "throttle_start r = Fin s" "representable s" "0 < s" "s < 1"
    using throttle_start_range [OF assms(1)] by blast
  obtain c where c: "Fin 1 - Fin s = Fin c" "0 < c" using one_minus_pos [OF s(2-4)] by blast
  have "x - Fin s \<le> y - Fin s" unfolding minus_f64_def uminus_f64.simps using assms(2) by (rule f64_add_mono)
  with c(2) have "(x - Fin s) / Fin c \<le> (y - Fin s) / Fin c" by (rule f64_div_mono)
  then show ?thesis by (intro fclamp_mono) (simp_all add: s c)
qed

lemma ramp_range:
  assumes "wf_rule r" and "x \<noteq> NaN"
  shows "Fin 0 \<le> fclamp ((x - throttle_start r) / (1 - throttle_start r)) 0 1"
    and "fclamp ((x - throttle_start r) / (1 - throttle_start r)) 0 1 \<le> Fin 1"
proof -
  obtain s where s: "throttle_start r = Fin s" "representable s" "0 < s" "s < 1"
    using throttle_start_range [OF assms(1)] by blast
  obtain c where c: "Fin 1 - Fin s = Fin c" "0 < c" using one_minus_pos [OF s(2-4)] by blast
  have "x - Fin s \<noteq> NaN" using assms(2) by (cases x) (auto simp: minus_f64_def)
  then have "(x - Fin s) / Fin c \<noteq> NaN" using c(2) by (cases "x - Fin s") auto
  then show "Fin 0 \<le> fclamp ((x - throttle_start r) / (1 - throttle_start r)) 0 1"
    and "fclamp ((x - throttle_start r) / (1 - throttle_start r)) 0 1 \<le> Fin 1"
    using fclamp_range [of "(x - Fin s) / Fin c" "Fin 0" "Fin 1"] by (simp_all add: s c)
qed

lemma shed_fraction_range:
  assumes "wf_rule r" "ratio \<noteq> NaN"
  shows "Fin 0 \<le> shed_fraction_of r a b ratio \<and> shed_fraction_of r a b ratio \<le> Fin 1"
  using ramp_range [OF assms] by (simp add: shed_fraction_of_def Let_def)

lemma eval_simps:
  "ls_rule_id (evaluate_resolved_at r x t b ev now) = lr_id r"
  "ls_action (evaluate_resolved_at r x t b ev now) = effective_action_at r now"
  "ls_breached (evaluate_resolved_at r x t b ev now) \<longleftrightarrow> t \<le> x"
  "ls_ratio (evaluate_resolved_at r x t b ev now) = usage_ratio x t"
  "ls_window (evaluate_resolved_at r x t b ev now) = lr_window r"
  "ls_basis (evaluate_resolved_at r x t b ev now) = b"
  "ls_cost_evidence (evaluate_resolved_at r x t b ev now) = ev"
  "ls_warning (evaluate_resolved_at r x t b ev now)
     \<longleftrightarrow> \<not> t \<le> x \<and> (case lr_warn_at r of Some w \<Rightarrow> w \<le> usage_ratio x t | None \<Rightarrow> False)"
  "ls_shed_fraction (evaluate_resolved_at r x t b ev now)
     = shed_fraction_of r (effective_action_at r now) (t \<le> x) (usage_ratio x t)"
  by (simp_all add: evaluate_resolved_at_def Let_def cong: option.case_cong)

text \<open>
  Evaluating a rule against a threshold above zero. The status is breached exactly when its
  ratio has reached one, so the rounding of the division never reports a cap at its limit that is
  not, nor the converse; a warning is raised only below the limit and at or above the rule's own
  fraction of it; and the shed fraction is a number in \<open>[0, 1]\<close> that is zero for rules that do
  not throttle and one for a breached throttle.
\<close>

theorem evaluation_meaning:
  assumes "wf_rule r" and "wf64 current" and "0 \<le> current"
    and "wf64 thr" and "is_finite thr" and "0 < thr"
    and st_def: "st = evaluate_resolved_at r current thr basis evidence now"
  shows "(ls_breached st \<longleftrightarrow> 1 \<le> ls_ratio st)
    \<and> (ls_warning st \<longleftrightarrow> ls_ratio st < 1 \<and> (\<exists>w. lr_warn_at r = Some w \<and> w \<le> ls_ratio st))
    \<and> 0 \<le> ls_shed_fraction st \<and> ls_shed_fraction st \<le> 1
    \<and> (ls_action st \<noteq> Throttle \<longrightarrow> ls_shed_fraction st = 0)
    \<and> (ls_action st = Throttle \<and> ls_breached st \<longrightarrow> ls_shed_fraction st = 1)"
proof -
  obtain b where b: "thr = Fin b" "0 < b" using assms by (auto simp: is_finite_iff)
  have c: "current \<noteq> NaN" using assms(3) by auto
  have ratio: "usage_ratio current thr = current / Fin b" using b by (simp add: usage_ratio_def)
  have ge: "Fin 1 \<le> usage_ratio current thr" if "thr \<le> current"
    using f64_div_ge_1 [OF b(2)] that b ratio by simp
  have lt: "usage_ratio current thr < Fin 1" if "\<not> thr \<le> current"
    using f64_div_less_1 [of current b] that assms(2-4) b c ratio by (simp add: f64_not_le)
  have nan: "usage_ratio current thr \<noteq> NaN" using ge lt by (cases "thr \<le> current") auto
  have br: "thr \<le> current \<longleftrightarrow> Fin 1 \<le> usage_ratio current thr"
    using ge lt by (auto simp: less_f64_def)
  have below: "\<not> thr \<le> current \<longleftrightarrow> usage_ratio current thr < Fin 1"
    using ge lt by (auto simp: less_f64_def)
  show ?thesis
    using shed_fraction_range [OF assms(1) nan] br below
    by (auto simp: st_def eval_simps shed_fraction_of_def action_sheds_def split: option.splits)
qed

text \<open>
  Pressure is monotone. When usage under a rule grows and its threshold, basis, evidence and
  action stay the same, an event that was turned away, by a hard stop or by the shed lottery, is
  still turned away: raising usage never lets a refused event back in.
\<close>

theorem refusals_monotone:
  assumes "wf_rule r" and "0 \<le> x" and "x \<le> y" and "0 < thr"
    and "rejects_ingest (evaluate_resolved_at r x thr basis evidence now)
         \<or> status_sheds (evaluate_resolved_at r x thr basis evidence now) event_id"
  shows "rejects_ingest (evaluate_resolved_at r y thr basis evidence now)
         \<or> status_sheds (evaluate_resolved_at r y thr basis evidence now) event_id"
proof (cases "thr \<le> y")
  case True
  have "action_enforces (effective_action_at r now)"
    using assms(5)
    by (auto simp: rejects_ingest_def status_sheds_def eval_simps shed_fraction_of_def
        action_sheds_def action_enforces_def split: if_splits)
  with True show ?thesis by (simp add: rejects_ingest_def eval_simps)
next
  case False
  then have nx: "\<not> thr \<le> x" using assms(3) f64_le_trans by blast
  have "y < thr" using False assms(3,4) by (cases y; cases thr; cases x) (auto simp: less_f64_def)
  then have m: "shed_fraction_of r a False (usage_ratio x thr) \<le> shed_fraction_of r a False (usage_ratio y thr)" for a
    using ramp_mono [OF assms(1) usage_ratio_mono [of x y thr]] assms(2,3)
    by (simp add: shed_fraction_of_def Let_def)
  from assms(5) show ?thesis
    unfolding rejects_ingest_def status_sheds_def status_unpriceable_def eval_simps
    using False nx f64_less_le_trans [OF _ m] by (simp only: simp_thms) metis
qed

text \<open>
  A revenue-share rule whose revenue could not be measured is inert for every finite usage: it
  never sheds, and it rejects only where the cost of the window itself cannot be priced.
\<close>

theorem unmeasured_revenue_inert:
  assumes "wf_rule r" and "lr_threshold r = RevenueShare pct dmn"
    and "is_finite current"
    and "revenue = None \<or> (\<exists>v. revenue = Some v \<and> \<not> is_finite v)"
    and st_def: "st = (case threshold_resolve (lr_threshold r) revenue of
                   (thr, basis) \<Rightarrow> evaluate_resolved_at r current thr basis evidence now)"
  shows "status_inert st \<and> \<not> ls_breached st \<and> \<not> status_sheds st event_id
    \<and> (rejects_ingest st \<longleftrightarrow> action_enforces (effective_action_at r now)
         \<and> (\<exists>e. evidence = Some e \<and> unpriceable e))"
proof -
  obtain a where a: "current = Fin a" using assms by (auto simp: is_finite_iff)
  obtain s where s: "throttle_start r = Fin s" "representable s" "0 < s" "s < 1"
    using throttle_start_range [OF assms(1)] by blast
  have ratio: "usage_ratio current PInf = Fin 0" by (simp add: a usage_ratio_def)
  have "fclamp ((Fin 0 - Fin s) / (Fin 1 - Fin s)) (Fin 0) (Fin 1) \<le> Fin 0"
  proof -
    obtain c where c: "Fin 1 - Fin s = Fin c" "0 < c" using one_minus_pos [OF s(2-4)] by blast
    have "Fin 0 - Fin s = Fin (- s)"
      using s(2) by (simp add: minus_f64_def rnd_exact representable_minus)
    moreover have "rnd (- s / c) \<le> Fin 0" using s c by (intro rnd_le_exact) (simp_all add: field_simps)
    ultimately show ?thesis using c by (cases "rnd (- s / c)") (auto simp: fclamp_def)
  qed
  then have idle: "\<not> Fin 0 < shed_fraction_of r act False (Fin 0)" for act
    using s(1) by (auto simp: shed_fraction_of_def Let_def less_f64_def)
  have st: "st = evaluate_resolved_at r current PInf
      \<lparr>tb_kind = TkUnknown, tb_revenue_usd = None, tb_pct = Some pct, tb_dimension = Some dmn\<rparr>
      evidence now"
    using assms(4) unfolding st_def assms(2) by (auto simp: threshold_resolve_def)
  show ?thesis
    using idle unfolding st
    by (auto simp: status_inert_def status_sheds_def rejects_ingest_def status_unpriceable_def
        eval_simps ratio [unfolded a] a split: option.splits)
qed

lemma fceil_mono: "x \<le> y \<Longrightarrow> fceil x \<le> fceil y"
  by (cases x; cases y) (auto intro: ceiling_mono)

lemma f64_to_u64_mono:
  assumes "x \<le> y"
  shows "f64_to_u64 x \<le> f64_to_u64 y"
proof (cases x)
  case (Fin a)
  show ?thesis
  proof (cases y)
    case (Fin b)
    then have "nat \<lfloor>a\<rfloor> \<le> nat \<lfloor>b\<rfloor>" using assms \<open>x = Fin a\<close> by (simp add: floor_mono nat_mono)
    then show ?thesis unfolding \<open>x = Fin a\<close> \<open>y = Fin b\<close> f64_to_u64.simps by (rule min.mono) simp
  qed (use assms Fin in auto)
qed (use assms in \<open>cases y; auto\<close>)+

lemma shed_pause_mono:
  assumes le: "x \<le> y"
  shows "f64_to_u64 (fceil (f64_of_int 14 * fclamp x 0 1))
       \<le> f64_to_u64 (fceil (f64_of_int 14 * fclamp y 0 1))"
proof -
  have fourteen: "f64_of_int 14 = Fin 14" by (simp add: f64_of_int_exact)
  have "\<exists>c. fclamp z (Fin 0) (Fin 1) = Fin c \<and> 0 \<le> c \<and> c \<le> 1" if "z \<noteq> NaN" for z
    using that by (cases z) (auto simp: fclamp_def less_f64_def)
  moreover have "x \<noteq> NaN" "y \<noteq> NaN" using le by auto
  ultimately obtain c d where c: "fclamp x (Fin 0) (Fin 1) = Fin c" "0 \<le> c" "c \<le> 1"
    and d: "fclamp y (Fin 0) (Fin 1) = Fin d" "0 \<le> d" "d \<le> 1" by metis
  have "Fin c \<le> Fin d" using fclamp_mono [OF le, of 0 1] by (simp add: c d)
  then have "rnd (14 * c) \<le> rnd (14 * d)" by (intro rnd_mono) simp
  then show ?thesis unfolding zero_f64_simps c d fourteen times_f64.simps
    by (intro f64_to_u64_mono fceil_mono)
qed

lemma shed_pause_top: "f64_to_u64 (fceil (f64_of_int 14 * fclamp x 0 1)) \<le> 14"
proof (cases "x = NaN")
  case True
  then show ?thesis by (simp add: fclamp_def f64_of_int_exact)
next
  case False
  then have "f64_to_u64 (fceil (f64_of_int 14 * fclamp x 0 1))
      \<le> f64_to_u64 (fceil (f64_of_int 14 * fclamp PInf 0 1))" by (intro shed_pause_mono) simp
  also have "f64_to_u64 (fceil (f64_of_int 14 * fclamp PInf 0 1)) = 14"
    using rnd_of_int [of 14] by (simp add: fclamp_def f64_of_int_exact less_f64_def)
  finally show ?thesis .
qed

lemma retry_after_bound:
  "1 \<le> status_retry_after_secs st" "status_retry_after_secs st \<le> 900"
  "\<not> ls_breached st \<Longrightarrow> \<not> status_unpriceable st \<Longrightarrow> status_retry_after_secs st \<le> 15"
  "ls_breached st \<or> status_unpriceable st \<Longrightarrow> 30 \<le> status_retry_after_secs st"
  using shed_pause_top [of "ls_shed_fraction st"]
  by (cases "ls_window st"; force simp: status_retry_after_secs_def)+

text \<open>
  The wait a refused caller is told. A graduated shed asks for between one and fifteen seconds
  and never for less as its pressure grows; a refusal that only the window can lift asks for the
  window's own pause, which is longer than any shed's.
\<close>

theorem retry_after_bounds:
  "1 \<le> status_retry_after_secs st \<and> status_retry_after_secs st \<le> 900
   \<and> (\<not> ls_breached st \<and> \<not> status_unpriceable st \<longrightarrow> status_retry_after_secs st \<le> 15)
   \<and> (ls_breached st \<or> status_unpriceable st \<longrightarrow> 30 \<le> status_retry_after_secs st)
   \<and> (\<forall>f. ls_shed_fraction st \<le> f \<longrightarrow>
        status_retry_after_secs st \<le> status_retry_after_secs (st\<lparr>ls_shed_fraction := f\<rparr>))"
  using retry_after_bound [of st] shed_pause_mono
  by (auto simp: status_retry_after_secs_def status_unpriceable_def)

text \<open>
  A scope is stored as a \<open>(kind, value)\<close> pair and read back: every scope survives, and only the
  pair written for a scope reads as it.
\<close>

theorem scope_parts_roundtrip:
  "scope_from_parts (scope_kind_str s) (scope_value s) = Some s
   \<and> (scope_from_parts kind v = Some s \<longleftrightarrow> kind = scope_kind_str s \<and> v = scope_value s)"
  by (cases s) (auto simp: scope_from_parts_def scope_kind_str_def)

text \<open>Reading a model name in canonical letters, with or without a provider prefix.\<close>

lemma canon_keeps: "list_all canon_char s \<Longrightarrow> to_ascii_lowercase s = s"
  by (induction s) (simp_all add: to_ascii_lowercase_def canon_char_def)

lemma canon_no: "list_all canon_char s \<Longrightarrow> CHR ''/'' \<notin> set s \<and> CHR ''@'' \<notin> set s"
  by (induction s) (auto simp: canon_char_def id_char_def is_ascii_alnum_def is_digit_def)

lemma trim_no_space: "list_all (\<lambda>c. \<not> is_space c) s \<Longrightarrow> str_trim s = s"
proof -
  have *: "dropWhile is_space t = t" if "list_all (\<lambda>c. \<not> is_space c) t" for t
    using that by (cases t) auto
  assume "list_all (\<lambda>c. \<not> is_space c) s"
  moreover from this have "list_all (\<lambda>c. \<not> is_space c) (rev s)" by (simp add: list_all_iff)
  ultimately show ?thesis by (simp add: str_trim_def *)
qed

lemma canon_no_space: "list_all canon_char s \<Longrightarrow> list_all (\<lambda>c. \<not> is_space c) s"
  by (auto simp: list_all_iff canon_not_space)

lemma family_bare:
  assumes "list_all canon_char v"
  shows "mi_family (canonicalize p v) = fst (split_date_suffix v)"
proof -
  have "split_once (CHR ''/'') v = None" "split_once (CHR ''@'') v = None"
    using canon_no [OF assms] by (simp_all add: str_simps)
  then show ?thesis
    by (simp add: canonicalize_def trim_no_space canon_no_space canon_keeps assms model_prefix_def
        split_lane_def case_prod_beta Let_def)
qed

lemma family_prefixed:
  assumes "list_all canon_char pre" "pre \<noteq> []" "list_all canon_char v" "v \<noteq> []"
  shows "mi_family (canonicalize p (pre @ ''/'' @ v)) = fst (split_date_suffix v)"
proof -
  have "str_trim (pre @ ''/'' @ v) = pre @ ''/'' @ v"
  proof (rule trim_no_space)
    have "\<not> is_space (CHR ''/'')" by (simp add: is_space_def)
    then show "list_all (\<lambda>c. \<not> is_space c) (pre @ ''/'' @ v)"
      using assms by (simp add: canon_no_space)
  qed
  moreover have "to_ascii_lowercase (pre @ ''/'' @ v) = pre @ ''/'' @ v"
    using canon_keeps [OF assms(1)] canon_keeps [OF assms(3)]
    by (simp add: to_ascii_lowercase_def lower_char_def)
  moreover have "model_prefix (pre @ ''/'' @ v) = (Some pre, v)"
    using split_once_append [of "CHR ''/''" pre v] canon_no [OF assms(1)] assms
    by (simp add: model_prefix_def trim_no_space canon_no_space)
  moreover have "split_once (CHR ''@'') v = None"
    using canon_no [OF assms(3)] by (simp add: str_simps)
  ultimately show ?thesis
    by (simp add: canonicalize_def split_lane_def case_prod_beta Let_def)
qed

text \<open>
  A cap on a model covers its dated releases and its provider-prefixed spellings. For a bare
  name in canonical letters with no date of its own, the same name with a date suffix, with a
  provider prefix, or both, falls under the cap, whatever provider the event reports.
\<close>

theorem model_scope_covers_releases:
  assumes "list_all canon_char v" and "v \<noteq> []" and "snd (split_date_suffix v) = None"
    and "list_all canon_char pre" and "pre \<noteq> []"
    and "list_all canon_char date" and "split_date_suffix (v @ ''-'' @ date) = (v, Some date)"
    and "sd_model d \<in> {v, v @ ''-'' @ date, pre @ ''/'' @ v, pre @ ''/'' @ v @ ''-'' @ date}"
  shows "scope_covers (ScModel v) d"
proof -
  have date: "list_all canon_char (v @ ''-'' @ date)"
    using assms(1,6) by (simp add: canon_char_def id_char_def lower_char_def)
  have "fst (split_date_suffix v) = v"
    using split_date_suffix_dated [of v v None] assms(3) split_date_suffix_dated [of v "fst (split_date_suffix v)" None]
    by (cases "split_date_suffix v") auto
  then have "mi_family (canonicalize (sd_provider d) (sd_model d)) = v"
    using assms(8) family_bare [OF assms(1)] family_bare [OF date]
      family_prefixed [OF assms(4,5,1,2)] family_prefixed [OF assms(4,5) date] assms(7) by auto
  moreover have "mi_family (canonicalize (sd_provider d) v) = v"
    using family_bare [OF assms(1)] \<open>fst (split_date_suffix v) = v\<close> by simp
  ultimately show ?thesis by simp
qed

section \<open>Witnesses\<close>

definition sample_rule :: limit_rule where
  "sample_rule = \<lparr>lr_id = ''r'', lr_project_id = ''p'', lr_metric = CostUsd, lr_window = Day,
     lr_threshold = RevenueShare (Fin 80) TdCustomer, lr_action = Throttle, lr_enabled = True,
     lr_warn_at = Some (Fin (1 / 2)), lr_scope = None, lr_escalation = None,
     lr_escalated_until = None, lr_origin = None, lr_expires_at = None\<rparr>"

lemma sample_rule_wf: "wf_rule sample_rule"
proof -
  have "representable (1 / 2)"
    unfolding representable_def by (rule exI [of _ 1], rule exI [of _ "-1"], simp add: power_int_def)
  then show ?thesis by (simp add: wf_rule_def sample_rule_def)
qed

lemma sample_rule_fields:
  "lr_threshold sample_rule = RevenueShare (Fin 80) TdCustomer" "lr_action sample_rule = Throttle"
  "lr_escalation sample_rule = None"
  by (simp_all add: sample_rule_def)

lemma representable_8: "representable 8"
  using representable_of_int [of 8] by simp

text \<open>The hash on the fixtures of \<^verbatim>\<open>clients/contract/fixtures/limits.json\<close>, \<open>shed_lottery\<close>.\<close>

lemma shed_hash_fixtures:
  "uint (drop_bit 11 (shed_hash ''rule-hot'' ''ev-1'')) = 41495979473218"
  "uint (drop_bit 11 (shed_hash ''rule-hot'' ''ev-2'')) = 2680583677486234"
  "uint (drop_bit 11 (shed_hash ''rule-hot'' ''ev-3'')) = 4397709456888693"
  "uint (drop_bit 11 (shed_hash '''' ''ev-1'')) = 5643561205329252"
  by (simp_all add: shed_hash_def splitmix_def fnv_step_def fnv_offset_def fnv_prime_def)

lemma evaluation_meaning_witness:
  "ls_breached (evaluate_resolved_at sample_rule (Fin 8) (Fin 8) basis_fixed None 0)
   \<and> ls_shed_fraction (evaluate_resolved_at sample_rule (Fin 8) (Fin 8) basis_fixed None 0) = 1"
proof -
  have "ls_action (evaluate_resolved_at sample_rule (Fin 8) (Fin 8) basis_fixed None 0) = Throttle"
    "ls_breached (evaluate_resolved_at sample_rule (Fin 8) (Fin 8) basis_fixed None 0)"
    by (simp_all add: eval_simps effective_action_at_def sample_rule_def)
  then show ?thesis
    using evaluation_meaning [of sample_rule "Fin 8" "Fin 8" _ basis_fixed None 0]
    by (simp add: sample_rule_wf representable_8)
qed

lemma refusals_monotone_witness:
  "rejects_ingest (evaluate_resolved_at sample_rule (Fin 9) (Fin 8) basis_fixed None 0)
   \<or> status_sheds (evaluate_resolved_at sample_rule (Fin 9) (Fin 8) basis_fixed None 0) ''e1''"
  by (rule refusals_monotone [where x = "Fin 8"])
     (simp_all add: sample_rule_wf sample_rule_fields rejects_ingest_def eval_simps
       effective_action_at_def action_enforces_def)

lemma unmeasured_revenue_inert_witness:
  "\<not> status_sheds (case threshold_resolve (lr_threshold sample_rule) None of
      (thr, basis) \<Rightarrow> evaluate_resolved_at sample_rule (Fin 8) thr basis None 0) ''e1''"
  using unmeasured_revenue_inert [of sample_rule "Fin 80" TdCustomer "Fin 8" None _ None 0 "''e1''"]
  by (simp add: sample_rule_wf sample_rule_fields)

lemma model_scope_covers_releases_witness:
  "scope_covers (ScModel ''gpt-4o'') (scope_dims_new ''azure'' ''openai/gpt-4o-2024-08-06'' None)"
  by (rule model_scope_covers_releases [where pre = "''openai''" and date = "''2024-08-06''"])
     (simp_all add: scope_dims_new_def canon_char_def id_char_def is_ascii_alnum_def is_digit_def
       lower_char_def split_date_suffix_def all_digits_def ProviderModel.slice_def)

lemma retry_after_bounds_witness:
  "30 \<le> status_retry_after_secs
     (evaluate_resolved_at sample_rule (Fin 8) (Fin 8) basis_fixed None 0)"
proof -
  have "ls_breached (evaluate_resolved_at sample_rule (Fin 8) (Fin 8) basis_fixed None 0)"
    by (simp add: eval_simps)
  then show ?thesis
    using retry_after_bounds
      [of "evaluate_resolved_at sample_rule (Fin 8) (Fin 8) basis_fixed None 0"] by blast
qed

end
