(* ===== verification/UsageLedger.thy ===== *)
theory UsageLedger
  imports LimitRules
begin

text \<open>
  The usage snapshot of a rolling window and the admission decision of
  \<^verbatim>\<open>crates/store/src/lib.rs\<close>: what one event contributes, how the cost of unpriced calls is
  imputed, how a rule is evaluated against a snapshot, and the loop that decides whether a candidate
  event is admitted. Counters are 64-bit words, read as signed where the code compares or converts
  them; a release build wraps on overflow.
\<close>

section \<open>Events and errors\<close>

type_synonym i64 = "64 word"
type_synonym u64 = "64 word"

datatype store_error = SeSqlite | SeConflict string | SeUnsupported string | SeOther string

text \<open>
  A JSON value under a key of an event's \<^verbatim>\<open>metadata\<close>: strings carry their text, objects and
  arrays the text between their brackets; numbers and booleans are only told apart from the rest.
  The metadata itself is an object, null, or a scalar or array its sender put there.
\<close>

datatype meta_value = MvNull | MvText string | MvScalar | MvObject string | MvArray string

datatype metadata = MdNull | MdObject "(string \<times> meta_value) list" | MdOther meta_value

fun meta_get :: "metadata \<Rightarrow> string \<Rightarrow> meta_value option" where
  "meta_get (MdObject m) k = map_of m k"
| "meta_get _ k = None"

definition meta_str :: "metadata \<Rightarrow> string \<Rightarrow> string option" where
  "meta_str md k = (case meta_get md k of Some (MvText s) \<Rightarrow> Some s | _ \<Rightarrow> None)"

text \<open>The outcome of a call and its kind.\<close>

datatype call_status = CallSuccess | CallError | CallTimeout

datatype operation = OpChat | OpCompletion | OpEmbedding | OpOther

record llm_event =
  ev_id :: string
  ev_project :: string
  ev_trace_id :: "string option"
  ev_span_id :: "string option"
  ev_parent_span_id :: "string option"
  ev_ts :: instant
  ev_received_at :: instant
  ev_provider :: string
  ev_model :: string
  ev_name :: "string option"
  ev_operation :: operation
  ev_input :: u64
  ev_output :: u64
  ev_cached_input :: "u64 option"
  ev_reasoning :: "u64 option"
  ev_cost_usd :: "f64 option"
  ev_latency_ms :: "u64 option"
  ev_status :: call_status
  ev_error :: "string option"
  ev_prompt :: "meta_value option"
  ev_completion :: "meta_value option"
  ev_tags :: "string list"
  ev_source :: "string option"
  ev_metadata :: metadata

definition cost_source :: "llm_event \<Rightarrow> string option" where
  "cost_source ev = meta_str (ev_metadata ev) ''cost_source''"

definition cost_is_client_reported :: "llm_event \<Rightarrow> bool" where
  "cost_is_client_reported ev \<longleftrightarrow> cost_source ev = Some ''client''"

definition api_key_id :: "llm_event \<Rightarrow> string option" where
  "api_key_id ev = meta_str (ev_metadata ev) ''api_key_id''"

definition customer_id :: "llm_event \<Rightarrow> string option" where
  "customer_id ev = meta_str (ev_metadata ev) ''customer_id''"

definition event_scope_dims :: "llm_event \<Rightarrow> scope_dims" where
  "event_scope_dims ev = \<lparr>sd_provider = ev_provider ev, sd_model = ev_model ev, sd_name = ev_name ev,
     sd_api_key_id = api_key_id ev, sd_customer_id = customer_id ev\<rparr>"

text \<open>A counter inside the signed range is read back as written; sums inside it do not wrap.\<close>

definition in_i64 :: "int \<Rightarrow> bool" where
  "in_i64 k \<longleftrightarrow> - (2 ^ 63) \<le> k \<and> k < 2 ^ 63"

lemma sint_i64: "in_i64 k \<Longrightarrow> sint (word_of_int k :: i64) = k"
  by (simp add: in_i64_def int_word_sint)

lemma sint_in_i64: "in_i64 (sint (w :: i64))"
  using sint_ge [of w] sint_lt [of w] by (simp add: in_i64_def)

lemma sint_plus: "in_i64 (sint a + sint b) \<Longrightarrow> sint (a + b :: i64) = sint a + sint b"
  using sint_i64 [of "sint a + sint b"] by simp

lemma sint_minus: "in_i64 (sint a - sint b) \<Longrightarrow> sint (a - b :: i64) = sint a - sint b"
  using sint_i64 [of "sint a - sint b"] by simp

section \<open>Usage snapshots\<close>

record usage =
  u_cost_usd :: f64
  u_calls :: i64
  u_tokens :: i64
  u_unpriced :: i64
  u_client_cost :: f64

definition usage_default :: usage where
  "usage_default = \<lparr>u_cost_usd = 0, u_calls = 0, u_tokens = 0, u_unpriced = 0, u_client_cost = 0\<rparr>"

definition usage_plus :: "usage \<Rightarrow> usage \<Rightarrow> usage" where
  "usage_plus a b = \<lparr>u_cost_usd = u_cost_usd a + u_cost_usd b, u_calls = u_calls a + u_calls b,
     u_tokens = u_tokens a + u_tokens b, u_unpriced = u_unpriced a + u_unpriced b,
     u_client_cost = u_client_cost a + u_client_cost b\<rparr>"

definition usage_minus :: "usage \<Rightarrow> usage \<Rightarrow> usage" where
  "usage_minus a b = \<lparr>u_cost_usd = u_cost_usd a - u_cost_usd b, u_calls = u_calls a - u_calls b,
     u_tokens = u_tokens a - u_tokens b, u_unpriced = u_unpriced a - u_unpriced b,
     u_client_cost = u_client_cost a - u_client_cost b\<rparr>"

definition imputed_cost :: "usage \<Rightarrow> f64" where
  "imputed_cost u = (let priced = u_calls u - u_unpriced u in
     if 0 < sint priced \<and> 0 < sint (u_unpriced u)
     then u_cost_usd u / f64_of_int (sint priced) * f64_of_int (sint (u_unpriced u))
     else 0)"

definition usage_cost_evidence :: "usage \<Rightarrow> cost_evidence" where
  "usage_cost_evidence u = (let priced = u_calls u - u_unpriced u in
     \<lparr>priced_calls = max (sint priced) 0, unpriced_calls = sint (u_unpriced u),
      imputed_cost_usd = imputed_cost u, client_reported_cost_usd = u_client_cost u,
      unpriceable = (0 < sint (u_unpriced u) \<and> sint priced \<le> 0)\<rparr>)"

definition cost_for_limits :: "usage \<Rightarrow> f64" where
  "cost_for_limits u = u_cost_usd u + imputed_cost_usd (usage_cost_evidence u)"

fun metric_value :: "usage \<Rightarrow> limit_metric \<Rightarrow> f64" where
  "metric_value u CostUsd = cost_for_limits u"
| "metric_value u Calls = f64_of_int (sint (u_calls u))"
| "metric_value u Tokens = f64_of_int (sint (u_tokens u))"

definition event_contribution :: "llm_event \<Rightarrow> usage" where
  "event_contribution ev = (let cost = (case ev_cost_usd ev of Some c \<Rightarrow> c | None \<Rightarrow> 0) in
     \<lparr>u_cost_usd = cost, u_calls = 1, u_tokens = ev_input ev + ev_output ev,
      u_unpriced = (if ev_cost_usd ev = None then 1 else 0),
      u_client_cost = (if cost_is_client_reported ev then cost else 0)\<rparr>)"

section \<open>Evaluating a rule against a snapshot\<close>

definition evaluate_rule_resolved_at :: "limit_rule \<Rightarrow> usage \<Rightarrow> f64 \<Rightarrow> threshold_basis \<Rightarrow> instant
    \<Rightarrow> limit_status" where
  "evaluate_rule_resolved_at r u thr basis now =
     evaluate_resolved_at r (metric_value u (lr_metric r)) thr basis
       (if lr_metric r = CostUsd then Some (usage_cost_evidence u) else None) now"

section \<open>Admission\<close>

record admission =
  ad_admitted :: bool
  ad_statuses :: "limit_status list"
  ad_shed :: bool
  ad_retry_after :: "nat option"

fun iter_max :: "nat list \<Rightarrow> nat option" where
  "iter_max [] = None"
| "iter_max (x # xs) = Some (fold max xs x)"

definition from_statuses :: "limit_status list \<Rightarrow> admission" where
  "from_statuses sts =
     (let hard = list_ex rejects_ingest sts;
          shed = (\<not> hard \<and> list_ex ls_shedding sts)
      in \<lparr>ad_admitted = (\<not> hard \<and> \<not> shed), ad_statuses = sts, ad_shed = shed,
          ad_retry_after =
            (case iter_max (map status_retry_after_secs (filter rejects_ingest sts)) of
               Some s \<Rightarrow> Some s
             | None \<Rightarrow> iter_max (map status_retry_after_secs (filter ls_shedding sts)))\<rparr>)"

text \<open>
  The loop of \<open>evaluate_admission_at\<close>. \<open>read\<close> is the caller's \<open>current_usage\<close>, a \<^verbatim>\<open>FnMut\<close>:
  it may fail, and it carries the state it mutates; \<open>memo\<close> is the hash map of prospective totals.
\<close>

type_synonym usage_key = "limit_window \<times> limit_scope option"

definition judge_rule :: "llm_event \<Rightarrow> instant \<Rightarrow> (limit_rule \<Rightarrow> f64 \<times> threshold_basis)
    \<Rightarrow> limit_rule \<Rightarrow> usage \<Rightarrow> limit_status" where
  "judge_rule ev now resolve r u =
     (let (thr, basis) = resolve r;
          st = evaluate_rule_resolved_at r u thr basis now
      in st\<lparr>ls_shedding := status_sheds st (ev_id ev)\<rparr>)"

definition rule_applies :: "llm_event \<Rightarrow> instant \<Rightarrow> limit_rule \<Rightarrow> bool" where
  "rule_applies ev now r \<longleftrightarrow> is_active_at r now \<and> scope_matches (lr_scope r) (event_scope_dims ev)"

fun admission_loop :: "llm_event \<Rightarrow> usage \<Rightarrow> instant
    \<Rightarrow> ('c \<Rightarrow> limit_window \<Rightarrow> limit_scope option \<Rightarrow> (store_error + usage) \<times> 'c)
    \<Rightarrow> (limit_rule \<Rightarrow> f64 \<times> threshold_basis)
    \<Rightarrow> (usage_key \<times> usage) list \<Rightarrow> limit_status list \<Rightarrow> 'c \<Rightarrow> limit_rule list
    \<Rightarrow> (store_error + limit_status list) \<times> 'c" where
  "admission_loop ev contribution now read resolve memo sts c [] = (Inr sts, c)"
| "admission_loop ev contribution now read resolve memo sts c (r # rs) =
     (if \<not> rule_applies ev now r then admission_loop ev contribution now read resolve memo sts c rs
      else
        (case map_of memo (lr_window r, lr_scope r) of
           Some u \<Rightarrow>
             admission_loop ev contribution now read resolve memo
               (sts @ [judge_rule ev now resolve r u]) c rs
         | None \<Rightarrow>
             (case read c (lr_window r) (lr_scope r) of
                (Inl e, c') \<Rightarrow> (Inl e, c')
              | (Inr u0, c') \<Rightarrow>
                  (let u = usage_plus u0 contribution in
                   admission_loop ev contribution now read resolve
                     (AList.update (lr_window r, lr_scope r) u memo)
                     (sts @ [judge_rule ev now resolve r u]) c' rs))))"

definition evaluate_admission_at :: "limit_rule list \<Rightarrow> llm_event \<Rightarrow> usage \<Rightarrow> instant
    \<Rightarrow> ('c \<Rightarrow> limit_window \<Rightarrow> limit_scope option \<Rightarrow> (store_error + usage) \<times> 'c)
    \<Rightarrow> (limit_rule \<Rightarrow> f64 \<times> threshold_basis) \<Rightarrow> 'c \<Rightarrow> (store_error + admission) \<times> 'c" where
  "evaluate_admission_at rules ev contribution now read resolve c =
     (case admission_loop ev contribution now read resolve [] [] c rules of
        (Inl e, c') \<Rightarrow> (Inl e, c')
      | (Inr sts, c') \<Rightarrow> (Inr (from_statuses sts), c'))"

section \<open>What an admission answers\<close>

text \<open>
  The specification of the loop: each applicable rule judged against the usage of its own window and
  scope with the candidate folded in once, in rule order.
\<close>

definition admission_statuses :: "limit_rule list \<Rightarrow> llm_event \<Rightarrow> usage \<Rightarrow> instant
    \<Rightarrow> (limit_window \<Rightarrow> limit_scope option \<Rightarrow> usage) \<Rightarrow> (limit_rule \<Rightarrow> f64 \<times> threshold_basis)
    \<Rightarrow> limit_status list" where
  "admission_statuses rules ev contribution now value_of resolve =
     map (\<lambda>r. judge_rule ev now resolve r (usage_plus (value_of (lr_window r) (lr_scope r)) contribution))
       (filter (rule_applies ev now) rules)"

text \<open>
  A source of usage: reading it in a good state succeeds with a snapshot that agrees with the window
  and scope asked for, and leaves the source in a good state, whatever it cached meanwhile.
\<close>

locale usage_source =
  fixes read :: "'c \<Rightarrow> limit_window \<Rightarrow> limit_scope option \<Rightarrow> (store_error + usage) \<times> 'c"
    and good :: "'c \<Rightarrow> bool"
    and agrees :: "limit_window \<Rightarrow> limit_scope option \<Rightarrow> usage \<Rightarrow> bool"
  assumes read_agrees: "good c \<Longrightarrow> \<exists>u c'. read c w s = (Inr u, c') \<and> agrees w s u \<and> good c'"
begin

definition judged :: "llm_event \<Rightarrow> usage \<Rightarrow> instant \<Rightarrow> (limit_rule \<Rightarrow> f64 \<times> threshold_basis)
    \<Rightarrow> limit_rule \<Rightarrow> limit_status \<Rightarrow> bool" where
  "judged ev k now resolve r st \<longleftrightarrow>
     (\<exists>u. agrees (lr_window r) (lr_scope r) u \<and> st = judge_rule ev now resolve r (usage_plus u k))"

lemma loop_spec:
  assumes "good c"
    and "\<And>w s u. map_of memo (w, s) = Some u \<Longrightarrow> \<exists>u0. agrees w s u0 \<and> u = usage_plus u0 k"
  shows "\<exists>c' new. good c' \<and> admission_loop ev k now read resolve memo sts c rules = (Inr (sts @ new), c')
    \<and> list_all2 (judged ev k now resolve) (filter (rule_applies ev now) rules) new"
  using assms
proof (induction rules arbitrary: memo sts c)
  case Nil
  then show ?case by simp
next
  case (Cons r rs)
  let ?k = "(lr_window r, lr_scope r)"
  show ?case
  proof (cases "rule_applies ev now r")
    case False
    then show ?thesis using Cons.IH [OF Cons.prems] by simp
  next
    case applies: True
    show ?thesis
    proof (cases "map_of memo ?k")
      case (Some u)
      obtain c' new where "good c'" "admission_loop ev k now read resolve memo
          (sts @ [judge_rule ev now resolve r u]) c rs
          = (Inr ((sts @ [judge_rule ev now resolve r u]) @ new), c')"
        "list_all2 (judged ev k now resolve) (filter (rule_applies ev now) rs) new"
        using Cons.IH [OF Cons.prems] by blast
      moreover have "judged ev k now resolve r (judge_rule ev now resolve r u)"
        using Cons.prems(2) [OF Some] by (auto simp: judged_def)
      ultimately show ?thesis using applies Some
        by (intro exI [of _ c'] exI [of _ "judge_rule ev now resolve r u # new"]) simp
    next
      case None
      obtain u0 d where d: "read c (lr_window r) (lr_scope r) = (Inr u0, d)"
        "agrees (lr_window r) (lr_scope r) u0" "good d"
        using read_agrees [OF Cons.prems(1)] by blast
      let ?u = "usage_plus u0 k"
      have memo: "\<exists>u0. agrees w s u0 \<and> u = usage_plus u0 k"
        if "map_of (AList.update ?k ?u memo) (w, s) = Some u" for w s u
        using that Cons.prems(2) [of w s u] d(2) by (auto split: if_splits)
      obtain c' new where "good c'" "admission_loop ev k now read resolve (AList.update ?k ?u memo)
          (sts @ [judge_rule ev now resolve r ?u]) d rs
          = (Inr ((sts @ [judge_rule ev now resolve r ?u]) @ new), c')"
        "list_all2 (judged ev k now resolve) (filter (rule_applies ev now) rs) new"
        using Cons.IH [where memo = "AList.update ?k ?u memo" and c = d, OF d(3) memo] by blast
      moreover have "judged ev k now resolve r (judge_rule ev now resolve r ?u)"
        using d(2) by (auto simp: judged_def)
      ultimately show ?thesis using applies None d(1)
        by (intro exI [of _ c'] exI [of _ "judge_rule ev now resolve r ?u # new"]) (simp add: Let_def)
    qed
  qed
qed

lemma admission_spec:
  assumes "good c"
  shows "\<exists>c' sts. good c'
    \<and> evaluate_admission_at rules ev k now read resolve c = (Inr (from_statuses sts), c')
    \<and> list_all2 (judged ev k now resolve) (filter (rule_applies ev now) rules) sts"
  using loop_spec [OF assms, where memo = "[]" and k = k and ev = ev and now = now
      and resolve = resolve and sts = "[]" and rules = rules]
  by (fastforce simp: evaluate_admission_at_def)

end

text \<open>What a reader carries along is kept by the loop if every read keeps it, errors included.\<close>

lemma admission_loop_keeps:
  assumes "\<And>c w s. P c \<Longrightarrow> P (snd (read c w s))" and "P c"
  shows "P (snd (admission_loop ev k now read resolve memo sts c rules))"
  using assms(2)
proof (induction rules arbitrary: memo sts c)
  case (Cons r rs)
  obtain x c' where x: "read c (lr_window r) (lr_scope r) = (x, c')"
    by (cases "read c (lr_window r) (lr_scope r)")
  then have "P c'" using assms(1) [OF Cons.prems, of "lr_window r" "lr_scope r"] by simp
  then show ?case using Cons x by (cases x) (auto simp: Let_def split: option.splits)
qed simp

lemma evaluate_admission_keeps:
  assumes "\<And>c w s. P c \<Longrightarrow> P (snd (read c w s))" and "P c"
  shows "P (snd (evaluate_admission_at rules ev k now read resolve c))"
  using admission_loop_keeps [of P read c ev k now resolve "[]" "[]" rules, OF assms]
  by (auto simp: evaluate_admission_at_def split: prod.splits sum.splits)

text \<open>Reading a store directly, with nothing cached, is a source.\<close>

interpretation direct: usage_source "\<lambda>c w s. (Inr (f w s), c)" "\<lambda>c. True" "\<lambda>w s u. u = f w s"
  for f :: "limit_window \<Rightarrow> limit_scope option \<Rightarrow> usage"
  by unfold_locales simp

lemma direct_spec:
  "fst (evaluate_admission_at rules ev k now (\<lambda>c w s. (Inr (f w s), c)) resolve c)
    = Inr (from_statuses (admission_statuses rules ev k now f resolve))"
proof -
  obtain c' sts where "evaluate_admission_at rules ev k now (\<lambda>c w s. (Inr (f w s), c)) resolve c
      = (Inr (from_statuses sts), c')"
    and "list_all2 (direct.judged f ev k now resolve) (filter (rule_applies ev now) rules) sts"
    using direct.admission_spec [where f = f and c = c and rules = rules and ev = ev and k = k
        and now = now and resolve = resolve] by blast
  moreover from this(2) have "sts = admission_statuses rules ev k now f resolve"
    by (auto simp: admission_statuses_def direct.judged_def list_all2_conv_all_nth intro!: nth_equalityI)
  ultimately show ?thesis by simp
qed

lemma iter_max_None [simp]: "iter_max xs = None \<longleftrightarrow> xs = []"
  by (cases xs) auto

lemma iter_max_in: "iter_max xs = Some m \<Longrightarrow> m \<in> set xs \<and> (\<forall>x \<in> set xs. x \<le> m)"
proof (cases xs)
  case (Cons y ys)
  have "fold max ys y = Max (set (y # ys))" by (metis Max.set_eq_fold)
  moreover assume "iter_max xs = Some m"
  ultimately have "m = Max (set xs)" using Cons by simp
  with Cons show ?thesis using Max_in [of "set xs"] Max_ge [of "set xs"] by simp
qed simp

lemma from_statuses_admitted:
  "ad_admitted (from_statuses sts) \<longleftrightarrow> (\<forall>x \<in> set sts. \<not> rejects_ingest x \<and> \<not> ls_shedding x)"
  by (auto simp: from_statuses_def Let_def list_ex_iff)

lemma from_statuses_no_wait: "ad_retry_after (from_statuses sts) = None \<longleftrightarrow> ad_admitted (from_statuses sts)"
  by (auto simp: from_statuses_def Let_def list_ex_iff filter_empty_conv split: option.splits)

lemma from_statuses_wait:
  assumes "ad_retry_after (from_statuses sts) = Some s"
  obtains x where "x \<in> set sts" "s = status_retry_after_secs x"
    "if ad_shed (from_statuses sts) then ls_shedding x \<and> \<not> rejects_ingest x else rejects_ingest x"
proof (cases "list_ex rejects_ingest sts")
  case True
  then have "filter rejects_ingest sts \<noteq> []" by (auto simp: list_ex_iff filter_empty_conv)
  then have "iter_max (map status_retry_after_secs (filter rejects_ingest sts)) = Some s"
    using assms by (auto simp: from_statuses_def Let_def split: option.splits)
  then obtain x where "x \<in> set sts" "rejects_ingest x" "s = status_retry_after_secs x"
    using iter_max_in by fastforce
  moreover have "\<not> ad_shed (from_statuses sts)" using True by (simp add: from_statuses_def Let_def)
  ultimately show thesis using that by simp
next
  case False
  then have hard: "filter rejects_ingest sts = []" "\<forall>x \<in> set sts. \<not> rejects_ingest x"
    by (auto simp: list_ex_iff filter_empty_conv)
  then have "iter_max (map status_retry_after_secs (filter ls_shedding sts)) = Some s"
    using assms by (simp add: from_statuses_def Let_def)
  then obtain x where x: "x \<in> set sts" "ls_shedding x" "s = status_retry_after_secs x"
    using iter_max_in by fastforce
  moreover have "ad_shed (from_statuses sts)"
    using False x by (auto simp: from_statuses_def Let_def list_ex_iff)
  ultimately show thesis using that hard by simp
qed

text \<open>A status that sheds belongs to a throttle below its threshold.\<close>

lemma judge_simps:
  assumes "resolve r = (thr, basis)"
  shows "rejects_ingest (judge_rule ev now resolve r u) \<longleftrightarrow> action_enforces (effective_action_at r now)
      \<and> (thr \<le> metric_value u (lr_metric r) \<or> lr_metric r = CostUsd \<and> unpriceable (usage_cost_evidence u))"
    and "ls_shedding (judge_rule ev now resolve r u)
      = status_sheds (evaluate_rule_resolved_at r u thr basis now) (ev_id ev)"
  using assms
  by (auto simp: judge_rule_def rejects_ingest_def status_unpriceable_def evaluate_rule_resolved_at_def
      evaluate_resolved_at_def Let_def)

lemma shedding_is_soft:
  assumes "ls_shedding (judge_rule ev now resolve r u)"
    and "\<not> rejects_ingest (judge_rule ev now resolve r u)"
  shows "\<not> ls_breached (judge_rule ev now resolve r u)
       \<and> \<not> status_unpriceable (judge_rule ev now resolve r u)"
  using assms
  by (auto simp: judge_rule_def rejects_ingest_def status_unpriceable_def evaluate_rule_resolved_at_def
      status_sheds_def eval_simps shed_fraction_of_def action_sheds_def action_enforces_def
      split: prod.splits option.splits if_splits)

text \<open>
  C29: the decision. An event is admitted exactly when no rule that is active and matches it, judged
  against the usage of its own window and scope with the event folded in, rejects it or sheds it: an
  enforcing rule rejects at or above its threshold, and a cost rule also where nothing in the window
  is priced. A refusal always carries a wait, of at most fifteen seconds when it is only a shed and of
  half a minute to fifteen when a hard stop is among the reasons; an admission carries none.
\<close>

theorem admission_decision:
  fixes used :: "limit_window \<Rightarrow> limit_scope option \<Rightarrow> usage"
  assumes "fst (evaluate_admission_at rules ev k now (\<lambda>c w s. (Inr (used w s), c)) resolve c) = Inr a"
  shows "(ad_admitted a \<longleftrightarrow> (\<forall>r \<in> set rules. is_active_at r now
            \<and> scope_matches (lr_scope r) (event_scope_dims ev) \<longrightarrow>
          (let u = usage_plus (used (lr_window r) (lr_scope r)) k; (thr, basis) = resolve r in
            \<not> (action_enforces (effective_action_at r now)
               \<and> (thr \<le> metric_value u (lr_metric r)
                  \<or> lr_metric r = CostUsd \<and> unpriceable (usage_cost_evidence u)))
            \<and> \<not> status_sheds (evaluate_rule_resolved_at r u thr basis now) (ev_id ev))))
    \<and> (ad_retry_after a = None \<longleftrightarrow> ad_admitted a)
    \<and> (\<forall>s. ad_retry_after a = Some s \<longrightarrow> (if ad_shed a then 1 \<le> s \<and> s \<le> 15 else 30 \<le> s \<and> s \<le> 900))"
proof -
  let ?u = "\<lambda>r. usage_plus (used (lr_window r) (lr_scope r)) k"
  let ?j = "\<lambda>r. judge_rule ev now resolve r (?u r)"
  let ?rs = "filter (rule_applies ev now) rules"
  have a: "a = from_statuses (map ?j ?rs)"
    using assms direct_spec [of rules ev k now used resolve c] by (simp add: admission_statuses_def)
  have adm: "ad_admitted a \<longleftrightarrow> (\<forall>r \<in> set rules. rule_applies ev now r \<longrightarrow>
      \<not> rejects_ingest (?j r) \<and> \<not> ls_shedding (?j r))"
    by (auto simp: a from_statuses_admitted)
  have wait: "if ad_shed a then 1 \<le> s \<and> s \<le> 15 else 30 \<le> s \<and> s \<le> 900"
    if some: "ad_retry_after a = Some s" for s
  proof -
    obtain x where "x \<in> set (map ?j ?rs)" and x: "s = status_retry_after_secs x"
      "if ad_shed a then ls_shedding x \<and> \<not> rejects_ingest x else rejects_ingest x"
      using some unfolding a by (rule from_statuses_wait)
    then obtain r where r: "x = ?j r" by (simp only: set_map) blast
    have "ls_shedding x \<Longrightarrow> \<not> rejects_ingest x \<Longrightarrow> s \<le> 15"
      using shedding_is_soft [of ev now resolve r "?u r"] retry_after_bound(3) [of x] x(1) r by simp
    moreover have "rejects_ingest x \<Longrightarrow> 30 \<le> s"
      using retry_after_bound(4) [of x] x(1) by (auto simp: rejects_ingest_def)
    moreover have "1 \<le> s" "s \<le> 900" using retry_after_bound(1,2) [of x] x(1) by simp_all
    ultimately show ?thesis using x(2) by (auto split: if_splits)
  qed
  have none: "ad_retry_after a = None \<longleftrightarrow> ad_admitted a" unfolding a by (rule from_statuses_no_wait)
  have each: "(\<not> rejects_ingest (?j r) \<and> \<not> ls_shedding (?j r)) \<longleftrightarrow>
      (let u = ?u r; (thr, basis) = resolve r in
            \<not> (action_enforces (effective_action_at r now)
               \<and> (thr \<le> metric_value u (lr_metric r)
                  \<or> lr_metric r = CostUsd \<and> unpriceable (usage_cost_evidence u)))
            \<and> \<not> status_sheds (evaluate_rule_resolved_at r u thr basis now) (ev_id ev))" for r
    by (cases "resolve r") (simp add: judge_simps Let_def)
  show ?thesis
    using adm none wait unfolding rule_applies_def each by blast
qed

lemma f64_scale_nonneg: "Fin 0 \<le> q \<Longrightarrow> 1 \<le> b \<Longrightarrow> Fin 0 \<le> q * Fin b"
  by (cases q) (auto simp: signed_inf_def intro!: rnd_nonneg)

lemma f64_scale_mono: "Fin 0 \<le> q \<Longrightarrow> 1 \<le> a \<Longrightarrow> a \<le> b \<Longrightarrow> q * Fin a \<le> q * Fin b"
  by (cases q) (auto simp: signed_inf_def intro!: rnd_mono mult_left_mono)

lemma f64_count:
  assumes "0 \<le> i" "i \<le> 2 ^ 63"
  shows "\<exists>v. f64_of_int i = Fin v \<and> 0 \<le> v \<and> (0 < i \<longrightarrow> 1 \<le> v)"
proof -
  have rep: "representable (2 ^ 63)"
    unfolding representable_def by (intro exI [of _ 1] exI [of _ 63]) simp
  have "(of_int i :: rat) \<le> of_int (2 ^ 63)" using assms(2) by (simp only: of_int_le_iff)
  then have "rnd (of_int i) \<le> Fin (2 ^ 63)" by (intro rnd_le_exact rep) simp
  moreover have "Fin 0 \<le> rnd (of_int i)" using assms(1) by (intro rnd_nonneg) simp
  moreover have "0 < i \<Longrightarrow> Fin 1 \<le> rnd (of_int i)" by (intro rnd_ge_exact) simp_all
  ultimately show ?thesis by (cases "rnd (of_int i)") (auto simp: f64_of_int_def)
qed

text \<open>
  An unpriced call is never free. In a window with a priced call and counts in range, one more
  call without a price is charged exactly the mean cost of a priced call in that window, and the cost
  a limit is evaluated against does not fall; a window with unpriced calls only cannot be priced.
\<close>

theorem unpriced_call_charged:
  assumes "ev_cost_usd ev = None"
    and "0 \<le> sint (u_unpriced u)" and "sint (u_unpriced u) < sint (u_calls u)"
    and "sint (u_calls u) + 1 < 2 ^ 63"
    and "wf64 (u_cost_usd u)" and "0 \<le> u_cost_usd u"
  defines "u' \<equiv> usage_plus u (event_contribution ev)"
  shows "imputed_cost u' = u_cost_usd u / f64_of_int (sint (u_calls u) - sint (u_unpriced u))
                           * f64_of_int (sint (u_unpriced u) + 1)
    \<and> cost_for_limits u \<le> cost_for_limits u'
    \<and> \<not> unpriceable (usage_cost_evidence u')"
proof -
  let ?c = "u_cost_usd u" and ?p = "sint (u_calls u) - sint (u_unpriced u)"
  have one: "sint (1 :: i64) = 1" by simp
  have r: "in_i64 ?p" "in_i64 (sint (u_calls u) + 1)" "in_i64 (sint (u_unpriced u) + 1)"
    using assms(2-4) by (auto simp: in_i64_def)
  have k: "u_cost_usd u' = ?c + Fin 0" "u_calls u' = u_calls u + 1" "u_unpriced u' = u_unpriced u + 1"
    using assms(1) by (simp_all add: u'_def usage_plus_def event_contribution_def Let_def)
  have unp: "sint (u_unpriced u') = sint (u_unpriced u) + 1"
    unfolding k using sint_plus [of "u_unpriced u" 1] r(3) one by simp
  have priced: "sint (u_calls u' - u_unpriced u') = ?p" "sint (u_calls u - u_unpriced u) = ?p"
    unfolding k using sint_minus [of "u_calls u" "u_unpriced u"] r(1) by simp_all
  have zero: "?c + Fin 0 = ?c" using assms(5,6) by (cases ?c) (auto intro: rnd_exact)
  have pos: "0 < ?p" using assms(3) by simp
  have imp: "imputed_cost u' = ?c / f64_of_int ?p * f64_of_int (sint (u_unpriced u) + 1)"
    using pos assms(2) unfolding imputed_cost_def Let_def priced unp by (simp add: k zero)
  obtain v where v: "f64_of_int ?p = Fin v" "1 \<le> v"
    using f64_count [of ?p] pos assms(2,4) by auto
  obtain a b where ab: "f64_of_int (sint (u_unpriced u)) = Fin a"
      "f64_of_int (sint (u_unpriced u) + 1) = Fin b" "0 \<le> a" "0 < sint (u_unpriced u) \<longrightarrow> 1 \<le> a" "a \<le> b" "1 \<le> b"
    using f64_count [of "sint (u_unpriced u)"] f64_count [of "sint (u_unpriced u) + 1"]
      f64_of_int_mono [of "sint (u_unpriced u)" "sint (u_unpriced u) + 1"] assms(2-4) by auto
  have q: "Fin 0 \<le> ?c / Fin v" using assms(6) v(2) by (cases ?c) (auto intro!: rnd_nonneg)
  have "Fin 0 \<le> imputed_cost u \<and> imputed_cost u \<le> imputed_cost u'"
  proof (cases "sint (u_unpriced u) = 0")
    case True
    then have "imputed_cost u = Fin 0" by (simp add: imputed_cost_def)
    then show ?thesis unfolding imp v ab using f64_scale_nonneg [OF q ab(6)] by simp
  next
    case False
    then have "imputed_cost u = ?c / Fin v * Fin a"
      using pos assms(2) unfolding imputed_cost_def Let_def priced by (simp add: v ab)
    then show ?thesis unfolding imp v ab
      using f64_scale_mono [OF q _ ab(5)] f64_scale_nonneg [OF q] ab(4) False assms(2) by simp
  qed
  then have "cost_for_limits u \<le> cost_for_limits u'"
    using f64_add_mono2 [of ?c ?c "imputed_cost u" "imputed_cost u'"] assms(6) k(1) zero
    by (cases ?c; cases "imputed_cost u") (auto simp: cost_for_limits_def usage_cost_evidence_def Let_def)
  moreover have "\<not> unpriceable (usage_cost_evidence u')"
    using pos unfolding usage_cost_evidence_def Let_def priced by simp
  ultimately show ?thesis using imp by blast
qed

text \<open>
  The token contribution is the sum of the two counts exactly when that sum is below \<open>2 ^ 63\<close>.
  Beyond it the conversion to a signed counter wraps, so an event that reports enough tokens adds a
  negative amount, and a token cap reads less usage after it than before.
\<close>

theorem token_contribution_exact:
  "sint (u_tokens (event_contribution ev)) = uint (ev_input ev) + uint (ev_output ev)
   \<longleftrightarrow> uint (ev_input ev) + uint (ev_output ev) < 2 ^ 63"
proof
  let ?s = "uint (ev_input ev) + uint (ev_output ev)"
  have t: "u_tokens (event_contribution ev) = word_of_int ?s"
    by (simp add: event_contribution_def Let_def)
  show "?s < 2 ^ 63" if "sint (u_tokens (event_contribution ev)) = ?s"
    using sint_in_i64 [of "u_tokens (event_contribution ev)"] that by (simp add: in_i64_def)
  show "sint (u_tokens (event_contribution ev)) = ?s" if "?s < 2 ^ 63"
  proof -
    have "- (2 ^ 63) \<le> (0 :: int)" by simp
    also have "0 \<le> ?s" by simp
    finally have "- (2 ^ 63) \<le> ?s" .
    with that have "in_i64 ?s" by (simp only: in_i64_def)
    then show ?thesis unfolding t by (rule sint_i64)
  qed
qed

section \<open>Witnesses\<close>

definition sample_event :: llm_event where
  "sample_event = \<lparr>ev_id = ''e1'', ev_project = ''p'', ev_trace_id = None,
     ev_span_id = None, ev_parent_span_id = None, ev_ts = 1000, ev_received_at = 1000,
     ev_provider = ''openai'', ev_model = ''gpt-4o'', ev_name = None, ev_operation = OpChat, ev_input = 10, ev_output = 5,
     ev_cached_input = None, ev_reasoning = None, ev_cost_usd = None, ev_latency_ms = None, ev_status = CallSuccess, ev_error = None,
     ev_prompt = None, ev_completion = None, ev_tags = [], ev_source = None, ev_metadata = MdNull\<rparr>"

definition sample_cap :: "limit_metric \<Rightarrow> f64 \<Rightarrow> limit_rule" where
  "sample_cap m v = \<lparr>lr_id = ''cap'', lr_project_id = ''p'', lr_metric = m, lr_window = Hour,
     lr_threshold = Fixed v, lr_action = Block, lr_enabled = True,
     lr_warn_at = None, lr_scope = None, lr_escalation = None,
     lr_escalated_until = None, lr_origin = None, lr_expires_at = None\<rparr>"

lemma admission_decision_witness:
  "ad_retry_after (from_statuses (admission_statuses [sample_cap Calls (Fin 1)] sample_event
      (event_contribution sample_event) 0 (\<lambda>w s. usage_default) (\<lambda>r. (Fin 1, basis_fixed)))) \<noteq> None"
proof -
  let ?e = "evaluate_admission_at [sample_cap Calls (Fin 1)] sample_event
      (event_contribution sample_event) 0 (\<lambda>c w s. (Inr usage_default, c))
      (\<lambda>r. (Fin 1, basis_fixed)) ()"
  let ?a = "from_statuses (admission_statuses [sample_cap Calls (Fin 1)] sample_event
      (event_contribution sample_event) 0 (\<lambda>w s. usage_default) (\<lambda>r. (Fin 1, basis_fixed)))"
  have "fst ?e = Inr ?a"
    by (rule direct_spec [where f = "\<lambda>w s. usage_default"])
  from admission_decision [OF this] show ?thesis
    by (simp add: sample_cap_def sample_event_def is_active_at_def scope_matches_def
        effective_action_at_def action_enforces_def usage_plus_def usage_default_def
        event_contribution_def f64_of_int_exact Let_def)
qed

lemma unpriced_call_charged_witness:
  "cost_for_limits (usage_default\<lparr>u_cost_usd := Fin 8, u_calls := 2\<rparr>)
   \<le> cost_for_limits (usage_plus (usage_default\<lparr>u_cost_usd := Fin 8, u_calls := 2\<rparr>)
        (event_contribution sample_event))"
  using unpriced_call_charged [of sample_event "usage_default\<lparr>u_cost_usd := Fin 8, u_calls := 2\<rparr>"]
  by (simp add: sample_event_def usage_default_def representable_8)

text \<open>An event that reports \<open>2 ^ 64 - 1\<close> prompt tokens counts as minus one.\<close>

lemma token_contribution_wraps:
  "sint (u_tokens (event_contribution (sample_event\<lparr>ev_input := -1, ev_output := 0\<rparr>))) = -1"
  by (simp add: event_contribution_def sample_event_def Let_def)

end
