(* ===== verification/RevenueShare.thy ===== *)
theory RevenueShare
  imports UsageLedger
begin

text \<open>
  Recognized revenue (\<^verbatim>\<open>crates/core/src/revenue.rs\<close>, \<^verbatim>\<open>margin.rs\<close>,
  \<^verbatim>\<open>margin_policy.rs\<close>) and the resolution of revenue-share thresholds against it
  (\<^verbatim>\<open>crates/store/src/threshold.rs\<close>): rows are fetched once per distinct window and every rule
  is resolved from them.
\<close>

section \<open>Revenue records\<close>

datatype revenue_kind = RkSubscription | RkOneTime | RkUsage | RkRefund

fun revenue_kind_as_str :: "revenue_kind \<Rightarrow> string" where
  "revenue_kind_as_str RkSubscription = ''subscription''"
| "revenue_kind_as_str RkOneTime = ''one_time''"
| "revenue_kind_as_str RkUsage = ''usage''"
| "revenue_kind_as_str RkRefund = ''refund''"

definition revenue_kind_parse :: "string \<Rightarrow> revenue_kind" where
  "revenue_kind_parse s =
     (if s = ''subscription'' then RkSubscription
      else if s = ''usage'' then RkUsage
      else if s = ''refund'' then RkRefund
      else RkOneTime)"

record revenue_event =
  rv_project :: string
  rv_customer :: "string option"
  rv_amount_usd :: f64
  rv_kind :: revenue_kind
  rv_period_start :: "instant option"
  rv_period_end :: "instant option"
  rv_ts :: instant

fun fabs :: "f64 \<Rightarrow> f64" where
  "fabs (Fin a) = Fin \<bar>a\<bar>"
| "fabs PInf = PInf"
| "fabs NInf = PInf"
| "fabs NaN = NaN"

definition num_seconds :: "int \<Rightarrow> int" where
  "num_seconds d = (if 0 \<le> d then d div 1000000000 else - ((- d) div 1000000000))"

definition recognized_amount :: "revenue_event \<Rightarrow> instant \<Rightarrow> instant \<Rightarrow> f64" where
  "recognized_amount r since until =
     (let signed = (if rv_kind r = RkRefund then - fabs (rv_amount_usd r) else fabs (rv_amount_usd r));
          point = (if since \<le> rv_ts r \<and> rv_ts r < until then signed else 0)
      in case (rv_period_start r, rv_period_end r) of
           (Some ps, Some pe) \<Rightarrow>
             if ps < pe then
               (let start = max ps since; stop = min pe until in
                if stop \<le> start then 0
                else signed * (f64_of_int (num_seconds (stop - start))
                               / f64_of_int (num_seconds (pe - ps))))
             else point
         | _ \<Rightarrow> point)"

definition recognized_revenue :: "revenue_event list \<Rightarrow> string option \<Rightarrow> instant \<Rightarrow> instant \<Rightarrow> f64" where
  "recognized_revenue rows customer since until =
     foldl (+) 0 (map (\<lambda>r. recognized_amount r since until)
       (filter (\<lambda>r. case customer of None \<Rightarrow> True | Some c \<Rightarrow> rv_customer r = Some c) rows))"

text \<open>The \<^verbatim>\<open>SELECT\<close> of the revenue rows of a project that touch a window, newest first.\<close>

definition revenue_in_window :: "instant \<Rightarrow> instant \<Rightarrow> revenue_event \<Rightarrow> bool" where
  "revenue_in_window since until r \<longleftrightarrow>
     (case (rv_period_start r, rv_period_end r) of
        (Some ps, Some pe) \<Rightarrow> ps < until \<and> since < pe
      | _ \<Rightarrow> since \<le> rv_ts r \<and> rv_ts r < until)"

definition revenue_list :: "revenue_event list \<Rightarrow> string option \<Rightarrow> instant \<Rightarrow> instant
    \<Rightarrow> revenue_event list" where
  "revenue_list t project since until =
     sort_key (\<lambda>r. - rv_ts r)
       (filter (\<lambda>r. (case project of None \<Rightarrow> True | Some p \<Rightarrow> rv_project r = p)
                   \<and> revenue_in_window since until r) t)"

section \<open>Resolving thresholds\<close>

definition needs_revenue :: "limit_rule \<Rightarrow> bool" where
  "needs_revenue r = (case lr_threshold r of RevenueShare _ _ \<Rightarrow> True | Fixed _ \<Rightarrow> False)"

definition revenue_subject :: "limit_rule \<Rightarrow> string option" where
  "revenue_subject r = (case lr_scope r of Some (ScCustomer c) \<Rightarrow> Some c | _ \<Rightarrow> None)"

definition window_key :: "limit_rule \<Rightarrow> int" where
  "window_key r = num_seconds (window_lookback (lr_window r))"

type_synonym resolved = "(string \<times> (f64 \<times> threshold_basis)) list"

definition measured_revenue :: "limit_rule \<Rightarrow> instant \<Rightarrow> revenue_event list \<Rightarrow> f64 option" where
  "measured_revenue r now rows =
     (let revenue = recognized_revenue rows (revenue_subject r) (window_since (lr_window r) now) now
      in if rows \<noteq> [] \<and> 0 < revenue then Some revenue else None)"

fun resolve_from_windows :: "limit_rule list \<Rightarrow> instant \<Rightarrow> (int \<times> revenue_event list) list
    \<Rightarrow> resolved \<Rightarrow> resolved" where
  "resolve_from_windows [] now windows out = out"
| "resolve_from_windows (r # rs) now windows out =
     (if needs_revenue r then
        (case map_of windows (window_key r) of
           None \<Rightarrow> resolve_from_windows rs now windows out
         | Some rows \<Rightarrow>
             resolve_from_windows rs now windows
               (AList.update (lr_id r) (threshold_resolve (lr_threshold r) (measured_revenue r now rows))
                 out))
      else resolve_from_windows rs now windows out)"

fun fetch_windows :: "limit_rule list \<Rightarrow> instant
    \<Rightarrow> (instant \<Rightarrow> instant \<Rightarrow> store_error + revenue_event list)
    \<Rightarrow> (int \<times> revenue_event list) list \<Rightarrow> store_error + (int \<times> revenue_event list) list" where
  "fetch_windows [] now fetch windows = Inr windows"
| "fetch_windows (r # rs) now fetch windows =
     (if needs_revenue r \<and> map_of windows (window_key r) = None then
        (case fetch (window_since (lr_window r) now) now of
           Inl e \<Rightarrow> Inl e
         | Inr rows \<Rightarrow> fetch_windows rs now fetch (AList.update (window_key r) rows windows))
      else fetch_windows rs now fetch windows)"

definition resolve_all :: "limit_rule list \<Rightarrow> instant
    \<Rightarrow> (instant \<Rightarrow> instant \<Rightarrow> store_error + revenue_event list) \<Rightarrow> store_error + resolved" where
  "resolve_all rules now fetch =
     (case fetch_windows rules now fetch [] of
        Inl e \<Rightarrow> Inl e
      | Inr windows \<Rightarrow> Inr (resolve_from_windows rules now windows []))"

definition resolver :: "resolved \<Rightarrow> limit_rule \<Rightarrow> f64 \<times> threshold_basis" where
  "resolver out r = (case map_of out (lr_id r) of
     Some x \<Rightarrow> x | None \<Rightarrow> threshold_resolve (lr_threshold r) None)"

section \<open>The prefetch answers as reading per rule would\<close>

lemma window_key_eq: "window_key r = window_key r' \<longleftrightarrow> lr_window r = lr_window r'"
  by (cases "lr_window r"; cases "lr_window r'") (simp_all add: window_key_def num_seconds_def chrono_secs_def)

text \<open>What the fetched windows hold: for each window that is there, the rows of that window.\<close>

definition windows_hold :: "(instant \<Rightarrow> instant \<Rightarrow> revenue_event list) \<Rightarrow> instant
    \<Rightarrow> (int \<times> revenue_event list) list \<Rightarrow> bool" where
  "windows_hold rows now w \<longleftrightarrow> (\<forall>r. map_of w (window_key r)
     \<in> {None, Some (rows (window_since (lr_window r) now) now)})"

lemma windows_hold_update:
  "windows_hold rows now w
   \<Longrightarrow> windows_hold rows now (AList.update (window_key r) (rows (window_since (lr_window r) now) now) w)"
  unfolding windows_hold_def
  by (auto simp: window_key_eq)

lemma fetch_windows_hold:
  assumes "\<And>s u. fetch s u = Inr (rows s u)" and "windows_hold rows now windows"
  shows "\<exists>w. fetch_windows rules now fetch windows = Inr w \<and> windows_hold rows now w
    \<and> dom (map_of windows) \<subseteq> dom (map_of w)
    \<and> (\<forall>r \<in> set rules. needs_revenue r \<longrightarrow> window_key r \<in> dom (map_of w))"
  using assms(2)
proof (induction rules arbitrary: windows)
  case Nil
  then show ?case by simp
next
  case (Cons r rs)
  show ?case
  proof (cases "needs_revenue r \<and> map_of windows (window_key r) = None")
    case True
    let ?w = "AList.update (window_key r) (rows (window_since (lr_window r) now) now) windows"
    obtain w where "fetch_windows rs now fetch ?w = Inr w" "windows_hold rows now w"
      "dom (map_of ?w) \<subseteq> dom (map_of w)" "\<forall>r \<in> set rs. needs_revenue r \<longrightarrow> window_key r \<in> dom (map_of w)"
      using Cons.IH [OF windows_hold_update [OF Cons.prems]] by blast
    then show ?thesis using True assms(1) [of "window_since (lr_window r) now" now]
      by (intro exI [of _ w]) auto
  next
    case False
    obtain w where "fetch_windows rs now fetch windows = Inr w" "windows_hold rows now w"
      "dom (map_of windows) \<subseteq> dom (map_of w)" "\<forall>r \<in> set rs. needs_revenue r \<longrightarrow> window_key r \<in> dom (map_of w)"
      using Cons.IH [OF Cons.prems] by blast
    then show ?thesis using False by (intro exI [of _ w]) auto
  qed
qed

lemma resolve_from_windows_other:
  "i \<notin> lr_id ` set (filter needs_revenue rules)
   \<Longrightarrow> map_of (resolve_from_windows rules now windows out) i = map_of out i"
  by (induction rules arbitrary: out) (auto split: option.splits if_splits)

lemma resolve_from_windows_at:
  assumes "distinct (map lr_id rules)" "r \<in> set rules" "needs_revenue r"
    and "map_of windows (window_key r) = Some k"
  shows "map_of (resolve_from_windows rules now windows out) (lr_id r)
    = Some (threshold_resolve (lr_threshold r) (measured_revenue r now k))"
  using assms
proof (induction rules arbitrary: out)
  case Nil
  then show ?case by simp
next
  case (Cons x xs)
  show ?case
  proof (cases "r = x")
    case True
    then have "lr_id r \<notin> lr_id ` set (filter needs_revenue xs)" using Cons.prems(1) by auto
    then show ?thesis using True Cons.prems by (simp add: resolve_from_windows_other)
  next
    case False
    then have "r \<in> set xs" "distinct (map lr_id xs)" using Cons.prems by auto
    then show ?thesis using Cons.IH Cons.prems(3,4) by (auto split: option.splits)
  qed
qed

text \<open>
  Resolving a whole rule set from one fetch per distinct window gives every revenue-share rule
  what fetching its own window and its own customer would have given it, and leaves fixed thresholds
  alone; windows are never mixed up.
\<close>

theorem prefetch_is_per_rule:
  assumes "\<And>s u. fetch s u = Inr (rows s u)" and "distinct (map lr_id rules)" and "r \<in> set rules"
  shows "\<exists>out. resolve_all rules now fetch = Inr out
    \<and> resolver out r = threshold_resolve (lr_threshold r)
        (if needs_revenue r
         then measured_revenue r now (rows (window_since (lr_window r) now) now) else None)"
proof -
  have "windows_hold rows now []" by (simp add: windows_hold_def)
  then obtain w where w: "fetch_windows rules now fetch [] = Inr w" "windows_hold rows now w"
    "\<forall>r \<in> set rules. needs_revenue r \<longrightarrow> window_key r \<in> dom (map_of w)"
    using fetch_windows_hold [of fetch rows now "[]" rules] assms(1) by blast
  show ?thesis
  proof (cases "needs_revenue r")
    case True
    then obtain k where k: "map_of w (window_key r) = Some k" using w(3) assms(3) by blast
    moreover have "map_of w (window_key r) \<in> {None, Some (rows (window_since (lr_window r) now) now)}"
      using w(2) by (simp only: windows_hold_def)
    ultimately have "k = rows (window_since (lr_window r) now) now" by simp
    then show ?thesis
      using True w(1) resolve_from_windows_at [OF assms(2,3) True k]
      by (simp add: resolve_all_def resolver_def)
  next
    case False
    then obtain v where v: "lr_threshold r = Fixed v"
      by (cases "lr_threshold r") (auto simp: needs_revenue_def)
    have "lr_id r \<notin> lr_id ` set (filter needs_revenue rules)"
    proof
      assume "lr_id r \<in> lr_id ` set (filter needs_revenue rules)"
      then obtain x where "x \<in> set rules" "needs_revenue x" "lr_id x = lr_id r" by auto
      then show False using assms(2,3) False by (auto simp: distinct_map dest: inj_onD)
    qed
    then show ?thesis
      using False w(1) by (simp add: resolve_all_def resolver_def resolve_from_windows_other)
  qed
qed

lemma fabs_nonneg: "is_finite x \<Longrightarrow> Fin 0 \<le> fabs x"
  by (cases x) auto

lemma num_seconds_mono: "0 \<le> a \<Longrightarrow> a \<le> b \<Longrightarrow> num_seconds a \<le> num_seconds b"
  by (simp add: num_seconds_def zdiv_mono1)

text \<open>
  A record is recognized for at most its amount and never with the wrong sign: over any window,
  a charge contributes between zero and its amount, a refund between minus its amount and zero,
  provided a period, when it has one, lasts at least a second.
\<close>

theorem recognized_within_amount:
  assumes "rv_amount_usd r = Fin a" and "representable a"
    and "\<And>ps pe. rv_period_start r = Some ps \<Longrightarrow> rv_period_end r = Some pe \<Longrightarrow> ps < pe
           \<Longrightarrow> 1000000000 \<le> pe - ps \<and> num_seconds (pe - ps) \<le> 2 ^ 63"
  shows "if rv_kind r = RkRefund then Fin (- \<bar>a\<bar>) \<le> recognized_amount r since until
             \<and> recognized_amount r since until \<le> 0
         else 0 \<le> recognized_amount r since until \<and> recognized_amount r since until \<le> Fin \<bar>a\<bar>"
proof -
  have rep: "representable \<bar>a\<bar>" "representable (- \<bar>a\<bar>)"
    using assms(2) representable_minus by (auto simp: abs_if)
  have scaled: "Fin 0 \<le> rnd (\<bar>a\<bar> * q)" "rnd (\<bar>a\<bar> * q) \<le> Fin \<bar>a\<bar>"
    "Fin (- \<bar>a\<bar>) \<le> rnd (- \<bar>a\<bar> * q)" "rnd (- \<bar>a\<bar> * q) \<le> Fin 0" if "0 \<le> q" "q \<le> 1" for q
  proof -
    have m: "0 \<le> \<bar>a\<bar> * q" "\<bar>a\<bar> * q \<le> \<bar>a\<bar>" using that by (simp_all add: mult_left_le)
    then show "Fin 0 \<le> rnd (\<bar>a\<bar> * q)" by (intro rnd_nonneg)
    show "rnd (\<bar>a\<bar> * q) \<le> Fin \<bar>a\<bar>" by (rule rnd_le_exact [OF rep(1) m(2)])
    show "Fin (- \<bar>a\<bar>) \<le> rnd (- \<bar>a\<bar> * q)" by (rule rnd_ge_exact [OF rep(2)]) (use m in simp)
    show "rnd (- \<bar>a\<bar> * q) \<le> Fin 0" by (rule rnd_le_exact) (use m in simp_all)
  qed
  have share: "\<exists>q. f64_of_int (num_seconds x) / f64_of_int (num_seconds y) = Fin q \<and> 0 \<le> q \<and> q \<le> 1"
    if "0 \<le> x" "x \<le> y" "1000000000 \<le> y" "num_seconds y \<le> 2 ^ 63" for x y
  proof -
    have "0 \<le> num_seconds x" "num_seconds x \<le> num_seconds y" "1 \<le> num_seconds y"
      using that num_seconds_mono [of x y] num_seconds_mono [of 1000000000 y]
      by (simp_all add: num_seconds_def)
    note le = this and top = that(4)
    obtain u v where "f64_of_int (num_seconds x) = Fin u" "0 \<le> u" "u \<le> v" "1 \<le> v"
      "f64_of_int (num_seconds y) = Fin v"
      using f64_count [of "num_seconds x"] f64_count [of "num_seconds y"] top le
        f64_of_int_mono [of "num_seconds x" "num_seconds y"] by auto
    moreover from this have "Fin 0 \<le> rnd (u / v)" "rnd (u / v) \<le> Fin 1"
      by (auto intro!: rnd_nonneg rnd_le_exact)
    ultimately show ?thesis by (cases "rnd (u / v)") auto
  qed
  have overlap: "\<exists>q. f64_of_int (num_seconds (min pe until - max ps since))
        / f64_of_int (num_seconds (pe - ps)) = Fin q \<and> 0 \<le> q \<and> q \<le> 1"
    if "rv_period_start r = Some ps" "rv_period_end r = Some pe" "ps < pe"
      "\<not> min pe until \<le> max ps since" for ps pe
    using assms(3) [OF that(1-3)] that(4) by (intro share) auto
  show ?thesis
    using scaled overlap assms(1) scaled [of 1] rep
    by (fastforce simp: recognized_amount_def Let_def split: option.splits if_splits)
qed

section \<open>Witnesses\<close>

definition sample_charge :: revenue_event where
  "sample_charge = \<lparr>rv_project = ''p'', rv_customer = None, rv_amount_usd = Fin 8, rv_kind = RkOneTime,
     rv_period_start = None, rv_period_end = None, rv_ts = 5\<rparr>"

lemma prefetch_is_per_rule_witness:
  "\<exists>out. resolve_all [sample_rule] 10 (\<lambda>s u. Inr [sample_charge]) = Inr out
    \<and> resolver out sample_rule = threshold_resolve (lr_threshold sample_rule)
        (measured_revenue sample_rule 10 [sample_charge])"
  using prefetch_is_per_rule [where fetch = "\<lambda>s u. Inr [sample_charge]" and rows = "\<lambda>s u. [sample_charge]"
      and rules = "[sample_rule]" and r = sample_rule and now = 10]
  by (simp add: needs_revenue_def sample_rule_fields)

lemma recognized_within_amount_witness:
  "0 \<le> recognized_amount sample_charge 0 10 \<and> recognized_amount sample_charge 0 10 \<le> Fin 8"
  using recognized_within_amount [of sample_charge 8 0 10] representable_8
  by (simp add: sample_charge_def)

text \<open>A period shorter than a second has no length in whole seconds: its share is not a number.\<close>

lemma subsecond_period_is_NaN:
  "recognized_amount (sample_charge\<lparr>rv_period_start := Some 0, rv_period_end := Some 500\<rparr>) 0 1000 = NaN"
  by (simp add: recognized_amount_def sample_charge_def num_seconds_def f64_of_int_def signed_inf_def)

end
