(* ===== verification/UsageCache.thy ===== *)
theory UsageCache
  imports RevenueShare "HOL-Library.Multiset"
begin

text \<open>
  The events table of the SQLite store as accounting sees it, the incremental rolling-usage cache of
  \<^verbatim>\<open>crates/store/src/sqlite/usage_cache.rs\<close> and the checked inserts of \<^verbatim>\<open>events.rs\<close> and
  \<^verbatim>\<open>mod.rs\<close> that decide on it. The cache is related to the full scan of the window it stands for:
  exactly for every counter, and for money wherever the sums are exact in binary64.
\<close>

section \<open>The events table\<close>

text \<open>
  A stored row. Timestamps are kept as the fixed-width nanosecond strings of \<open>fmt_ts\<close>, whose string
  order is the order of the instants, so the model keeps the instants; JSON columns keep the value
  they hold. Token columns are the 64-bit integers \<^verbatim>\<open>as i64\<close> wrote.
\<close>

record event_row =
  er_rowid :: int
  er_id :: string
  er_project :: string
  er_trace_id :: "string option"
  er_span_id :: "string option"
  er_parent_span_id :: "string option"
  er_ts :: instant
  er_provider :: string
  er_model :: string
  er_name :: "string option"
  er_operation :: operation
  er_input :: int
  er_output :: int
  er_cached_input :: "int option"
  er_reasoning :: "int option"
  er_cost_usd :: "f64 option"
  er_latency_ms :: "int option"
  er_status :: call_status
  er_error :: "string option"
  er_prompt :: "meta_value option"
  er_completion :: "meta_value option"
  er_tags :: "string list"
  er_source :: "string option"
  er_metadata :: metadata
  er_received_at :: "instant option"

definition er_arrival :: "event_row \<Rightarrow> instant" where
  "er_arrival r = (case er_received_at r of Some t \<Rightarrow> t | None \<Rightarrow> er_ts r)"

text \<open>An implicit rowid is one more than the largest in the table.\<close>

definition next_rowid :: "event_row list \<Rightarrow> int" where
  "next_rowid t = fold max (map er_rowid t) 0 + 1"

definition row_of_event :: "int \<Rightarrow> llm_event \<Rightarrow> event_row" where
  "row_of_event i ev = \<lparr>er_rowid = i, er_id = ev_id ev, er_project = ev_project ev,
     er_trace_id = ev_trace_id ev, er_span_id = ev_span_id ev,
     er_parent_span_id = ev_parent_span_id ev, er_ts = ev_ts ev,
     er_provider = ev_provider ev, er_model = ev_model ev, er_name = ev_name ev, er_operation = ev_operation ev,
     er_input = sint (ev_input ev), er_output = sint (ev_output ev),
     er_cached_input = map_option sint (ev_cached_input ev),
     er_reasoning = map_option sint (ev_reasoning ev), er_cost_usd = ev_cost_usd ev,
     er_latency_ms = map_option sint (ev_latency_ms ev),
     er_status = ev_status ev, er_error = ev_error ev, er_prompt = ev_prompt ev,
     er_completion = ev_completion ev, er_tags = ev_tags ev, er_source = ev_source ev,
     er_metadata = ev_metadata ev, er_received_at = Some (ev_received_at ev)\<rparr>"

definition event_insert :: "event_row list \<Rightarrow> llm_event \<Rightarrow> store_error + event_row list" where
  "event_insert t ev =
     (if \<exists>r \<in> set t. er_id r = ev_id ev then Inl (SeConflict (''event '' @ [CHR 0x27] @ ev_id ev @ [CHR 0x27] @ '' already exists''))
      else Inr (t @ [row_of_event (next_rowid t) ev]))"

text \<open>Reading a row back; an unsigned count is the stored word reinterpreted.\<close>

definition event_from_raw :: "event_row \<Rightarrow> llm_event" where
  "event_from_raw r = \<lparr>ev_id = er_id r, ev_project = er_project r, ev_trace_id = er_trace_id r,
     ev_span_id = er_span_id r, ev_parent_span_id = er_parent_span_id r, ev_ts = er_ts r,
     ev_received_at = er_arrival r, ev_provider = provider_id (er_provider r), ev_model = er_model r,
     ev_name = er_name r, ev_operation = er_operation r,
     ev_input = word_of_int (er_input r), ev_output = word_of_int (er_output r),
     ev_cached_input = map_option word_of_int (er_cached_input r),
     ev_reasoning = map_option word_of_int (er_reasoning r), ev_cost_usd = er_cost_usd r,
     ev_latency_ms = map_option word_of_int (er_latency_ms r),
     ev_status = er_status r, ev_error = er_error r, ev_prompt = er_prompt r,
     ev_completion = er_completion r, ev_tags = er_tags r, ev_source = er_source r,
     ev_metadata = er_metadata r\<rparr>"

definition event_get :: "event_row list \<Rightarrow> string option \<Rightarrow> string \<Rightarrow> llm_event option" where
  "event_get t project i = map_option event_from_raw
     (find (\<lambda>r. er_id r = i \<and> (case project of None \<Rightarrow> True | Some p \<Rightarrow> er_project r = p)) t)"

lemma row_of_event_reads:
  "provider_id (ev_provider ev) = ev_provider ev \<Longrightarrow> event_from_raw (row_of_event i ev) = ev"
  by (simp add: event_from_raw_def row_of_event_def er_arrival_def option.map_comp comp_def option.map_ident)

lemma find_snoc: "find P (t @ [r]) = (case find P t of Some x \<Rightarrow> Some x | None \<Rightarrow> if P r then Some r else None)"
  by (induction t) auto

lemma event_insert_reads:
  assumes "event_insert t ev = Inr t'" and "provider_id (ev_provider ev) = ev_provider ev"
  shows "event_get t' (Some (ev_project ev)) (ev_id ev) = Some ev"
    and "k \<noteq> ev_id ev \<Longrightarrow> event_get t' p k = event_get t p k"
proof -
  have t': "t' = t @ [row_of_event (next_rowid t) ev]" and "\<not> (\<exists>r \<in> set t. er_id r = ev_id ev)"
    using assms(1) by (auto simp: event_insert_def split: if_splits)
  then have fresh: "find (\<lambda>r. er_id r = ev_id ev \<and> Q r) t = None" for Q
    by (auto simp: find_None_iff)
  have id: "er_id (row_of_event i ev) = ev_id ev" "er_project (row_of_event i ev) = ev_project ev" for i
    by (simp_all add: row_of_event_def)
  show "event_get t' (Some (ev_project ev)) (ev_id ev) = Some ev"
    using row_of_event_reads [OF assms(2)] by (simp add: event_get_def t' find_snoc fresh id)
  show "event_get t' p k = event_get t p k" if "k \<noteq> ev_id ev"
    using that by (auto simp: event_get_def t' find_snoc id split: option.splits)
qed

text \<open>
  What is stored reads back. An event whose provider is a canonical id is read back from its row
  exactly as it was, token counts beyond the signed range included; an event inserted under a fresh
  id is found under it by its own project, and every event there before is still found as it was.
\<close>

theorem insert_then_get:
  assumes "provider_id (ev_provider ev) = ev_provider ev"
  shows "event_from_raw (row_of_event i ev) = ev
    \<and> (\<forall>t t'. event_insert t ev = Inr t' \<longrightarrow> event_get t' (Some (ev_project ev)) (ev_id ev) = Some ev
        \<and> (\<forall>p k. k \<noteq> ev_id ev \<longrightarrow> event_get t' p k = event_get t p k))"
  using row_of_event_reads [OF assms] event_insert_reads assms by blast

section \<open>The cache\<close>

record bucket =
  b_total :: usage
  b_items :: "((instant \<times> int) \<times> usage) list"
  b_seen :: int

definition bucket_default :: bucket where
  "bucket_default = \<lparr>b_total = usage_default, b_items = [], b_seen = 0\<rparr>"

text \<open>Insertion into a \<^verbatim>\<open>BTreeMap\<close>: the list of its entries in key order.\<close>

fun bt_insert :: "'k :: linorder \<Rightarrow> 'v \<Rightarrow> ('k \<times> 'v) list \<Rightarrow> ('k \<times> 'v) list" where
  "bt_insert k v [] = [(k, v)]"
| "bt_insert k v ((k', v') # m) =
     (if k < k' then (k, v) # (k', v') # m
      else if k = k' then (k, v) # m
      else (k', v') # bt_insert k v m)"

text \<open>
  A freshly loaded row. The projected token sum \<^verbatim>\<open>input_tokens + output_tokens\<close> is a real number
  to SQLite where it leaves the 64-bit range, and does not read as an \<^verbatim>\<open>i64\<close> then; \<^verbatim>\<open>json_extract\<close>
  answers null and text for null and strings, the JSON text of an object or array, and an integer or
  real for a scalar, which does not read as an \<^verbatim>\<open>Option<String>\<close>.
\<close>

record new_row =
  nr_rowid :: int
  nr_project :: string
  nr_provider :: string
  nr_model :: string
  nr_name :: "string option"
  nr_received_at :: instant
  nr_cost :: "f64 option"
  nr_tokens :: i64
  nr_cost_source :: "string option"
  nr_api_key_id :: "string option"
  nr_customer_id :: "string option"

definition json_text :: "metadata \<Rightarrow> string \<Rightarrow> string option" where
  "json_text md k = (case meta_get md k of
     Some (MvText s) \<Rightarrow> Some s
   | Some (MvObject s) \<Rightarrow> Some (''{'' @ s @ ''}'')
   | Some (MvArray s) \<Rightarrow> Some (''['' @ s @ '']'')
   | _ \<Rightarrow> None)"

definition row_reads :: "event_row \<Rightarrow> bool" where
  "row_reads r \<longleftrightarrow> in_i64 (er_input r + er_output r)
     \<and> (\<forall>k \<in> {''cost_source'', ''api_key_id'', ''customer_id''}. meta_get (er_metadata r) k \<noteq> Some MvScalar)"

definition read_row :: "event_row \<Rightarrow> new_row" where
  "read_row r = \<lparr>nr_rowid = er_rowid r, nr_project = er_project r, nr_provider = er_provider r,
     nr_model = er_model r, nr_name = er_name r, nr_received_at = er_arrival r,
     nr_cost = er_cost_usd r, nr_tokens = word_of_int (er_input r + er_output r),
     nr_cost_source = json_text (er_metadata r) ''cost_source'',
     nr_api_key_id = json_text (er_metadata r) ''api_key_id'',
     nr_customer_id = json_text (er_metadata r) ''customer_id''\<rparr>"

definition from_row :: "event_row \<Rightarrow> store_error + new_row" where
  "from_row r = (if row_reads r then Inr (read_row r) else Inl SeSqlite)"

definition row_contribution :: "new_row \<Rightarrow> usage" where
  "row_contribution r = (let cost = (case nr_cost r of Some c \<Rightarrow> c | None \<Rightarrow> 0) in
     \<lparr>u_cost_usd = cost, u_calls = 1, u_tokens = nr_tokens r,
      u_unpriced = (if nr_cost r = None then 1 else 0),
      u_client_cost = (if nr_cost_source r = Some ''client'' then cost else 0)\<rparr>)"

definition row_scope_dims :: "new_row \<Rightarrow> scope_dims" where
  "row_scope_dims r = \<lparr>sd_provider = nr_provider r, sd_model = nr_model r, sd_name = nr_name r,
     sd_api_key_id = nr_api_key_id r, sd_customer_id = nr_customer_id r\<rparr>"

definition fold_row :: "string \<Rightarrow> limit_scope option \<Rightarrow> bucket \<Rightarrow> new_row \<Rightarrow> bucket" where
  "fold_row project scope b r =
     (let b = (if b_seen b < nr_rowid r then b\<lparr>b_seen := nr_rowid r\<rparr> else b)
      in if nr_project r \<noteq> project then b
         else if \<not> scope_matches scope (row_scope_dims r) then b
         else let c = row_contribution r in
           b\<lparr>b_total := usage_plus (b_total b) c,
             b_items := bt_insert (nr_received_at r, nr_rowid r) c (b_items b)\<rparr>)"

fun decode_rows :: "event_row list \<Rightarrow> store_error + new_row list" where
  "decode_rows [] = Inr []"
| "decode_rows (r # rs) =
     (case from_row r of Inl e \<Rightarrow> Inl e
      | Inr n \<Rightarrow> (case decode_rows rs of Inl e \<Rightarrow> Inl e | Inr ns \<Rightarrow> Inr (n # ns)))"

definition load_new :: "event_row list \<Rightarrow> string \<Rightarrow> limit_scope option \<Rightarrow> bucket
    \<Rightarrow> store_error + bucket" where
  "load_new t project scope b =
     (case decode_rows (filter (\<lambda>r. b_seen b < er_rowid r) t) of
        Inl e \<Rightarrow> Inl e
      | Inr ds \<Rightarrow> Inr (foldl (fold_row project scope) b ds))"

fun evict_items :: "instant \<Rightarrow> usage \<Rightarrow> ((instant \<times> int) \<times> usage) list
    \<Rightarrow> usage \<times> ((instant \<times> int) \<times> usage) list" where
  "evict_items since tot [] = (tot, [])"
| "evict_items since tot ((k, c) # m) =
     (if fst k < since then evict_items since (usage_minus tot c) m else (tot, (k, c) # m))"

definition evict_before :: "instant \<Rightarrow> bucket \<Rightarrow> bucket" where
  "evict_before since b =
     (let (tot, items) = evict_items since (b_total b) (b_items b)
      in b\<lparr>b_total := (if items = [] then usage_default else tot), b_items := items\<rparr>)"

type_synonym cache_key = "string \<times> limit_window \<times> limit_scope option"
type_synonym usage_cache = "(cache_key \<times> bucket) list"

definition cache_reset :: "usage_cache \<Rightarrow> usage_cache" where
  "cache_reset c = []"

definition bucket_of :: "usage_cache \<Rightarrow> cache_key \<Rightarrow> bucket" where
  "bucket_of c k = (case map_of c k of Some b \<Rightarrow> b | None \<Rightarrow> bucket_default)"

definition cache_usage :: "event_row list \<Rightarrow> string \<Rightarrow> instant \<Rightarrow> usage_cache
    \<Rightarrow> limit_window \<Rightarrow> limit_scope option \<Rightarrow> (store_error + usage) \<times> usage_cache" where
  "cache_usage t project now c w scope =
     (let k = (project, w, scope); b = bucket_of c k in
      case load_new t project scope b of
        Inl e \<Rightarrow> (Inl e, AList.update k b c)
      | Inr b' \<Rightarrow>
          (let b'' = evict_before (window_since w now) b'
           in (Inr (b_total b''), AList.update k b'' c)))"

section \<open>Checked inserts\<close>

record database =
  db_events :: "event_row list"
  db_rules :: "limit_rule list"
  db_revenue :: "revenue_event list"

definition enabled_rules :: "database \<Rightarrow> string \<Rightarrow> limit_rule list" where
  "enabled_rules db project = filter (\<lambda>r. lr_project_id r = project \<and> lr_enabled r) (db_rules db)"

definition insert_checked_with_rules :: "database \<Rightarrow> usage_cache \<Rightarrow> llm_event \<Rightarrow> limit_rule list
    \<Rightarrow> instant \<Rightarrow> (store_error + admission) \<times> database \<times> usage_cache" where
  "insert_checked_with_rules db c ev rules now =
     (case resolve_all rules now (\<lambda>s u. Inr (revenue_list (db_revenue db) (Some (ev_project ev)) s u)) of
        Inl e \<Rightarrow> (Inl e, db, c)
      | Inr res \<Rightarrow>
          (case evaluate_admission_at rules ev (event_contribution ev) now
                  (cache_usage (db_events db) (ev_project ev) now) (resolver res) c of
             (Inl e, c') \<Rightarrow> (Inl e, db, c')
           | (Inr a, c') \<Rightarrow>
               if ad_admitted a then
                 (case event_insert (db_events db) ev of
                    Inl e \<Rightarrow> (Inl e, db, c')
                  | Inr t \<Rightarrow> (Inr a, db\<lparr>db_events := t\<rparr>, c'))
               else (Inr a, db, c')))"

definition insert_checked :: "database \<Rightarrow> usage_cache \<Rightarrow> llm_event \<Rightarrow> instant
    \<Rightarrow> (store_error + admission) \<times> database \<times> usage_cache" where
  "insert_checked db c ev now =
     insert_checked_with_rules db c ev (enabled_rules db (ev_project ev)) now"

text \<open>
  A batch runs in one transaction, its rules fetched once per project; the environment decides whether
  the transaction begins and whether it commits (the text of the error where not). Each item carries the clock reading of its turn.
\<close>

fun batch_loop :: "(llm_event \<times> instant) list \<Rightarrow> (string \<times> limit_rule list) list
    \<Rightarrow> database \<Rightarrow> usage_cache \<Rightarrow> (store_error + admission) list
    \<Rightarrow> (store_error + admission) list \<times> database \<times> usage_cache" where
  "batch_loop [] memo db c out = (out, db, c)"
| "batch_loop ((ev, now) # evs) memo db c out =
     (let (rules, memo) =
            (case map_of memo (ev_project ev) of
               Some rs \<Rightarrow> (rs, memo)
             | None \<Rightarrow> (let rs = enabled_rules db (ev_project ev)
                       in (rs, AList.update (ev_project ev) rs memo)));
          (res, db, c) = insert_checked_with_rules db c ev rules now
      in batch_loop evs memo db c (out @ [res]))"

definition insert_events_checked :: "string option \<Rightarrow> string option \<Rightarrow> database \<Rightarrow> usage_cache
    \<Rightarrow> (llm_event \<times> instant) list
    \<Rightarrow> (store_error + admission) list \<times> database \<times> usage_cache" where
  "insert_events_checked begin_error commit_error db c evs =
     (case begin_error of
        Some e \<Rightarrow> (map (\<lambda>_. Inl (SeOther (''batch begin failed: '' @ e))) evs, db, c)
      | None \<Rightarrow>
          (let (out, db', c') = batch_loop evs [] db c []
           in case commit_error of
                None \<Rightarrow> (out, db', c')
              | Some e \<Rightarrow>
                  (map (\<lambda>_. Inl (SeOther (''batch commit failed: '' @ e))) evs, db, cache_reset c')))"

text \<open>The rows a key selects, and what each adds to its bucket.\<close>

definition selected :: "string \<Rightarrow> limit_scope option \<Rightarrow> event_row \<Rightarrow> bool" where
  "selected project scope r \<longleftrightarrow> er_project r = project \<and> scope_matches scope (row_scope_dims (read_row r))"

definition row_usage :: "event_row \<Rightarrow> usage" where
  "row_usage r = row_contribution (read_row r)"

definition row_entry :: "event_row \<Rightarrow> (instant \<times> int) \<times> usage" where
  "row_entry r = ((er_arrival r, er_rowid r), row_usage r)"

lemma read_row_simps [simp]:
  "nr_rowid (read_row r) = er_rowid r" "nr_project (read_row r) = er_project r"
  "nr_received_at (read_row r) = er_arrival r"
  by (simp_all add: read_row_def)

lemma decode_rows_ok: "(\<And>r. r \<in> set rs \<Longrightarrow> row_reads r) \<Longrightarrow> decode_rows rs = Inr (map read_row rs)"
  by (induction rs) (auto simp: from_row_def)

lemma decode_rows_bad: "\<exists>r \<in> set rs. \<not> row_reads r \<Longrightarrow> decode_rows rs = Inl SeSqlite"
  by (induction rs) (auto simp: from_row_def split: sum.splits)

text \<open>The reference: the aggregate of the window, row by row in rowid order.\<close>

definition usage_scan :: "event_row list \<Rightarrow> string \<Rightarrow> limit_scope option \<Rightarrow> instant \<Rightarrow> usage" where
  "usage_scan t project scope since =
     foldl usage_plus usage_default
       (map row_usage (filter (\<lambda>r. selected project scope r \<and> since \<le> er_arrival r) t))"

section \<open>A running total and the contributions it stands for\<close>

text \<open>
  The contract of a total that is kept by adding and taking away: \<open>stands u M\<close> says that the snapshot
  \<open>u\<close> is the total of the contributions in the multiset \<open>M\<close>, and \<open>fits M\<close> that totals up to \<open>M\<close> are
  exact. The cache is proved once against the contract; the counters satisfy it for every multiset,
  money for those that fit a grid of doubles.
\<close>

locale window_total =
  fixes stands :: "usage \<Rightarrow> usage multiset \<Rightarrow> bool"
    and fits :: "usage multiset \<Rightarrow> bool"
  assumes empty_stands: "stands usage_default {#}"
    and plus_stands: "fits (add_mset x M) \<Longrightarrow> stands u M \<Longrightarrow> stands (usage_plus u x) (add_mset x M)"
    and minus_stands: "fits (add_mset x M) \<Longrightarrow> stands u (add_mset x M) \<Longrightarrow> stands (usage_minus u x) M"
    and fits_subset: "fits N \<Longrightarrow> M \<subseteq># N \<Longrightarrow> fits M"

definition bucket_holds :: "(usage \<Rightarrow> usage multiset \<Rightarrow> bool) \<Rightarrow> bucket
    \<Rightarrow> ((instant \<times> int) \<times> usage) multiset \<Rightarrow> bool" where
  "bucket_holds stands b M \<longleftrightarrow>
     sorted (map fst (b_items b)) \<and> mset (b_items b) = M \<and> stands (b_total b) (image_mset snd M)"

lemma mset_bt_insert: "k \<notin> fst ` set m \<Longrightarrow> mset (bt_insert k v m) = add_mset (k, v) (mset m)"
  by (induction m) auto

lemma set_fst_bt_insert: "fst ` set (bt_insert k v m) = insert k (fst ` set m)"
proof (induction m)
  case (Cons x m)
  then show ?case by (cases x) (simp add: insert_commute)
qed simp

lemma sorted_bt_insert: "sorted (map fst m) \<Longrightarrow> sorted (map fst (bt_insert k v m))"
proof (induction m)
  case Nil
  then show ?case by simp
next
  case (Cons kv m)
  obtain k' v' where kv: "kv = (k', v')" by (cases kv)
  have "set (map fst (bt_insert k v m)) = insert k (fst ` set m)"
    using set_fst_bt_insert [of k v m] by simp
  with Cons kv show ?case by auto
qed

context window_total
begin

lemma default_holds: "bucket_holds stands (bucket_default\<lparr>b_seen := n\<rparr>) {#}"
  by (simp add: bucket_holds_def bucket_default_def empty_stands)

lemma fold_row_holds:
  assumes "bucket_holds stands b M" and "(er_arrival r, er_rowid r) \<notin> fst ` set_mset M"
    and "fits (add_mset (row_usage r) (image_mset snd M))"
  shows "bucket_holds stands (fold_row project scope b (read_row r))
    (if selected project scope r then add_mset (row_entry r) M else M)"
  using assms plus_stands [OF assms(3), of "b_total b"]
  by (auto simp: bucket_holds_def fold_row_def Let_def mset_bt_insert sorted_bt_insert selected_def
      row_entry_def row_usage_def)

lemma evict_items_holds:
  assumes "sorted (map fst m)" and "stands u (image_mset snd (mset m))"
    and "fits (image_mset snd (mset m))"
  shows "evict_items since u m = (fst (evict_items since u m), filter (\<lambda>x. since \<le> fst (fst x)) m)
    \<and> stands (fst (evict_items since u m)) (image_mset snd (filter_mset (\<lambda>x. since \<le> fst (fst x)) (mset m)))"
  using assms
proof (induction m arbitrary: u)
  case Nil
  then show ?case by simp
next
  case (Cons kc m)
  obtain k c where kc: "kc = (k, c)" by (cases kc)
  show ?case
  proof (cases "fst k < since")
    case True
    have "stands (usage_minus u c) (image_mset snd (mset m))"
      using Cons.prems(2,3) kc by (auto intro: minus_stands)
    moreover have "fits (image_mset snd (mset m))"
      using Cons.prems(3) kc by (auto intro: fits_subset)
    ultimately show ?thesis using Cons.IH [of "usage_minus u c"] Cons.prems(1) kc True by simp
  next
    case False
    have "since \<le> fst (fst x)" if "x \<in> set m" for x
    proof -
      have "k \<le> fst x" using Cons.prems(1) that kc by auto
      then have "fst k \<le> fst (fst x)" by (auto simp: less_eq_prod_def)
      with False show ?thesis by simp
    qed
    then have "filter (\<lambda>x. since \<le> fst (fst x)) m = m"
      "filter_mset (\<lambda>x. since \<le> fst (fst x)) (mset m) = mset m"
      by (simp_all add: filter_id_conv filter_mset_eq_conv)
    then show ?thesis using Cons.prems kc False by simp
  qed
qed

lemma evict_before_holds:
  assumes "bucket_holds stands b M" and "fits (image_mset snd M)"
  shows "bucket_holds stands (evict_before since b) (filter_mset (\<lambda>x. since \<le> fst (fst x)) M)"
proof -
  let ?f = "\<lambda>x :: (instant \<times> int) \<times> usage. since \<le> fst (fst x)"
  have b: "sorted (map fst (b_items b))" "mset (b_items b) = M" "stands (b_total b) (image_mset snd M)"
    using assms(1) by (simp_all add: bucket_holds_def)
  obtain tot where tot: "evict_items since (b_total b) (b_items b) = (tot, filter ?f (b_items b))"
    "stands tot (image_mset snd (filter_mset ?f M))"
    using evict_items_holds [of "b_items b" "b_total b" since] b assms(2) by auto
  have "sorted (map fst (filter ?f (b_items b)))" using b(1) by (rule sorted_filter)
  moreover have m: "mset (filter ?f (b_items b)) = filter_mset ?f M"
    using b(2) by (simp only: mset_filter)
  moreover have "stands (if filter ?f (b_items b) = [] then usage_default else tot)
      (image_mset snd (filter_mset ?f M))"
  proof (cases "filter ?f (b_items b) = []")
    case True
    then have none: "filter_mset ?f M = {#}" using m by (simp only: mset.simps)
    show ?thesis unfolding none using True empty_stands by simp
  next
    case False
    with tot(2) show ?thesis by simp
  qed
  moreover have "b_items (evict_before since b) = filter ?f (b_items b)"
    "b_total (evict_before since b) = (if filter ?f (b_items b) = [] then usage_default else tot)"
    unfolding evict_before_def Let_def tot(1) by simp_all
  ultimately show ?thesis by (simp only: bucket_holds_def)
qed

lemma fold_rows_hold:
  assumes "bucket_holds stands b M"
    and "distinct (map er_rowid rs)" and "snd ` fst ` set_mset M \<inter> er_rowid ` set rs = {}"
    and "fits (image_mset snd (M + mset (map row_entry (filter (selected project scope) rs))))"
  shows "bucket_holds stands (foldl (fold_row project scope) b (map read_row rs))
    (M + mset (map row_entry (filter (selected project scope) rs)))"
  using assms
proof (induction rs arbitrary: b M)
  case Nil
  then show ?case by simp
next
  case (Cons r rs)
  let ?M = "if selected project scope r then add_mset (row_entry r) M else M"
  have fresh: "(er_arrival r, er_rowid r) \<notin> fst ` set_mset M"
    using Cons.prems(3) by (force simp: image_iff)
  have all: "?M + mset (map row_entry (filter (selected project scope) rs))
      = M + mset (map row_entry (filter (selected project scope) (r # rs)))" by simp
  have "bucket_holds stands (fold_row project scope b (read_row r)) ?M"
  proof (cases "selected project scope r")
    case True
    have "add_mset (row_usage r) (image_mset snd M)
        \<subseteq># image_mset snd (M + mset (map row_entry (filter (selected project scope) (r # rs))))"
      using True by (simp add: row_entry_def)
    then have "fits (add_mset (row_usage r) (image_mset snd M))"
      using Cons.prems(4) fits_subset by blast
    then show ?thesis
      using fold_row_holds [OF Cons.prems(1) fresh, of project scope] True by simp
  next
    case False
    then show ?thesis using Cons.prems(1)
      by (auto simp: selected_def fold_row_def Let_def bucket_holds_def)
  qed
  moreover have "snd ` fst ` set_mset ?M \<inter> er_rowid ` set rs = {}"
    using Cons.prems(2,3) by (auto simp: row_entry_def)
  moreover have "distinct (map er_rowid rs)" using Cons.prems(2) by simp
  ultimately show ?case
    using Cons.IH [of "fold_row project scope b (read_row r)" ?M] Cons.prems(4)
    unfolding all by simp
qed

lemma seen_fold:
  "b_seen (foldl (fold_row project scope) b (map read_row rs))
    = fold max (map er_rowid rs) (b_seen b)"
proof (induction rs arbitrary: b)
  case (Cons r rs)
  have "b_seen (fold_row project scope b (read_row r)) = max (er_rowid r) (b_seen b)"
    by (auto simp: fold_row_def Let_def)
  then show ?case using Cons.IH [of "fold_row project scope b (read_row r)"] by simp
qed simp

end

text \<open>The table: rowids are positive and grow, because a row is only ever added at the end.\<close>

definition table_wf :: "event_row list \<Rightarrow> bool" where
  "table_wf t \<longleftrightarrow> sorted_wrt (<) (map er_rowid t) \<and> (\<forall>r \<in> set t. 0 < er_rowid r)"

definition kept_rows :: "event_row list \<Rightarrow> string \<Rightarrow> limit_scope option \<Rightarrow> int \<Rightarrow> instant
    \<Rightarrow> event_row list" where
  "kept_rows t project scope n since =
     filter (\<lambda>r. er_rowid r \<le> n \<and> selected project scope r \<and> since \<le> er_arrival r) t"

text \<open>
  A bucket that was last read for a window starting at \<open>since\<close> holds what it has seen of that window;
  what it has seen ends at a row of the table.
\<close>

definition bucket_inv :: "(usage \<Rightarrow> usage multiset \<Rightarrow> bool) \<Rightarrow> event_row list \<Rightarrow> string
    \<Rightarrow> limit_scope option \<Rightarrow> instant \<Rightarrow> bucket \<Rightarrow> bool" where
  "bucket_inv stands t project scope since b \<longleftrightarrow>
     bucket_holds stands b (mset (map row_entry (kept_rows t project scope (b_seen b) since)))
     \<and> (b_seen b = 0 \<or> b_seen b \<in> er_rowid ` set t)"

definition cache_inv :: "(usage \<Rightarrow> usage multiset \<Rightarrow> bool) \<Rightarrow> event_row list \<Rightarrow> instant
    \<Rightarrow> usage_cache \<Rightarrow> bool" where
  "cache_inv stands t now c \<longleftrightarrow> (\<forall>project w scope. \<exists>since \<le> window_since w now.
     bucket_inv stands t project scope since (bucket_of c (project, w, scope)))"

definition window_rows :: "event_row list \<Rightarrow> string \<Rightarrow> limit_scope option \<Rightarrow> instant
    \<Rightarrow> event_row list" where
  "window_rows t project scope since = filter (\<lambda>r. selected project scope r \<and> since \<le> er_arrival r) t"

lemma mset_filter_split:
  "(\<And>r. r \<in> set t \<Longrightarrow> C r \<longleftrightarrow> A r \<or> B r) \<Longrightarrow> (\<And>r. r \<in> set t \<Longrightarrow> \<not> (A r \<and> B r))
   \<Longrightarrow> mset (map f (filter C t)) = mset (map f (filter A t)) + mset (map f (filter B t))"
  by (induction t) auto

lemma mset_filter_mono: "mset (map f (filter A t)) \<subseteq># mset (map f t)"
  by (induction t) (auto intro: subset_mset.order_trans)

lemma fold_max_int: "n \<le> fold max xs (n :: int) \<and> (\<forall>x \<in> set xs. x \<le> fold max xs n)
  \<and> (fold max xs n = n \<or> fold max xs n \<in> set xs)"
proof (induction xs arbitrary: n)
  case (Cons x xs)
  have "max x n = x \<or> max x n = n" "x \<le> max x n" "n \<le> max x n" by auto
  then show ?case using Cons.IH [of "max x n"] by fastforce
qed simp

lemma evict_before_seen [simp]: "b_seen (evict_before since b) = b_seen b"
  by (simp add: evict_before_def Let_def case_prod_beta)

context window_total
begin

lemma load_new_read:
  assumes wf: "table_wf t" and tok: "\<forall>r \<in> set t. b_seen b < er_rowid r \<longrightarrow> row_reads r"
    and inv: "bucket_inv stands t project scope t0 b" and le: "t0 \<le> since"
    and fit: "fits (mset (map row_usage t))"
  shows "\<exists>b'. load_new t project scope b = Inr b'
    \<and> bucket_inv stands t project scope since (evict_before since b')
    \<and> stands (b_total (evict_before since b')) (mset (map row_usage (window_rows t project scope since)))"
proof -
  let ?sel = "selected project scope"
  let ?new = "filter (\<lambda>r. b_seen b < er_rowid r) t"
  let ?old = "kept_rows t project scope (b_seen b) t0"
  define b' where "b' = foldl (fold_row project scope) b (map read_row ?new)"
  have load: "load_new t project scope b = Inr b'"
    using tok decode_rows_ok [of ?new] by (simp add: load_new_def b'_def)
  have parts: "mset (map row_entry (filter (\<lambda>r. ?sel r \<and> (b_seen b < er_rowid r \<or> t0 \<le> er_arrival r)) t))
      = mset (map row_entry ?old) + mset (map row_entry (filter ?sel ?new))"
    unfolding kept_rows_def filter_filter by (rule mset_filter_split) auto
  have all: "image_mset snd (mset (map row_entry xs)) = mset (map row_usage xs)" for xs
    by (simp add: row_entry_def multiset.map_comp comp_def)
  have "bucket_holds stands b' (mset (map row_entry ?old) + mset (map row_entry (filter ?sel ?new)))"
    unfolding b'_def
  proof (rule fold_rows_hold)
    show "bucket_holds stands b (mset (map row_entry ?old))" using inv by (simp add: bucket_inv_def)
    show "distinct (map er_rowid ?new)"
      using wf strict_sorted_iff [of "map er_rowid t"]
      by (auto simp: table_wf_def distinct_map inj_on_def)
    show "snd ` fst ` set_mset (mset (map row_entry ?old)) \<inter> er_rowid ` set ?new = {}"
      by (auto simp: kept_rows_def row_entry_def)
    show "fits (image_mset snd (mset (map row_entry ?old) + mset (map row_entry (filter ?sel ?new))))"
      unfolding parts [symmetric] all by (rule fits_subset [OF fit mset_filter_mono])
  qed
  then have h: "bucket_holds stands b'
      (mset (map row_entry (filter (\<lambda>r. ?sel r \<and> (b_seen b < er_rowid r \<or> t0 \<le> er_arrival r)) t)))"
    by (simp only: parts)
  let ?w = "window_rows t project scope since"
  have "bucket_holds stands (evict_before since b') (filter_mset (\<lambda>x. since \<le> fst (fst x))
      (mset (map row_entry (filter (\<lambda>r. ?sel r \<and> (b_seen b < er_rowid r \<or> t0 \<le> er_arrival r)) t))))"
    by (rule evict_before_holds [OF h]) (unfold all, rule fits_subset [OF fit mset_filter_mono])
  moreover have "filter_mset (\<lambda>x. since \<le> fst (fst x))
      (mset (map row_entry (filter (\<lambda>r. ?sel r \<and> (b_seen b < er_rowid r \<or> t0 \<le> er_arrival r)) t)))
      = mset (map row_entry ?w)"
    using le by (induction t) (auto simp: window_rows_def row_entry_def)
  ultimately have holds: "bucket_holds stands (evict_before since b') (mset (map row_entry ?w))" by simp
  have seen: "b_seen b' = fold max (map er_rowid ?new) (b_seen b)" by (simp add: b'_def seen_fold)
  have above: "er_rowid r \<le> b_seen b'" if "r \<in> set t" for r
    using fold_max_int [of "b_seen b" "map er_rowid ?new"] that unfolding seen by force
  then have "kept_rows t project scope (b_seen b') since = ?w"
    by (auto simp: kept_rows_def window_rows_def intro!: filter_cong)
  moreover have "b_seen b' = 0 \<or> b_seen b' \<in> er_rowid ` set t"
    using fold_max_int [of "b_seen b" "map er_rowid ?new"] inv unfolding seen bucket_inv_def by auto
  moreover have "stands (b_total (evict_before since b')) (mset (map row_usage ?w))"
    using holds unfolding bucket_holds_def all by simp
  ultimately show ?thesis using load holds by (simp add: bucket_inv_def)
qed

text \<open>A read of one key, for every table: it keeps the invariant whether it succeeds or fails.\<close>

lemma cache_usage_read:
  assumes wf: "table_wf t" and inv: "cache_inv stands t now c" and fit: "fits (mset (map row_usage t))"
  shows "case cache_usage t project now c w scope of
      (Inl e, c') \<Rightarrow> cache_inv stands t now c' \<and> (\<exists>r \<in> set t. \<not> row_reads r)
    | (Inr u, c') \<Rightarrow> cache_inv stands t now c'
        \<and> stands u (mset (map row_usage (window_rows t project scope (window_since w now))))"
proof -
  let ?k = "(project, w, scope)" and ?since = "window_since w now"
  let ?b = "bucket_of c ?k"
  obtain t0 where t0: "t0 \<le> ?since" "bucket_inv stands t project scope t0 ?b"
    using inv unfolding cache_inv_def by blast
  have upd: "cache_inv stands t now (AList.update ?k b c)"
    if "bucket_inv stands t project scope t' b" "t' \<le> ?since" for b t'
    unfolding cache_inv_def
  proof (intro allI)
    fix p w' s
    show "\<exists>since \<le> window_since w' now. bucket_inv stands t p s since (bucket_of (AList.update ?k b c) (p, w', s))"
    proof (cases "(p, w', s) = ?k")
      case True
      then have "bucket_of (AList.update ?k b c) (p, w', s) = b" by (simp add: bucket_of_def)
      with that True show ?thesis by auto
    next
      case False
      then have "bucket_of (AList.update ?k b c) (p, w', s) = bucket_of c (p, w', s)"
        by (simp add: bucket_of_def del: prod.inject)
      with inv show ?thesis unfolding cache_inv_def by simp
    qed
  qed
  show ?thesis
  proof (cases "\<forall>r \<in> set t. b_seen ?b < er_rowid r \<longrightarrow> row_reads r")
    case True
    then obtain b' where b': "load_new t project scope ?b = Inr b'"
      "bucket_inv stands t project scope ?since (evict_before ?since b')"
      "stands (b_total (evict_before ?since b')) (mset (map row_usage (window_rows t project scope ?since)))"
      using load_new_read [OF wf _ t0(2,1) fit] by blast
    then show ?thesis using upd [OF b'(2)] by (simp add: cache_usage_def Let_def)
  next
    case False
    then have "decode_rows (filter (\<lambda>r. b_seen ?b < er_rowid r) t) = Inl SeSqlite"
      by (intro decode_rows_bad) auto
    then have "load_new t project scope ?b = Inl SeSqlite" by (simp add: load_new_def)
    then show ?thesis using upd [OF t0(2,1)] False by (auto simp: cache_usage_def Let_def)
  qed
qed

lemma cache_usage_keeps:
  "table_wf t \<Longrightarrow> fits (mset (map row_usage t)) \<Longrightarrow> cache_inv stands t now c
   \<Longrightarrow> cache_inv stands t now (snd (cache_usage t project now c w scope))"
  using cache_usage_read [where t = t and now = now and c = c and project = project and w = w and scope = scope] by (auto split: prod.splits sum.splits)

text \<open>The cache is a source of usage for the admission loop.\<close>

sublocale reader: usage_source "cache_usage t project now"
  "\<lambda>c. table_wf t \<and> fits (mset (map row_usage t)) \<and> (\<forall>r \<in> set t. row_reads r) \<and> cache_inv stands t now c"
  "\<lambda>w scope u. stands u (mset (map row_usage (window_rows t project scope (window_since w now))))"
  for t project now
proof
  fix c w s
  assume "table_wf t \<and> fits (mset (map row_usage t)) \<and> (\<forall>r \<in> set t. row_reads r) \<and> cache_inv stands t now c"
  then show "\<exists>u c'. cache_usage t project now c w s = (Inr u, c')
      \<and> stands u (mset (map row_usage (window_rows t project s (window_since w now))))
      \<and> table_wf t \<and> fits (mset (map row_usage t)) \<and> (\<forall>r \<in> set t. row_reads r) \<and> cache_inv stands t now c'"
    using cache_usage_read [where t = t and now = now and c = c and project = project and w = w and scope = s] by (cases "cache_usage t project now c w s") (auto split: sum.splits)
qed

end

subsection \<open>Histories\<close>

text \<open>
  A store opened on a table, and everything that happens to its events, rules, revenue and cache
  afterwards except a price fill: checked and unchecked inserts, batches that commit or are rolled
  back, the recovery of a poisoned cache lock, and changes of configuration. The clock of checked
  inserts does not run backwards.
\<close>

type_synonym store_state = "database \<times> usage_cache \<times> instant"

inductive store_step :: "store_state \<Rightarrow> store_state \<Rightarrow> bool" where
  ss_insert: "clk \<le> now \<Longrightarrow> insert_checked db c ev now = (res, db', c')
    \<Longrightarrow> store_step (db, c, clk) (db', c', now)"
| ss_batch: "sorted (clk # map snd evs) \<Longrightarrow> insert_events_checked berr cerr db c evs = (out, db', c')
    \<Longrightarrow> store_step (db, c, clk) (db', c', last (clk # map snd evs))"
| ss_unchecked: "event_insert (db_events db) ev = Inr t
    \<Longrightarrow> store_step (db, c, clk) (db\<lparr>db_events := t\<rparr>, c, clk)"
| ss_poisoned: "store_step (db, c, clk) (db, cache_reset c, clk)"
| ss_config: "store_step (db, c, clk) (db\<lparr>db_rules := rules, db_revenue := revenue\<rparr>, c, clk)"

inductive store_reach :: "store_state \<Rightarrow> bool" where
  opened: "table_wf (db_events db) \<Longrightarrow> store_reach (db, [], clk)"
| further: "store_reach s \<Longrightarrow> store_step s s' \<Longrightarrow> store_reach s'"

lemma bucket_of_Nil [simp]: "bucket_of [] k = bucket_default"
  by (simp add: bucket_of_def)

lemma event_insert_appends:
  assumes "event_insert t ev = Inr t'" and "table_wf t"
  obtains r where "t' = t @ [r]" "table_wf t'" "r = row_of_event (next_rowid t) ev"
    "\<forall>x \<in> set t. er_rowid x < er_rowid r" "0 < er_rowid r"
proof -
  let ?r = "row_of_event (next_rowid t) ev"
  have t': "t' = t @ [?r]" using assms(1) by (simp add: event_insert_def split: if_splits)
  have n: "er_rowid ?r = fold max (map er_rowid t) 0 + 1" by (simp add: row_of_event_def next_rowid_def)
  then have "\<forall>x \<in> set t. er_rowid x < er_rowid ?r" "0 < er_rowid ?r"
    using fold_max_int [of 0 "map er_rowid t"] by auto
  moreover from this have "table_wf t'"
    using assms(2) by (auto simp: table_wf_def t' sorted_wrt_append)
  ultimately show thesis using that t' by blast
qed

lemma insert_checked_events:
  assumes "insert_checked_with_rules db c ev rules now = (res, db', c')"
  shows "db' = db \<or> (\<exists>t. event_insert (db_events db) ev = Inr t \<and> db' = db\<lparr>db_events := t\<rparr>)"
  using assms
  by (auto simp: insert_checked_with_rules_def split: sum.splits prod.splits if_splits)

lemma insert_checked_cache:
  assumes "insert_checked_with_rules db c ev rules now = (res, db', c')"
    and "\<And>d w s. P d \<Longrightarrow> P (snd (cache_usage (db_events db) (ev_project ev) now d w s))" and "P c"
  shows "P c'"
proof -
  have keep: "P (snd (evaluate_admission_at rules ev k now (cache_usage (db_events db) (ev_project ev) now) f c))"
    for k f
    by (rule evaluate_admission_keeps [where P = P]) (use assms(2,3) in auto)
  then show ?thesis
    using assms(1,3) unfolding insert_checked_with_rules_def
    by (fastforce split: sum.splits prod.splits if_splits dest: arg_cong [where f = snd])
qed

lemma batch_loop_grows:
  "batch_loop evs memo db c out = (out', db', c') \<Longrightarrow> \<exists>xs. db_events db' = db_events db @ xs"
proof (induction evs memo db c out rule: batch_loop.induct)
  case (2 ev now evs memo db c out)
  obtain rules memo1 where m: "(case map_of memo (ev_project ev) of Some rs \<Rightarrow> (rs, memo)
      | None \<Rightarrow> (let rs = enabled_rules db (ev_project ev) in (rs, AList.update (ev_project ev) rs memo)))
      = (rules, memo1)" by fastforce
  obtain res db1 c1 where ins: "insert_checked_with_rules db c ev rules now = (res, db1, c1)"
    by (cases "insert_checked_with_rules db c ev rules now")
  have "\<exists>xs. db_events db1 = db_events db @ xs"
    using insert_checked_events [OF ins] by (auto simp: event_insert_def split: if_splits)
  moreover have "\<exists>xs. db_events db' = db_events db1 @ xs"
    using "2.IH" [OF m [symmetric] refl ins [symmetric] refl refl] "2.prems" m ins by simp
  ultimately show ?case by auto
qed simp

lemma store_step_grows:
  assumes "store_step (db, c, clk) (db', c', clk')"
  shows "\<exists>xs. db_events db' = db_events db @ xs"
  using assms
proof cases
  case (ss_insert ev res)
  then show ?thesis
    using insert_checked_events [of db c ev "enabled_rules db (ev_project ev)" clk' res db' c']
    by (auto simp: insert_checked_def event_insert_def split: if_splits)
next
  case (ss_batch evs berr cerr out)
  obtain out1 db1 c1 where l: "batch_loop evs [] db c [] = (out1, db1, c1)"
    by (cases "batch_loop evs [] db c []")
  then have "db' = db \<or> db' = db1"
    using ss_batch(3) by (auto simp: insert_events_checked_def split: option.splits)
  then show ?thesis using batch_loop_grows [OF l] by auto
qed (auto simp: event_insert_def split: if_splits)

lemma cache_inv_later: "cache_inv stands t now c \<Longrightarrow> now \<le> now' \<Longrightarrow> cache_inv stands t now' c"
  unfolding cache_inv_def window_since_def by (meson diff_right_mono order_trans)

lemma cache_inv_append:
  assumes "cache_inv stands t now c" and "\<forall>x \<in> set t. er_rowid x < er_rowid r" and "0 < er_rowid r"
  shows "cache_inv stands (t @ [r]) now c"
proof -
  have "kept_rows (t @ [r]) p s n since = kept_rows t p s n since"
    if "n = 0 \<or> n \<in> er_rowid ` set t" for p s since n
    using that assms(2,3) by (auto simp: kept_rows_def)
  then have "bucket_inv stands (t @ [r]) p s since b" if "bucket_inv stands t p s since b" for p s since b
    using that by (auto simp: bucket_inv_def)
  then show ?thesis using assms(1) unfolding cache_inv_def by meson
qed

context window_total
begin

lemma cache_inv_empty: "table_wf t \<Longrightarrow> cache_inv stands t now []"
proof -
  assume "table_wf t"
  then have "kept_rows t p s 0 since = []" for p s since
    by (force simp: kept_rows_def table_wf_def filter_empty_conv)
  then have "bucket_inv stands t p s since bucket_default" for p s since
    using empty_stands by (simp add: bucket_inv_def bucket_default_def bucket_holds_def)
  then show ?thesis unfolding cache_inv_def by auto
qed

lemma insert_checked_inv:
  assumes ins: "insert_checked_with_rules db c ev rules now = (res, db', c')"
    and wf: "table_wf (db_events db)" and inv: "cache_inv stands (db_events db) now c"
    and fit: "fits (mset (map row_usage (db_events db')))"
  shows "table_wf (db_events db') \<and> cache_inv stands (db_events db') now c'"
proof -
  have sub: "mset (map row_usage (db_events db)) \<subseteq># mset (map row_usage (db_events db'))"
    using insert_checked_events [OF ins] by (auto simp: event_insert_def split: if_splits)
  have c': "cache_inv stands (db_events db) now c'"
    by (rule insert_checked_cache [OF ins, where P = "cache_inv stands (db_events db) now"])
       (use inv wf fits_subset [OF fit sub] cache_usage_keeps in auto)
  from insert_checked_events [OF ins] show ?thesis
  proof (elim disjE exE conjE)
    fix t assume t: "event_insert (db_events db) ev = Inr t" "db' = db\<lparr>db_events := t\<rparr>"
    then show ?thesis using event_insert_appends [OF t(1) wf] cache_inv_append [OF c'] by auto
  qed (use wf c' in simp)
qed

lemma batch_loop_inv:
  assumes "batch_loop evs memo db c out = (out', db', c')" and "sorted (clk # map snd evs)"
    and "table_wf (db_events db)" and "cache_inv stands (db_events db) clk c"
    and "fits (mset (map row_usage (db_events db')))"
  shows "(\<exists>xs. db_events db' = db_events db @ xs) \<and> table_wf (db_events db')
    \<and> cache_inv stands (db_events db') (last (clk # map snd evs)) c'"
  using assms
proof (induction evs arbitrary: memo db c out clk)
  case Nil
  then show ?case by simp
next
  case (Cons e evs)
  obtain ev now where e: "e = (ev, now)" by (cases e)
  define rules where "rules = (case map_of memo (ev_project ev) of
      Some rs \<Rightarrow> rs | None \<Rightarrow> enabled_rules db (ev_project ev))"
  obtain res db1 c1 where ins: "insert_checked_with_rules db c ev rules now = (res, db1, c1)"
    by (cases "insert_checked_with_rules db c ev rules now")
  obtain memo1 where rest: "batch_loop evs memo1 db1 c1 (out @ [res]) = (out', db', c')"
    using Cons.prems(1) ins by (auto simp: e rules_def Let_def split: option.splits)
  have grow: "\<exists>xs. db_events db1 = db_events db @ xs"
    using insert_checked_events [OF ins] by (auto simp: event_insert_def split: if_splits)
  have wf1: "table_wf (db_events db1)"
    using insert_checked_events [OF ins] event_insert_appends Cons.prems(3) by force
  have le: "clk \<le> now" "sorted (now # map snd evs)" using Cons.prems(2) e by auto
  have more: "\<exists>xs. db_events db' = db_events db1 @ xs"
    using batch_loop_grows [OF rest] .
  then have "fits (mset (map row_usage (db_events db1)))"
    using fits_subset [OF Cons.prems(5)] by auto
  then have "cache_inv stands (db_events db1) now c1"
    using insert_checked_inv [OF ins Cons.prems(3) cache_inv_later [OF Cons.prems(4) le(1)]] by simp
  then show ?case
    using Cons.IH [OF rest le(2) wf1 _ Cons.prems(5)] grow e by auto
qed

lemma store_step_inv:
  assumes "store_step (db, c, clk) (db', c', clk')"
    and "table_wf (db_events db)" and "cache_inv stands (db_events db) clk c"
    and "fits (mset (map row_usage (db_events db')))"
  shows "table_wf (db_events db') \<and> cache_inv stands (db_events db') clk' c'"
  using assms(1)
proof cases
  case (ss_insert ev res)
  then show ?thesis
    using insert_checked_inv [OF _ assms(2) cache_inv_later [OF assms(3)] assms(4)]
    unfolding insert_checked_def by blast
next
  case (ss_batch evs berr cerr out)
  have "table_wf (db_events db') \<and> cache_inv stands (db_events db') (last (clk # map snd evs)) c'"
  proof (cases "berr = None \<and> cerr = None")
    case True
    obtain out1 db1 c1 where l: "batch_loop evs [] db c [] = (out1, db1, c1)"
      by (cases "batch_loop evs [] db c []")
    with True ss_batch(3) have "db' = db1" "c' = c1" by (simp_all add: insert_events_checked_def)
    then show ?thesis using batch_loop_inv [OF l ss_batch(2) assms(2,3)] assms(4) by simp
  next
    case False
    then have "db' = db" "c' = c \<or> c' = []"
      using ss_batch(3) by (auto simp: insert_events_checked_def cache_reset_def split: prod.splits option.splits)
    moreover have "last (clk # map snd evs) \<in> set (clk # map snd evs)" by (rule last_in_set) simp
    then have "clk \<le> last (clk # map snd evs)" using ss_batch(2) by (auto simp del: last.simps)
    ultimately show ?thesis
      using assms(2) cache_inv_later [OF assms(3)] cache_inv_empty by auto
  qed
  then show ?thesis using ss_batch(1) by simp
next
  case (ss_unchecked ev t)
  then show ?thesis
    using event_insert_appends [OF ss_unchecked(4) assms(2)] cache_inv_append [OF assms(3)] by auto
next
  case ss_poisoned
  then show ?thesis using assms(2) cache_inv_empty by (simp add: cache_reset_def)
next
  case ss_config
  then show ?thesis using assms(2,3) by simp
qed

lemma store_reach_inv:
  assumes "store_reach s" and "s = (db, c, clk)" and "fits (mset (map row_usage (db_events db)))"
  shows "table_wf (db_events db) \<and> cache_inv stands (db_events db) clk c"
  using assms
proof (induction arbitrary: db c clk)
  case (opened db0 clk0)
  then show ?case using cache_inv_empty by simp
next
  case (further s s')
  obtain db0 c0 clk0 where s: "s = (db0, c0, clk0)" by (cases s)
  have step: "store_step (db0, c0, clk0) (db, c, clk)" using further s by simp
  obtain xs where "db_events db = db_events db0 @ xs" using store_step_grows [OF step] by blast
  then have "fits (mset (map row_usage (db_events db0)))"
    using fits_subset [OF further.prems(2)] by simp
  with further.IH [OF s] show ?case using store_step_inv [OF step] further.prems(2) by blast
qed

lemma fold_plus_stands:
  "stands u M \<Longrightarrow> fits (M + mset xs) \<Longrightarrow> stands (foldl usage_plus u xs) (M + mset xs)"
proof (induction xs arbitrary: u M)
  case (Cons x xs)
  have "fits (add_mset x M)" using Cons.prems(2) by (rule fits_subset) simp
  then have "stands (usage_plus u x) (add_mset x M)" using Cons.prems(1) by (rule plus_stands)
  then show ?case using Cons.IH [of "usage_plus u x" "add_mset x M"] Cons.prems(2) by simp
qed simp

lemma scan_stands:
  assumes "fits (mset (map row_usage t))"
  shows "stands (usage_scan t project scope since) (mset (map row_usage (window_rows t project scope since)))"
proof -
  have "fits (mset (map row_usage (window_rows t project scope since)))"
    unfolding window_rows_def by (rule fits_subset [OF assms mset_filter_mono])
  then show ?thesis
    using fold_plus_stands [OF empty_stands, of "map row_usage (window_rows t project scope since)"]
    by (simp add: usage_scan_def window_rows_def)
qed

lemma reach_read:
  assumes "store_reach (db, c, clk)" "clk \<le> now" "\<forall>r \<in> set (db_events db). row_reads r"
    and "fits (mset (map row_usage (db_events db)))"
  shows "\<exists>u c'. cache_usage (db_events db) project now c w scope = (Inr u, c')
    \<and> stands u (mset (map row_usage (window_rows (db_events db) project scope (window_since w now))))"
  using store_reach_inv [OF assms(1) refl assms(4)] cache_inv_later [OF _ assms(2)] assms(3,4)
    reader.read_agrees [of "db_events db" now c project w scope]
  by blast

end

section \<open>The two totals\<close>

text \<open>The three counters live in a group: adding and taking away are always exact.\<close>

definition counters_stand :: "usage \<Rightarrow> usage multiset \<Rightarrow> bool" where
  "counters_stand u M \<longleftrightarrow> u_calls u = sum_mset (image_mset u_calls M)
     \<and> u_tokens u = sum_mset (image_mset u_tokens M)
     \<and> u_unpriced u = sum_mset (image_mset u_unpriced M)"

interpretation counters: window_total counters_stand "\<lambda>M. True"
  by unfold_locales
    (auto simp: counters_stand_def usage_default_def usage_plus_def usage_minus_def add.commute)

text \<open>
  Money is exact on a grid: amounts that are multiples of one power of two whose sum, in that unit,
  stays below \<open>2 ^ 53\<close>.
\<close>

definition grid_value :: "int \<Rightarrow> int \<Rightarrow> f64" where
  "grid_value g n = Fin (of_int n * 2 powi g)"

definition grid_units :: "int \<Rightarrow> f64 \<Rightarrow> int" where
  "grid_units g c = (case c of Fin q \<Rightarrow> \<lfloor>q / 2 powi g\<rfloor> | _ \<Rightarrow> 0)"

definition on_grid :: "int \<Rightarrow> f64 \<Rightarrow> bool" where
  "on_grid g c \<longleftrightarrow> 0 \<le> grid_units g c \<and> c = grid_value g (grid_units g c)"

definition cost_units :: "int \<Rightarrow> usage multiset \<Rightarrow> int" where
  "cost_units g M = sum_mset (image_mset (\<lambda>x. grid_units g (u_cost_usd x)) M)"

definition client_units :: "int \<Rightarrow> usage multiset \<Rightarrow> int" where
  "client_units g M = sum_mset (image_mset (\<lambda>x. grid_units g (u_client_cost x)) M)"

definition money_fits :: "int \<Rightarrow> usage multiset \<Rightarrow> bool" where
  "money_fits g M \<longleftrightarrow> -1074 \<le> g \<and> g \<le> 971
     \<and> (\<forall>x \<in># M. on_grid g (u_cost_usd x) \<and> on_grid g (u_client_cost x))
     \<and> cost_units g M < 2 ^ 53 \<and> client_units g M < 2 ^ 53"

definition exact_stands :: "int \<Rightarrow> usage \<Rightarrow> usage multiset \<Rightarrow> bool" where
  "exact_stands g u M \<longleftrightarrow> counters_stand u M \<and> u_cost_usd u = grid_value g (cost_units g M)
     \<and> u_client_cost u = grid_value g (client_units g M)"

lemma grid_add:
  assumes "-1074 \<le> g" "g \<le> 971" "0 \<le> a + b" "a + b < 2 ^ 53"
  shows "grid_value g a + grid_value g b = grid_value g (a + b)"
proof -
  have "rnd (of_int (a + b) * 2 powi g) = Fin (of_int (a + b) * 2 powi g)"
    by (rule rnd_dyadic [where m = "a + b" and e = g]) (use assms in auto)
  then show ?thesis by (simp add: grid_value_def distrib_right)
qed

lemma grid_sub:
  assumes "-1074 \<le> g" "g \<le> 971" "0 \<le> a - b" "a - b < 2 ^ 53"
  shows "grid_value g a - grid_value g b = grid_value g (a - b)"
  using grid_add [of g a "- b"] assms by (simp add: minus_f64_def grid_value_def)

lemma units_nonneg: "\<forall>x \<in># M. on_grid g (f x) \<Longrightarrow> 0 \<le> sum_mset (image_mset (\<lambda>x. grid_units g (f x)) M)"
  by (induction M) (auto simp: on_grid_def)

lemma money_fits_subset:
  assumes "money_fits g N" "M \<subseteq># N"
  shows "money_fits g M"
proof -
  obtain K where N: "N = M + K" using assms(2) by (auto simp: subset_mset.le_iff_add)
  then show ?thesis
    using assms(1) units_nonneg [of K g u_cost_usd] units_nonneg [of K g u_client_cost]
    by (auto simp: money_fits_def cost_units_def client_units_def)
qed

interpretation exact: window_total "exact_stands g" "money_fits g" for g
proof
  show "exact_stands g usage_default {#}"
    by (simp add: exact_stands_def counters_stand_def cost_units_def client_units_def grid_value_def
        usage_default_def)
  fix x M u
  assume fits: "money_fits g (add_mset x M)"
  let ?c = "grid_units g (u_cost_usd x)" and ?k = "grid_units g (u_client_cost x)"
  have g: "-1074 \<le> g" "g \<le> 971" and x: "u_cost_usd x = grid_value g ?c" "u_client_cost x = grid_value g ?k"
    "0 \<le> ?c" "0 \<le> ?k"
    and top: "?c + cost_units g M < 2 ^ 53" "?k + client_units g M < 2 ^ 53"
    using fits by (auto simp: money_fits_def on_grid_def cost_units_def client_units_def)
  have low: "0 \<le> cost_units g M" "0 \<le> client_units g M"
    using fits units_nonneg [of M g u_cost_usd] units_nonneg [of M g u_client_cost]
    by (auto simp: money_fits_def cost_units_def client_units_def)
  show "exact_stands g u M \<Longrightarrow> exact_stands g (usage_plus u x) (add_mset x M)"
    using grid_add [OF g, of "cost_units g M" ?c]
      grid_add [OF g, of "client_units g M" ?k] x low top
    by (simp add: exact_stands_def counters_stand_def usage_plus_def cost_units_def client_units_def
        add.commute)
  show "exact_stands g u (add_mset x M) \<Longrightarrow> exact_stands g (usage_minus u x) M"
    using grid_sub [OF g, of "?c + cost_units g M" ?c]
      grid_sub [OF g, of "?k + client_units g M" ?k] x low top
    by (simp add: exact_stands_def counters_stand_def usage_minus_def cost_units_def client_units_def)
qed (rule money_fits_subset)

lemma exact_unique: "exact_stands g u M \<Longrightarrow> exact_stands g v M \<Longrightarrow> u = v"
  by (cases u; cases v) (simp add: exact_stands_def counters_stand_def)

section \<open>What the cache guarantees\<close>


lemma usage_scan_snoc:
  "usage_scan (t @ [r]) p s since = (if selected p s r \<and> since \<le> er_arrival r
     then usage_plus (usage_scan t p s since) (row_usage r) else usage_scan t p s since)"
  by (simp add: usage_scan_def)

lemma json_text_str: "meta_str md k = Some s \<Longrightarrow> json_text md k = Some s"
  by (auto simp: meta_str_def json_text_def split: option.splits meta_value.splits)

lemma json_text_client: "json_text md k = Some ''client'' \<longleftrightarrow> meta_str md k = Some ''client''"
  by (auto simp: meta_str_def json_text_def split: option.splits meta_value.splits)

lemma row_of_event_usage: "row_usage (row_of_event i ev) = event_contribution ev"
  by (simp add: row_usage_def row_contribution_def row_of_event_def read_row_def json_text_client
      event_contribution_def cost_is_client_reported_def cost_source_def Let_def)

lemma row_of_event_selected:
  assumes "scope_matches s (event_scope_dims ev)"
  shows "selected (ev_project ev) s (row_of_event i ev)"
proof (cases s)
  case (Some x)
  with assms show ?thesis
    by (cases x) (auto simp: selected_def row_of_event_def row_scope_dims_def event_scope_dims_def
        read_row_def scope_matches_def api_key_id_def customer_id_def dest: json_text_str)
qed (simp add: selected_def row_of_event_def read_row_def scope_matches_def)

lemma row_of_event_arrival: "er_arrival (row_of_event i ev) = ev_received_at ev"
  by (simp add: er_arrival_def row_of_event_def)

lemma metric_value_counters:
  assumes "m \<noteq> CostUsd" "u_calls u = u_calls v" "u_tokens u = u_tokens v"
  shows "metric_value (usage_plus u k) m = metric_value (usage_plus v k) m"
  using assms by (cases m) (simp_all add: usage_plus_def)

lemma resolver_fixed:
  assumes "lr_threshold r = Fixed v" "distinct (map lr_id rules)" "r \<in> set rules"
    and "resolve_all rules now fetch = Inr res"
  shows "resolver res r = (v, basis_fixed)"
proof -
  obtain w where w: "res = resolve_from_windows rules now w []"
    using assms(4) by (auto simp: resolve_all_def split: sum.splits)
  have "lr_id r \<notin> lr_id ` set (filter needs_revenue rules)"
    using assms(1-3) by (fastforce simp: distinct_map inj_on_def needs_revenue_def)
  then show ?thesis
    by (simp add: w resolver_def resolve_from_windows_other assms(1) threshold_resolve_def)
qed

text \<open>
  What a checked insert decides in a reachable state: for a count rule that is active and covers the
  event, one of the statuses judged stands for the rule, and it rejects exactly where the full scan of
  the rule's window with the event folded in reaches the cap.
\<close>

lemma checked_insert_judges:
  assumes "store_reach (db, c, clk)" and "clk \<le> now"
    and "\<forall>r \<in> set (db_events db). row_reads r" and "distinct (map lr_id (db_rules db))"
    and "r \<in> set (db_rules db)" and "lr_project_id r = ev_project ev"
    and "is_active_at r now" and "action_enforces (effective_action_at r now)"
    and "scope_matches (lr_scope r) (event_scope_dims ev)"
    and "lr_metric r \<noteq> CostUsd" and "lr_threshold r = Fixed cap"
  obtains sts st c' where "st \<in> set sts"
    and "rejects_ingest st \<longleftrightarrow> cap \<le> metric_value (usage_plus
        (usage_scan (db_events db) (ev_project ev) (lr_scope r) (window_since (lr_window r) now))
        (event_contribution ev)) (lr_metric r)"
    and "insert_checked db c ev now = (if ad_admitted (from_statuses sts)
        then (case event_insert (db_events db) ev of Inl e \<Rightarrow> (Inl e, db, c')
              | Inr t \<Rightarrow> (Inr (from_statuses sts), db\<lparr>db_events := t\<rparr>, c'))
        else (Inr (from_statuses sts), db, c'))"
proof -
  let ?rules = "enabled_rules db (ev_project ev)" and ?k = "event_contribution ev"
  let ?since = "window_since (lr_window r) now"
  let ?read = "cache_usage (db_events db) (ev_project ev) now"
  have r: "r \<in> set ?rules" "rule_applies ev now r"
    using assms(5-7,9) by (auto simp: enabled_rules_def rule_applies_def is_active_at_def)
  have dist: "distinct (map lr_id ?rules)"
    using assms(4) by (simp add: enabled_rules_def distinct_map_filter)
  have fetch: "\<exists>ws. fetch_windows rs now (\<lambda>s u. Inr (f s u)) m = Inr ws" for rs f m
    by (induction rs arbitrary: m) auto
  obtain res where res: "resolve_all ?rules now
      (\<lambda>s u. Inr (revenue_list (db_revenue db) (Some (ev_project ev)) s u)) = Inr res"
    using fetch [of ?rules "revenue_list (db_revenue db) (Some (ev_project ev))" "[]"]
    by (auto simp: resolve_all_def)
  have good: "table_wf (db_events db) \<and> True \<and> (\<forall>r \<in> set (db_events db). row_reads r)
      \<and> cache_inv counters_stand (db_events db) now c"
    using counters.store_reach_inv [OF assms(1) refl] cache_inv_later [OF _ assms(2)] assms(3) by blast
  obtain sts d where adm: "evaluate_admission_at ?rules ev ?k now ?read (resolver res) c
      = (Inr (from_statuses sts), d)"
    and all: "list_all2 (counters.reader.judged (db_events db) (ev_project ev) now ev ?k now (resolver res))
      (filter (rule_applies ev now) ?rules) sts"
    using counters.reader.admission_spec [OF good, where rules = ?rules and k = ?k and ev = ev and now = now
        and resolve = "resolver res"] by blast
  have "r \<in> set (filter (rule_applies ev now) ?rules)" using r by simp
  then obtain n where n: "n < length (filter (rule_applies ev now) ?rules)"
    "filter (rule_applies ev now) ?rules ! n = r" by (meson in_set_conv_nth)
  then have "n < length sts" using list_all2_lengthD [OF all] by simp
  then have st: "sts ! n \<in> set sts"
    "counters.reader.judged (db_events db) (ev_project ev) now ev ?k now (resolver res) r (sts ! n)"
    using list_all2_nthD [OF all n(1)] n(2) by simp_all
  obtain u where u: "counters_stand u (mset (map row_usage (window_rows (db_events db) (ev_project ev) (lr_scope r) ?since)))"
    "sts ! n = judge_rule ev now (resolver res) r (usage_plus u ?k)"
    using st(2) unfolding counters.reader.judged_def by blast
  define v where "v = usage_scan (db_events db) (ev_project ev) (lr_scope r) ?since"
  have "u_calls u = u_calls v" "u_tokens u = u_tokens v"
    using u(1) counters.scan_stands [OF TrueI, of "db_events db" "ev_project ev" "lr_scope r" ?since]
    by (simp_all add: counters_stand_def v_def)
  note same = metric_value_counters [OF assms(10) this, of ?k]
  have "rejects_ingest (sts ! n) \<longleftrightarrow> cap \<le> metric_value (usage_plus v ?k) (lr_metric r)"
    unfolding u(2) judge_simps(1) [where resolve = "resolver res" and r = r,
        OF resolver_fixed [OF assms(11) dist r(1) res]] same
    using assms(8,10) by simp
  moreover have "insert_checked db c ev now = (if ad_admitted (from_statuses sts)
        then (case event_insert (db_events db) ev of Inl e \<Rightarrow> (Inl e, db, d)
              | Inr t \<Rightarrow> (Inr (from_statuses sts), db\<lparr>db_events := t\<rparr>, d))
        else (Inr (from_statuses sts), db, d))"
    using res adm by (simp add: insert_checked_def insert_checked_with_rules_def)
  ultimately show thesis using that [OF st(1)] by (simp add: v_def)
qed

text \<open>
  C1: a count cap caps. In every reachable state, when the store admits an event under an active rule
  on calls or tokens that enforces and covers the event, the full scan of the rule's window over the
  events stored afterwards, the new one included, is still below the rule's threshold.
\<close>

theorem admitted_stays_below_cap:
  assumes "store_reach (db, c, clk)" and "clk \<le> now"
    and "\<forall>r \<in> set (db_events db). row_reads r" and "distinct (map lr_id (db_rules db))"
    and "r \<in> set (db_rules db)" and "lr_project_id r = ev_project ev"
    and "is_active_at r now" and "action_enforces (effective_action_at r now)"
    and "scope_matches (lr_scope r) (event_scope_dims ev)"
    and "lr_metric r \<noteq> CostUsd" and "lr_threshold r = Fixed cap"
    and "window_since (lr_window r) now \<le> ev_received_at ev"
    and "insert_checked db c ev now = (Inr a, db', c')" and "ad_admitted a"
  shows "\<not> cap \<le> metric_value (usage_scan (db_events db') (ev_project ev) (lr_scope r)
                                (window_since (lr_window r) now)) (lr_metric r)"
proof -
  obtain sts st d where st: "st \<in> set sts" "rejects_ingest st \<longleftrightarrow> cap \<le> metric_value (usage_plus
        (usage_scan (db_events db) (ev_project ev) (lr_scope r) (window_since (lr_window r) now))
        (event_contribution ev)) (lr_metric r)"
    and ins: "insert_checked db c ev now = (if ad_admitted (from_statuses sts)
        then (case event_insert (db_events db) ev of Inl e \<Rightarrow> (Inl e, db, d)
              | Inr t \<Rightarrow> (Inr (from_statuses sts), db\<lparr>db_events := t\<rparr>, d))
        else (Inr (from_statuses sts), db, d))"
    using checked_insert_judges [OF assms(1-11)] by blast
  have a: "a = from_statuses sts" and "\<exists>t. event_insert (db_events db) ev = Inr t \<and> db' = db\<lparr>db_events := t\<rparr>"
    using assms(13,14) ins by (auto split: if_splits sum.splits)
  then obtain i where db': "db_events db' = db_events db @ [row_of_event i ev]"
    by (auto simp: event_insert_def split: if_splits)
  have "\<not> rejects_ingest st" using st(1) assms(14) a by (auto simp: from_statuses_admitted)
  moreover have "usage_scan (db_events db') (ev_project ev) (lr_scope r) (window_since (lr_window r) now)
      = usage_plus (usage_scan (db_events db) (ev_project ev) (lr_scope r) (window_since (lr_window r) now))
          (event_contribution ev)"
    using assms(9,12)
    by (simp add: db' usage_scan_snoc row_of_event_selected row_of_event_usage row_of_event_arrival)
  ultimately show ?thesis using st(2) by simp
qed

text \<open>
  At the cap everything is refused, a retry included. In every reachable state, an event that
  would bring the full scan of an enforcing count rule's window to the cap is refused with a wait and
  nothing is stored; whether the table already holds the event plays no part.
\<close>

theorem at_cap_refused:
  assumes "store_reach (db, c, clk)" and "clk \<le> now"
    and "\<forall>r \<in> set (db_events db). row_reads r" and "distinct (map lr_id (db_rules db))"
    and "r \<in> set (db_rules db)" and "lr_project_id r = ev_project ev"
    and "is_active_at r now" and "action_enforces (effective_action_at r now)"
    and "scope_matches (lr_scope r) (event_scope_dims ev)"
    and "lr_metric r \<noteq> CostUsd" and "lr_threshold r = Fixed cap"
    and "cap \<le> metric_value (usage_plus
        (usage_scan (db_events db) (ev_project ev) (lr_scope r) (window_since (lr_window r) now))
        (event_contribution ev)) (lr_metric r)"
  shows "\<exists>a c'. insert_checked db c ev now = (Inr a, db, c') \<and> \<not> ad_admitted a \<and> ad_retry_after a \<noteq> None"
proof -
  obtain sts st d where st: "st \<in> set sts" "rejects_ingest st"
    and ins: "insert_checked db c ev now = (if ad_admitted (from_statuses sts)
        then (case event_insert (db_events db) ev of Inl e \<Rightarrow> (Inl e, db, d)
              | Inr t \<Rightarrow> (Inr (from_statuses sts), db\<lparr>db_events := t\<rparr>, d))
        else (Inr (from_statuses sts), db, d))"
    using checked_insert_judges [OF assms(1-11)] assms(12) by metis
  then have "\<not> ad_admitted (from_statuses sts)" by (auto simp: from_statuses_admitted)
  then show ?thesis using ins from_statuses_no_wait [of sts] by auto
qed

text \<open>A bucket that has not passed an unreadable row fails to load and stays where it is.\<close>

lemma cache_usage_stuck:
  assumes "r \<in> set t" and "\<not> row_reads r" and "\<forall>k. b_seen (bucket_of c k) < er_rowid r"
  shows "\<exists>c'. cache_usage t project now c w scope = (Inl SeSqlite, c')
    \<and> (\<forall>k. b_seen (bucket_of c' k) < er_rowid r)"
proof -
  let ?k = "(project, w, scope)"
  have "decode_rows (filter (\<lambda>x. b_seen (bucket_of c ?k) < er_rowid x) t) = Inl SeSqlite"
    by (rule decode_rows_bad) (use assms in auto)
  moreover have "bucket_of (AList.update ?k (bucket_of c ?k) c) k = bucket_of c k" for k
    by (cases "k = ?k") (simp_all add: bucket_of_def)
  ultimately show ?thesis
    using assms(3) by (simp add: cache_usage_def load_new_def Let_def)
qed

lemma admission_loop_stuck:
  assumes "\<And>c w s. P c \<Longrightarrow> \<exists>c'. read c w s = (Inl e, c') \<and> P c'" and "P c"
    and "\<exists>q \<in> set rules. rule_applies ev now q"
  shows "\<exists>c'. admission_loop ev k now read resolve [] sts c rules = (Inl e, c') \<and> P c'"
  using assms(2,3)
proof (induction rules)
  case (Cons q rules)
  obtain c' where "read c (lr_window q) (lr_scope q) = (Inl e, c')" "P c'"
    using assms(1) [OF Cons.prems(1)] by blast
  then show ?case using Cons by (cases "rule_applies ev now q") auto
qed simp

text \<open>
  C38: one unreadable row stops ingest. While the table holds a row whose token counts do not add up
  within 64 bits, or whose metadata carries a number or boolean under a key the cache reads as text,
  and no bucket has passed it, every event of every project to which some rule applies is answered
  with a storage error and not stored, and no bucket gets past the row, so that it stays so.
\<close>

theorem unreadable_row_stops_ingest:
  assumes "r \<in> set (db_events db)" and "\<not> row_reads r"
    and "\<forall>k. b_seen (bucket_of c k) < er_rowid r"
    and "q \<in> set (db_rules db)" and "lr_project_id q = ev_project ev" and "lr_enabled q"
    and "rule_applies ev now q"
  shows "\<exists>c'. insert_checked db c ev now = (Inl SeSqlite, db, c')
    \<and> (\<forall>k. b_seen (bucket_of c' k) < er_rowid r)"
proof -
  let ?rules = "enabled_rules db (ev_project ev)"
  let ?read = "cache_usage (db_events db) (ev_project ev) now"
  have fetch: "\<exists>ws. fetch_windows rs now (\<lambda>s u. Inr (f s u)) m = Inr ws" for rs f m
    by (induction rs arbitrary: m) auto
  obtain res where res: "resolve_all ?rules now
      (\<lambda>s u. Inr (revenue_list (db_revenue db) (Some (ev_project ev)) s u)) = Inr res"
    using fetch [of ?rules "revenue_list (db_revenue db) (Some (ev_project ev))" "[]"]
    by (auto simp: resolve_all_def)
  have "\<exists>q \<in> set ?rules. rule_applies ev now q" using assms(4-7) by (auto simp: enabled_rules_def)
  then obtain c' where "admission_loop ev (event_contribution ev) now ?read (resolver res) [] [] c ?rules
      = (Inl SeSqlite, c')" "\<forall>k. b_seen (bucket_of c' k) < er_rowid r"
    using admission_loop_stuck [where P = "\<lambda>c. \<forall>k. b_seen (bucket_of c k) < er_rowid r"
        and read = ?read, OF cache_usage_stuck [OF assms(1,2)] assms(3)] by blast
  then show ?thesis
    using res by (simp add: insert_checked_def insert_checked_with_rules_def evaluate_admission_at_def)
qed

section \<open>Witnesses\<close>

definition sample_db :: database where
  "sample_db = \<lparr>db_events = [], db_rules = [sample_cap Calls (Fin 8)], db_revenue = []\<rparr>"

lemma sample_reach: "store_reach (sample_db, [], 0)"
  by (rule opened) (simp add: sample_db_def table_wf_def)


text \<open>A project whose event names its customer by number stops the sample project's ingest.\<close>

definition numbered_customer :: llm_event where
  "numbered_customer = sample_event\<lparr>ev_project := ''other'', ev_metadata := MdObject [(''customer_id'', MvScalar)]\<rparr>"

lemma unreadable_row_stops_ingest_witness:
  "fst (insert_checked (sample_db\<lparr>db_events := [row_of_event 1 numbered_customer]\<rparr>) [] sample_event 1000)
   = Inl SeSqlite"
  using unreadable_row_stops_ingest [of "row_of_event 1 numbered_customer"
      "sample_db\<lparr>db_events := [row_of_event 1 numbered_customer]\<rparr>" "[]" "sample_cap Calls (Fin 8)"
      sample_event 1000]
  by (auto simp: sample_db_def sample_cap_def sample_event_def numbered_customer_def row_of_event_def
      row_reads_def bucket_default_def rule_applies_def is_active_at_def scope_matches_def)

text \<open>The one rule of the sample store admits the sample event: it reads an empty window.\<close>

lemma sample_insert:
  "\<exists>a db' c'. insert_checked sample_db [] sample_event 1000 = (Inr a, db', c') \<and> ad_admitted a"
proof -
  let ?r = "sample_cap Calls (Fin 8)" and ?k = "event_contribution sample_event"
  have rules: "enabled_rules sample_db (ev_project sample_event) = [?r]"
    by (simp add: enabled_rules_def sample_db_def sample_cap_def sample_event_def)
  have fixed: "lr_threshold ?r = Fixed (Fin 8)" "\<not> needs_revenue ?r"
    by (simp_all add: sample_cap_def needs_revenue_def)
  have res: "resolve_all [?r] 1000 f = Inr []" for f
    using fixed by (simp add: resolve_all_def)
  have applies: "rule_applies sample_event 1000 ?r"
    by (simp add: rule_applies_def sample_cap_def is_active_at_def scope_matches_def)
  have read: "\<exists>c'. cache_usage [] p 1000 [] w s = (Inr usage_default, c')" for p w s
    by (simp add: cache_usage_def Let_def load_new_def bucket_of_def bucket_default_def evict_before_def)
  then obtain c' where c': "cache_usage [] (ev_project sample_event) 1000 [] (lr_window ?r) (lr_scope ?r)
      = (Inr usage_default, c')" by blast
  let ?st = "judge_rule sample_event 1000 (resolver []) ?r (usage_plus usage_default ?k)"
  have adm: "evaluate_admission_at [?r] sample_event ?k 1000
      (cache_usage [] (ev_project sample_event) 1000) (resolver []) [] = (Inr (from_statuses [?st]), c')"
    using applies c' by (simp add: evaluate_admission_at_def Let_def)
  have "resolver [] ?r = (Fin 8, basis_fixed)"
    using fixed by (simp add: resolver_def threshold_resolve_def)
  note judged = judge_simps [where resolve = "resolver []" and r = ?r, OF this]
  have "\<not> rejects_ingest ?st" unfolding judged
    by (simp add: sample_cap_def usage_plus_def usage_default_def event_contribution_def
        f64_of_int_exact Let_def)
  moreover have "\<not> ls_shedding ?st" unfolding judged
    by (simp add: status_sheds_def evaluate_rule_resolved_at_def eval_simps shed_fraction_of_def
        sample_cap_def effective_action_at_def action_sheds_def)
  ultimately have ok: "ad_admitted (from_statuses [?st])" by (simp add: from_statuses_admitted)
  show ?thesis
    using rules res adm ok
    by (simp add: insert_checked_def insert_checked_with_rules_def sample_db_def event_insert_def)
qed

lemma admitted_stays_below_cap_witness:
  "case insert_checked sample_db [] sample_event 1000 of
     (x, db', c') \<Rightarrow> \<not> Fin 8 \<le> metric_value (usage_scan (db_events db') ''p'' None (window_since Hour 1000)) Calls"
proof -
  obtain a db' c' where ins: "insert_checked sample_db [] sample_event 1000 = (Inr a, db', c')"
    and adm: "ad_admitted a"
    using sample_insert by blast
  have "\<not> Fin 8 \<le> metric_value (usage_scan (db_events db') (ev_project sample_event)
      (lr_scope (sample_cap Calls (Fin 8))) (window_since (lr_window (sample_cap Calls (Fin 8))) 1000))
      (lr_metric (sample_cap Calls (Fin 8)))"
    by (rule admitted_stays_below_cap [OF sample_reach _ _ _ _ _ _ _ _ _ _ _ ins adm])
       (simp_all add: sample_db_def sample_cap_def sample_event_def is_active_at_def
         effective_action_at_def action_enforces_def scope_matches_def window_since_def chrono_secs_def)
  then show ?thesis using ins by (simp add: sample_cap_def sample_event_def)
qed

lemma insert_then_get_witness: "event_get [row_of_event 1 sample_event] (Some ''p'') ''e1'' = Some sample_event"
proof -
  have "provider_id (ev_provider sample_event) = ev_provider sample_event"
    by (simp add: sample_event_def) code_simp
  moreover have "event_insert [] sample_event = Inr [row_of_event 1 sample_event]"
    by (simp add: event_insert_def next_rowid_def)
  ultimately have "event_get [row_of_event 1 sample_event] (Some (ev_project sample_event)) (ev_id sample_event)
      = Some sample_event" using insert_then_get [of sample_event] by blast
  then show ?thesis by (simp add: sample_event_def)
qed

definition full_db :: database where
  "full_db = \<lparr>db_events = [], db_rules = [sample_cap Calls 1], db_revenue = []\<rparr>"

lemma at_cap_refused_witness:
  "\<exists>a c'. insert_checked full_db [] sample_event 1000 = (Inr a, full_db, c') \<and> \<not> ad_admitted a"
proof -
  have "store_reach (full_db, [], 0)" by (rule opened) (simp add: full_db_def table_wf_def)
  from at_cap_refused [OF this, of 1000 "sample_cap Calls 1" sample_event 1] show ?thesis
    by (auto simp: full_db_def sample_cap_def sample_event_def is_active_at_def effective_action_at_def
        action_enforces_def scope_matches_def usage_scan_def usage_plus_def usage_default_def
        event_contribution_def f64_of_int_exact Let_def)
qed

end
