(* ===== verification/PriceBook.thy ===== *)
theory PriceBook
  imports UsageLedger
begin

text \<open>
  The price book of \<^verbatim>\<open>crates/core/src/pricing.rs\<close>, \<^verbatim>\<open>price_row.rs\<close> and \<^verbatim>\<open>usage_split.rs\<close>:
  dated rows, the index of prompt-length tiers, lanes, the chain of keys a model may be priced under,
  and the cost of a call in binary64. A \<^verbatim>\<open>HashMap\<close> is the list of its entries, one per key, in
  whatever order it iterates.
\<close>

section \<open>Token counts\<close>

record token_usage =
  tu_input :: u64
  tu_output :: u64
  tu_cached_input :: "u64 option"
  tu_reasoning :: "u64 option"

record subcount_overflow =
  so_input :: u64
  so_cached_input :: u64

definition overflow_excess :: "subcount_overflow \<Rightarrow> u64" where
  "overflow_excess o' = (if so_cached_input o' \<le> so_input o' then 0 else so_cached_input o' - so_input o')"

definition cached_tokens :: "token_usage \<Rightarrow> u64" where
  "cached_tokens u = (case tu_cached_input u of Some c \<Rightarrow> c | None \<Rightarrow> 0)"

definition check_subcounts :: "token_usage \<Rightarrow> subcount_overflow + unit" where
  "check_subcounts u = (case tu_cached_input u of
     Some cached \<Rightarrow>
       if tu_input u < cached then Inl \<lparr>so_input = tu_input u, so_cached_input = cached\<rparr> else Inr ()
   | None \<Rightarrow> Inr ())"

definition billable_input :: "token_usage \<Rightarrow> subcount_overflow + u64" where
  "billable_input u = (case check_subcounts u of
     Inl e \<Rightarrow> Inl e | Inr _ \<Rightarrow> Inr (tu_input u - cached_tokens u))"

section \<open>Prices and lanes\<close>

record model_price =
  mp_input :: f64
  mp_output :: f64
  mp_cached_input :: "f64 option"
  mp_aliases :: "string list"

datatype pricing_mode = PmStandard | PmBatch | PmFlex

definition pricing_mode_parse :: "string \<Rightarrow> pricing_mode" where
  "pricing_mode_parse s = (let l = to_ascii_lowercase (str_trim s) in
     if l = ''batch'' then PmBatch
     else if l = ''flex'' \<or> l = ''priority'' then PmFlex
     else PmStandard)"

definition pricing_mode_from_hints :: "metadata \<Rightarrow> string list \<Rightarrow> pricing_mode" where
  "pricing_mode_from_hints md tags =
     (case meta_str md ''pricing_mode'' of
        Some m \<Rightarrow> pricing_mode_parse m
      | None \<Rightarrow>
          if list_ex (\<lambda>t. t = ''batch'') tags then PmBatch
          else if list_ex (\<lambda>t. t = ''flex'' \<or> t = ''priority'') tags then PmFlex
          else PmStandard)"

fun mode_suffix :: "pricing_mode \<Rightarrow> string option" where
  "mode_suffix PmStandard = None"
| "mode_suffix PmBatch = Some ''@batch''"
| "mode_suffix PmFlex = Some ''@flex''"

section \<open>The book\<close>

record price_book =
  pb_entries :: "(string \<times> model_price) list"
  pb_tiers :: "(string \<times> (nat \<times> string) list) list"
  pb_aliases :: alias_table
  pb_verified_at :: "instant option"

definition price_key :: "string \<Rightarrow> string \<Rightarrow> string" where
  "price_key provider model = provider @ ''/'' @ model"

text \<open>\<^verbatim>\<open>str::rsplit_once\<close> at the last occurrence of a pattern, and \<^verbatim>\<open>u64::from_str\<close>.\<close>

fun rsplit_once :: "string \<Rightarrow> string \<Rightarrow> (string \<times> string) option" where
  "rsplit_once p [] = None"
| "rsplit_once p (c # s) =
     (case rsplit_once p s of
        Some (a, b) \<Rightarrow> Some (c # a, b)
      | None \<Rightarrow> if starts_with (c # s) p then Some ([], drop (length p) (c # s)) else None)"

definition digits_value :: "string \<Rightarrow> nat" where
  "digits_value s = foldl (\<lambda>n c. 10 * n + (of_char c - 48)) 0 s"

definition parse_u64 :: "string \<Rightarrow> nat option" where
  "parse_u64 s0 = (let s = (case s0 of c # r \<Rightarrow> if c = CHR ''+'' then r else s0 | [] \<Rightarrow> []) in
     if s \<noteq> [] \<and> list_all is_digit s \<and> digits_value s < 2 ^ 64 then Some (digits_value s) else None)"

definition tier_of :: "string \<Rightarrow> (string \<times> nat) option" where
  "tier_of key = (case rsplit_once ''@in>'' key of
     Some (base, s) \<Rightarrow> (case parse_u64 s of Some n \<Rightarrow> Some (base, n) | None \<Rightarrow> None)
   | None \<Rightarrow> None)"

text \<open>Each tier key is pushed under its base; then every list is sorted, highest threshold first.\<close>

fun push_tiers :: "string list \<Rightarrow> (string \<times> (nat \<times> string) list) list
    \<Rightarrow> (string \<times> (nat \<times> string) list) list" where
  "push_tiers [] tiers = tiers"
| "push_tiers (key # keys) tiers =
     (case tier_of key of
        Some (base, n) \<Rightarrow>
          push_tiers keys (AList.update base
            ((case map_of tiers base of Some l \<Rightarrow> l | None \<Rightarrow> []) @ [(n, key)]) tiers)
      | None \<Rightarrow> push_tiers keys tiers)"

definition index_tiers :: "(string \<times> model_price) list \<Rightarrow> (string \<times> (nat \<times> string) list) list" where
  "index_tiers entries =
     map (\<lambda>(b, l). (b, sort_key (\<lambda>(n, _). - int n) l)) (push_tiers (map fst entries) [])"

definition price_book_new :: "(string \<times> model_price) list \<Rightarrow> price_book" where
  "price_book_new entries = \<lparr>pb_entries = entries, pb_tiers = index_tiers entries,
     pb_aliases = alias_from_pairs (concat (map (\<lambda>(key, price).
       let canonical = (case split_once (CHR ''/'') key of Some (_, m) \<Rightarrow> m | None \<Rightarrow> key)
       in map (\<lambda>a. (a, canonical)) (mp_aliases price)) entries)),
     pb_verified_at = None\<rparr>"

subsection \<open>Dated rows\<close>

record model_price_row =
  pr_provider :: string
  pr_model :: string
  pr_input :: f64
  pr_output :: f64
  pr_cached_input :: "f64 option"
  pr_effective_from :: instant
  pr_verified_at :: "instant option"

definition row_price_key :: "model_price_row \<Rightarrow> string" where
  "row_price_key r = price_key (pr_provider r) (pr_model r)"

definition price_of_row :: "model_price_row \<Rightarrow> model_price" where
  "price_of_row r = \<lparr>mp_input = pr_input r, mp_output = pr_output r,
     mp_cached_input = pr_cached_input r, mp_aliases = []\<rparr>"

definition keep_latest :: "('k \<times> model_price_row) list \<Rightarrow> 'k \<Rightarrow> model_price_row
    \<Rightarrow> ('k \<times> model_price_row) list" where
  "keep_latest current k r =
     (case map_of current k of
        Some best \<Rightarrow> if pr_effective_from best \<le> pr_effective_from r
                     then AList.update k r current else current
      | None \<Rightarrow> AList.update k r current)"

fun opt_min :: "instant option list \<Rightarrow> instant option" where
  "opt_min [] = None"
| "opt_min (None # xs) = opt_min xs"
| "opt_min (Some x # xs) = (case opt_min xs of Some y \<Rightarrow> Some (min x y) | None \<Rightarrow> Some x)"

definition from_rows_at :: "model_price_row list \<Rightarrow> instant \<Rightarrow> price_book" where
  "from_rows_at rows now =
     (let current = foldl (\<lambda>m r. keep_latest m (row_price_key r) r) []
            (filter (\<lambda>r. pr_effective_from r \<le> now) rows);
          entries = map (\<lambda>(k, r). (k, price_of_row r)) current
      in \<lparr>pb_entries = entries, pb_tiers = index_tiers entries, pb_aliases = [],
          pb_verified_at = opt_min (map pr_verified_at rows)\<rparr>)"

definition book_rows :: "price_book \<Rightarrow> instant \<Rightarrow> model_price_row list" where
  "book_rows b now = List.map_filter (\<lambda>(k, v).
     case split_once (CHR ''/'') k of
       Some (provider, model) \<Rightarrow>
         Some \<lparr>pr_provider = provider, pr_model = model, pr_input = mp_input v, pr_output = mp_output v,
           pr_cached_input = mp_cached_input v,
           pr_effective_from = (case pb_verified_at b of Some t \<Rightarrow> t | None \<Rightarrow> now),
           pr_verified_at = pb_verified_at b\<rparr>
     | None \<Rightarrow> None) (pb_entries b)"

text \<open>The shared fold of \<^verbatim>\<open>crates/store/src/pricing.rs\<close>, keyed by the pair; its result is in key order.\<close>

definition current_rows :: "model_price_row list \<Rightarrow> instant \<Rightarrow> model_price_row list" where
  "current_rows rows now =
     map snd (sort_key fst (foldl (\<lambda>m r. keep_latest m (pr_provider r, pr_model r) r) []
       (filter (\<lambda>r. pr_effective_from r \<le> now) rows)))"

subsection \<open>Freshness\<close>

record price_book_posture =
  pp_verified_at :: "instant option"
  pp_stale :: bool
  pp_stale_after_days :: int
  pp_rows :: nat

definition num_days :: "int \<Rightarrow> int" where
  "num_days d = (if 0 \<le> d then d div 86400000000000 else - ((- d) div 86400000000000))"

definition posture_measure :: "model_price_row list \<Rightarrow> instant \<Rightarrow> int \<Rightarrow> price_book_posture" where
  "posture_measure rows now stale_after_days =
     (let verified_at = opt_min (map pr_verified_at rows);
          stale = (case verified_at of
            Some v \<Rightarrow> stale_after_days < num_days (now - v) | None \<Rightarrow> rows \<noteq> [])
      in \<lparr>pp_verified_at = verified_at, pp_stale = stale,
          pp_stale_after_days = stale_after_days, pp_rows = length rows\<rparr>)"

section \<open>Resolving a price\<close>

definition push_candidate :: "(string \<times> string) list \<Rightarrow> string \<Rightarrow> string \<Rightarrow> (string \<times> string) list" where
  "push_candidate out p m = (if (p, m) \<in> set out then out else out @ [(p, m)])"

definition candidates :: "price_book \<Rightarrow> string \<Rightarrow> string \<Rightarrow> (string \<times> string) list" where
  "candidates b provider model =
     (let out = push_candidate [] provider model;
          i = canonicalize provider model;
          out = push_candidate out (mi_provider i) (mi_family i);
          aliased = with_aliases (pb_aliases b) i;
          out = push_candidate out (mi_provider aliased) (mi_family aliased);
          family = family_of (mi_provider aliased)
      in if family_is_known family
         then push_candidate out (family_as_str family) (mi_family aliased) else out)"

text \<open>\<^verbatim>\<open>Iterator::find_map\<close>.\<close>

fun find_map :: "('a \<Rightarrow> 'b option) \<Rightarrow> 'a list \<Rightarrow> 'b option" where
  "find_map f [] = None"
| "find_map f (x # xs) = (case f x of Some y \<Rightarrow> Some y | None \<Rightarrow> find_map f xs)"

definition price_lookup :: "price_book \<Rightarrow> string \<Rightarrow> string \<Rightarrow> model_price option" where
  "price_lookup b provider model =
     find_map (\<lambda>(p, m). map_of (pb_entries b) (price_key p m)) (candidates b provider model)"

definition tier_price :: "price_book \<Rightarrow> string \<Rightarrow> u64 \<Rightarrow> model_price option" where
  "tier_price b base input_tokens =
     (case map_of (pb_tiers b) base of
        None \<Rightarrow> None
      | Some tiers \<Rightarrow>
          (case find (\<lambda>(n, _). n < unat input_tokens) tiers of
             None \<Rightarrow> None
           | Some (_, key) \<Rightarrow> map_of (pb_entries b) key))"

definition resolve_exact :: "price_book \<Rightarrow> string \<Rightarrow> string \<Rightarrow> u64 \<Rightarrow> pricing_mode
    \<Rightarrow> model_price option" where
  "resolve_exact b provider model input_tokens mode =
     (case (case mode_suffix mode of
              Some suffix \<Rightarrow> map_of (pb_entries b) (price_key provider (model @ suffix))
            | None \<Rightarrow> None) of
        Some p \<Rightarrow> Some p
      | None \<Rightarrow>
          (case tier_price b (price_key provider model) input_tokens of
             Some p \<Rightarrow> Some p
           | None \<Rightarrow> map_of (pb_entries b) (price_key provider model)))"

definition price_resolve :: "price_book \<Rightarrow> string \<Rightarrow> string \<Rightarrow> u64 \<Rightarrow> pricing_mode
    \<Rightarrow> model_price option" where
  "price_resolve b provider model input_tokens mode =
     (let mode = (case (mi_lane (canonicalize provider model), mode) of
            (Some l, PmStandard) \<Rightarrow> pricing_mode_parse l | _ \<Rightarrow> mode)
      in find_map (\<lambda>(p, m). resolve_exact b p m input_tokens mode) (candidates b provider model))"

definition f64_of_u64 :: "u64 \<Rightarrow> f64" where
  "f64_of_u64 w = f64_of_int (uint w)"

definition cost_usd_mode :: "price_book \<Rightarrow> string \<Rightarrow> string \<Rightarrow> token_usage \<Rightarrow> pricing_mode
    \<Rightarrow> f64 option" where
  "cost_usd_mode b provider model usage mode =
     (case billable_input usage of
        Inl _ \<Rightarrow> None
      | Inr billable \<Rightarrow>
          (case price_resolve b provider model (tu_input usage) mode of
             None \<Rightarrow> None
           | Some p \<Rightarrow>
               (let cached = cached_tokens usage;
                    cost = f64_of_u64 billable * mp_input p / Fin 1000000
                      + f64_of_u64 (tu_output usage) * mp_output p / Fin 1000000;
                    cached_rate = (case mp_cached_input p of Some c \<Rightarrow> c | None \<Rightarrow> mp_input p)
                in Some (cost + f64_of_u64 cached * cached_rate / Fin 1000000))))"

text \<open>Reasoning tokens are counted inside the output, and are not billed beside it.\<close>

lemma cost_ignores_reasoning:
  "cost_usd_mode b p m \<lparr>tu_input = i, tu_output = q, tu_cached_input = c, tu_reasoning = r\<rparr> mode
   = cost_usd_mode b p m \<lparr>tu_input = i, tu_output = q, tu_cached_input = c, tu_reasoning = r'\<rparr> mode"
  by (simp add: cost_usd_mode_def billable_input_def check_subcounts_def cached_tokens_def
      split: option.splits)

definition event_usage :: "llm_event \<Rightarrow> token_usage" where
  "event_usage ev = \<lparr>tu_input = ev_input ev, tu_output = ev_output ev, tu_cached_input = ev_cached_input ev,
     tu_reasoning = ev_reasoning ev\<rparr>"

definition event_pricing_mode :: "llm_event \<Rightarrow> pricing_mode" where
  "event_pricing_mode ev = pricing_mode_from_hints (ev_metadata ev) (ev_tags ev)"

definition ensure_cost :: "llm_event \<Rightarrow> price_book \<Rightarrow> llm_event" where
  "ensure_cost ev prices =
     (if ev_cost_usd ev = None
      then ev\<lparr>ev_cost_usd := cost_usd_mode prices (ev_provider ev) (ev_model ev) (event_usage ev)
                               (event_pricing_mode ev)\<rparr>
      else ev)"

section \<open>The rows a book charges\<close>

text \<open>The row in force among the rows of one key: the latest, the last of them on a tie.\<close>

definition better :: "model_price_row option \<Rightarrow> model_price_row \<Rightarrow> model_price_row option" where
  "better b r = (case b of
     Some best \<Rightarrow> if pr_effective_from best \<le> pr_effective_from r then Some r else Some best
   | None \<Rightarrow> Some r)"

lemma keep_latest_fold:
  "map_of (foldl (\<lambda>m r. keep_latest m (kf r) r) m rows) k
     = foldl better (map_of m k) (filter (\<lambda>r. kf r = k) rows)"
proof (induction rows arbitrary: m)
  case (Cons r rows)
  have "map_of (keep_latest m (kf r) r) k = (if kf r = k then better (map_of m k) r else map_of m k)"
    by (auto simp: keep_latest_def better_def split: option.splits)
  then show ?case using Cons.IH [of "keep_latest m (kf r) r"] by simp
qed simp

lemma better_fold:
  "foldl better b rows = None \<longleftrightarrow> b = None \<and> rows = []"
  "foldl better b rows = Some r \<Longrightarrow> (b = Some r \<or> r \<in> set rows)
     \<and> (\<forall>x. b = Some x \<or> x \<in> set rows \<longrightarrow> pr_effective_from x \<le> pr_effective_from r)"
proof (induction rows arbitrary: b)
  case (Cons x rows)
  {
    case 1
    show ?case using Cons.IH(1) [of "better b x"] by (auto simp: better_def split: option.splits)
  next
    case 2
    then show ?case using Cons.IH(2) [of "better b x"]
      by (auto simp: better_def split: option.splits if_splits intro: order_trans)
  }
qed simp_all

text \<open>
  A book charges the rate in force. Built from dated rows as of an instant, it prices a key
  exactly when some row of that key has taken effect, at the rates of a row of that key than which
  none in force is later; a rate announced for the future is never charged early.
\<close>

theorem book_charges_rate_in_force:
  fixes rows :: "model_price_row list" and at_time :: instant
  defines "price k \<equiv> map_of (pb_entries (from_rows_at rows at_time)) k"
    and "in_force k r \<equiv> r \<in> set rows \<and> row_price_key r = k \<and> pr_effective_from r \<le> at_time"
  shows "(price k = None \<longleftrightarrow> (\<forall>r. \<not> in_force k r))
    \<and> (\<forall>p. price k = Some p \<longrightarrow> (\<exists>r. in_force k r \<and> p = price_of_row r
          \<and> (\<forall>x. in_force k x \<longrightarrow> pr_effective_from x \<le> pr_effective_from r)))"
proof -
  let ?rs = "filter (\<lambda>r. row_price_key r = k) (filter (\<lambda>r. pr_effective_from r \<le> at_time) rows)"
  have p: "price k = map_option price_of_row (foldl better None ?rs)"
    using keep_latest_fold [of row_price_key "[]" "filter (\<lambda>r. pr_effective_from r \<le> at_time) rows" k]
    by (simp add: price_def from_rows_at_def Let_def map_of_map)
  have "set ?rs = {r. in_force k r}" by (auto simp: in_force_def)
  moreover from this have "?rs = [] \<longleftrightarrow> (\<forall>r. \<not> in_force k r)"
    by (metis empty_Collect_eq set_empty)
  ultimately show ?thesis
    using better_fold(1) [of None ?rs] better_fold(2) [of None ?rs] unfolding p
    by (auto simp: map_option_case split: option.splits)
qed

lemma price_key_inj:
  "CHR ''/'' \<notin> set p \<Longrightarrow> CHR ''/'' \<notin> set q \<Longrightarrow> price_key p m = price_key q n \<longleftrightarrow> p = q \<and> m = n"
proof (induction p arbitrary: q)
  case Nil
  then show ?case by (cases q) (auto simp: price_key_def)
next
  case (Cons c p)
  then show ?case by (cases q) (auto simp: price_key_def)
qed

lemma hm_wf_keep_latest: "hm_wf m \<Longrightarrow> hm_wf (foldl (\<lambda>m r. keep_latest m (kf r) r) m rows)"
  by (induction rows arbitrary: m) (auto simp: keep_latest_def split: option.splits)

lemma keep_latest_own_key:
  "\<forall>(k, r) \<in> set m. kf r = k
   \<Longrightarrow> \<forall>(k, r) \<in> set (foldl (\<lambda>m r. keep_latest m (kf r) r) m rows). kf r = k"
proof (induction rows arbitrary: m)
  case (Cons r rows)
  have "set (AList.update (kf r) r m) \<subseteq> insert (kf r, r) (set m)" by (induction m) auto
  then have "\<forall>(k, r) \<in> set (keep_latest m (kf r) r). kf r = k"
    using Cons.prems by (auto simp: keep_latest_def split: option.splits)
  then show ?case using Cons.IH [of "keep_latest m (kf r) r"] by simp
qed simp

lemma filter_one_key:
  assumes "hm_wf m" and "\<forall>(k, r) \<in> set m. kf r = k"
  shows "filter (\<lambda>r. kf r = k) (map snd m) = (case map_of m k of Some r \<Rightarrow> [r] | None \<Rightarrow> [])"
  using assms
proof (induction m)
  case (Cons kr m)
  then have "fst kr = k \<Longrightarrow> map_of m k = None"
    by (auto simp: map_of_eq_None_iff image_iff)
  with Cons show ?case by (cases kr) auto
qed simp

lemma map_of_sorted: "hm_wf m \<Longrightarrow> map_of (sort_key fst m) k = map_of m k"
proof -
  assume wf: "hm_wf m"
  have "hm_wf (sort_key fst m)" using wf by (simp add: distinct_map)
  then show ?thesis using wf map_of_inject_set [of "sort_key fst m" m] by simp
qed

text \<open>
  The two readings of the rate in force agree. A book built from the rows the shared fold calls
  current charges every key exactly what a book built from the whole dated table charges, as long
  as no provider name contains the separator of the book's keys.
\<close>

theorem current_rows_same_book:
  assumes "\<forall>r \<in> set rows. CHR ''/'' \<notin> set (pr_provider r)"
  shows "map_of (pb_entries (from_rows_at (current_rows rows now) now)) k
    = map_of (pb_entries (from_rows_at rows now)) k"
proof -
  let ?pair = "\<lambda>r. (pr_provider r, pr_model r)"
  let ?old = "filter (\<lambda>r. pr_effective_from r \<le> now) rows"
  let ?m = "foldl (\<lambda>m r. keep_latest m (?pair r) r) [] ?old"
  have book: "map_of (pb_entries (from_rows_at rs now)) k
      = map_option price_of_row (foldl better None (filter (\<lambda>r. row_price_key r = k)
          (filter (\<lambda>r. pr_effective_from r \<le> now) rs)))" for rs
    using keep_latest_fold [of row_price_key "[]" "filter (\<lambda>r. pr_effective_from r \<le> now) rs" k]
    by (simp add: from_rows_at_def Let_def map_of_map)
  have m: "map_of ?m pk = foldl better None (filter (\<lambda>r. ?pair r = pk) ?old)" for pk
    using keep_latest_fold [of ?pair "[]" ?old pk] by simp
  have wf: "hm_wf ?m" by (rule hm_wf_keep_latest) simp
  have own: "\<forall>(pk, r) \<in> set ?m. ?pair r = pk" using keep_latest_own_key [of "[]" ?pair ?old] by simp
  have wfs: "hm_wf (sort_key fst ?m)" using wf by (simp add: distinct_map)
  have cur: "r \<in> set ?old" if r: "r \<in> set (current_rows rows now)" for r
  proof -
    obtain pk where "(pk, r) \<in> set ?m" using r by (auto simp: current_rows_def)
    then have "foldl better None (filter (\<lambda>r. ?pair r = pk) ?old) = Some r"
      using map_of_is_SomeI [OF wf] m by simp
    then show ?thesis using better_fold(2) [of None] by fastforce
  qed
  then have now: "filter (\<lambda>r. pr_effective_from r \<le> now) (current_rows rows now) = current_rows rows now"
    by (auto simp: filter_id_conv)
  show ?thesis
  proof (cases "\<exists>r \<in> set ?old. row_price_key r = k")
    case False
    then have "filter (\<lambda>r. row_price_key r = k) ?old = []"
      "filter (\<lambda>r. row_price_key r = k) (current_rows rows now) = []"
      using cur by (auto simp: filter_empty_conv)
    then show ?thesis unfolding book now by simp
  next
    case True
    then obtain r0 where r0: "r0 \<in> set ?old" "row_price_key r0 = k" by blast
    have same: "row_price_key r = k \<longleftrightarrow> ?pair r = ?pair r0" if "r \<in> set ?old" for r
      using that r0 assms price_key_inj by (auto simp: row_price_key_def)
    then have flt: "filter (\<lambda>r. row_price_key r = k) ?old = filter (\<lambda>r. ?pair r = ?pair r0) ?old"
      "filter (\<lambda>r. row_price_key r = k) (current_rows rows now)
        = filter (\<lambda>r. ?pair r = ?pair r0) (current_rows rows now)"
      using cur by (auto intro!: filter_cong)
    have "filter (\<lambda>r. ?pair r = ?pair r0) (current_rows rows now)
        = (case map_of ?m (?pair r0) of Some r \<Rightarrow> [r] | None \<Rightarrow> [])"
      using filter_one_key [OF wfs, of ?pair "?pair r0"] own map_of_sorted [OF wf]
      by (simp add: current_rows_def)
    then show ?thesis unfolding book now flt m [symmetric]
      by (simp add: better_def split: option.splits)
  qed
qed

section \<open>Which row prices a call\<close>

definition tier_keys :: "string list \<Rightarrow> string \<Rightarrow> (nat \<times> string) list" where
  "tier_keys keys base = List.map_filter (\<lambda>key. case tier_of key of
     Some (b, n) \<Rightarrow> if b = base then Some (n, key) else None | None \<Rightarrow> None) keys"

lemma tier_keys_simps [simp]:
  "tier_keys [] base = []"
  "tier_keys (key # keys) base =
     (case tier_of key of Some (b, n) \<Rightarrow> if b = base then (n, key) # tier_keys keys base
        else tier_keys keys base | None \<Rightarrow> tier_keys keys base)"
  by (auto simp: tier_keys_def List.map_filter_simps split: option.splits)

lemma set_tier_keys: "(n, key) \<in> set (tier_keys keys base) \<longleftrightarrow> key \<in> set keys \<and> tier_of key = Some (base, n)"
  by (induction keys) (auto split: option.splits)

lemma push_tiers_lookup:
  "map_of (push_tiers keys tiers) base =
     (if map_of tiers base = None \<and> tier_keys keys base = [] then None
      else Some ((case map_of tiers base of Some l \<Rightarrow> l | None \<Rightarrow> []) @ tier_keys keys base))"
  by (induction keys arbitrary: tiers) (auto split: option.splits)

lemma index_tiers_lookup:
  "map_of (index_tiers entries) base =
     (if tier_keys (map fst entries) base = [] then None
      else Some (sort_key (\<lambda>(n, _). - int n) (tier_keys (map fst entries) base)))"
  using map_of_map [of "\<lambda>l. sort_key (\<lambda>(n, _). - int n) l" "push_tiers (map fst entries) []"]
    push_tiers_lookup [of "map fst entries" "[]" base]
  by (simp add: index_tiers_def)

lemma find_sorted:
  "sorted (map f xs) \<Longrightarrow> find P xs = Some x \<Longrightarrow> x \<in> set xs \<and> P x \<and> (\<forall>y \<in> set xs. P y \<longrightarrow> f x \<le> f y)"
  by (induction xs) (auto split: if_splits)

text \<open>
  The tier index answers as a scan of the whole book would. In a book whose index was built from
  its entries, a prompt is priced by the tier row of the model with the highest threshold below the
  prompt, whatever order the entries are iterated in, and by no tier exactly when none is exceeded.
\<close>

theorem tier_index_is_scan:
  assumes "hm_wf (pb_entries b)" and "pb_tiers b = index_tiers (pb_entries b)"
  shows "(tier_price b base w = None \<longleftrightarrow>
        (\<forall>(key, _) \<in> set (pb_entries b). \<forall>n. tier_of key = Some (base, n) \<longrightarrow> unat w \<le> n))
    \<and> (\<forall>p. tier_price b base w = Some p \<longrightarrow>
        (\<exists>key n. (key, p) \<in> set (pb_entries b) \<and> tier_of key = Some (base, n) \<and> n < unat w
          \<and> (\<forall>(key', _) \<in> set (pb_entries b). \<forall>n'. tier_of key' = Some (base, n') \<and> n' < unat w \<longrightarrow> n' \<le> n)))"
proof -
  let ?keys = "map fst (pb_entries b)"
  let ?l = "sort_key (\<lambda>(n, _). - int n) (tier_keys ?keys base)"
  let ?f = "find (\<lambda>(n, _). n < unat w) ?l"
  have l: "(n, key) \<in> set ?l \<longleftrightarrow> key \<in> set ?keys \<and> tier_of key = Some (base, n)" for n key
    by (simp only: set_sort set_tier_keys)
  have tp: "tier_price b base w = (case ?f of None \<Rightarrow> None | Some (_, key) \<Rightarrow> map_of (pb_entries b) key)"
    by (simp add: tier_price_def assms(2) index_tiers_lookup)
  show ?thesis
  proof (cases ?f)
    case None
    then have "\<not> n < unat w" if "key \<in> set ?keys" "tier_of key = Some (base, n)" for n key
      using that l [of n key] by (auto simp: find_None_iff)
    then show ?thesis using None unfolding tp by (fastforce simp: not_less)
  next
    case (Some nk)
    obtain n key where nk: "nk = (n, key)" by (cases nk)
    have best: "(n, key) \<in> set ?l \<and> n < unat w
        \<and> (\<forall>y \<in> set ?l. (\<lambda>(n, _). n < unat w) y \<longrightarrow> - int n \<le> (\<lambda>(n, _). - int n) y)"
      using find_sorted [of "\<lambda>(n, _). - int n" ?l, OF sorted_sort_key] Some nk by fastforce
    then have key: "key \<in> set ?keys" "tier_of key = Some (base, n)" "n < unat w" using l by blast+
    have top: "n' \<le> n" if "key' \<in> set ?keys" "tier_of key' = Some (base, n')" "n' < unat w" for n' key'
      using best that l [of n' key'] by force
    obtain p where p: "map_of (pb_entries b) key = Some p"
      using key(1) by (metis map_of_eq_None_iff not_None_eq set_map)
    then have is_p: "tier_price b base w = Some p" unfolding tp using Some nk by simp
    have e: "(key, p) \<in> set (pb_entries b)" using p by (rule map_of_SomeD)
    have "\<not> (\<forall>(key, _) \<in> set (pb_entries b). \<forall>n. tier_of key = Some (base, n) \<longrightarrow> unat w \<le> n)"
      using bspec [of "set (pb_entries b)" _ "(key, p)"] e key(2,3) by force
    moreover have "\<forall>(key', _) \<in> set (pb_entries b). \<forall>n'. tier_of key' = Some (base, n') \<and> n' < unat w \<longrightarrow> n' \<le> n"
      using top by force
    ultimately show ?thesis unfolding is_p using e key(2,3) by (simp only: option.inject option.distinct) blast
  qed
qed

lemma find_map_Some: "find_map f xs = Some y \<Longrightarrow> \<exists>x \<in> set xs. f x = Some y"
  by (induction xs) (auto split: option.splits)

lemma price_resolve_entry:
  assumes "price_resolve b p m w mode = Some price"
  shows "\<exists>k. (k, price) \<in> set (pb_entries b)"
  using assms
  by (auto simp: price_resolve_def resolve_exact_def tier_price_def Let_def
      dest!: find_map_Some map_of_SomeD split: option.splits prod.splits)

section \<open>The cost of a call\<close>

text \<open>A rate as the pricing door accepts it: finite and not negative.\<close>

definition rate_ok :: "f64 \<Rightarrow> bool" where
  "rate_ok x \<longleftrightarrow> is_finite x \<and> 0 \<le> x"

definition price_ok :: "model_price \<Rightarrow> bool" where
  "price_ok p \<longleftrightarrow> rate_ok (mp_input p) \<and> rate_ok (mp_output p)
     \<and> (case mp_cached_input p of None \<Rightarrow> True | Some c \<Rightarrow> rate_ok c)"

lemma f64_of_u64_Fin: "\<exists>v. f64_of_u64 w = Fin v \<and> 0 \<le> v"
proof -
  have rep: "representable (2 ^ 64)"
    unfolding representable_def by (intro exI [of _ 1] exI [of _ 64]) simp
  have "uint w \<le> 2 ^ 64" using uint_bounded [of w] by simp
  then have "(of_int (uint w) :: rat) \<le> of_int (2 ^ 64)" by (simp only: of_int_le_iff)
  then have "rnd (of_int (uint w)) \<le> Fin (2 ^ 64)" by (intro rnd_le_exact rep) simp
  moreover have "Fin 0 \<le> rnd (of_int (uint w))"
    by (rule rnd_nonneg) (simp only: of_int_0_le_iff uint_ge_0)
  ultimately show ?thesis by (cases "rnd (of_int (uint w))") (auto simp: f64_of_u64_def f64_of_int_def)
qed

definition part_cost :: "u64 \<Rightarrow> f64 \<Rightarrow> f64" where
  "part_cost w rate = f64_of_u64 w * rate / Fin 1000000"

lemma part_cost_nonneg: "rate_ok r \<Longrightarrow> Fin 0 \<le> part_cost w r"
proof -
  assume r: "rate_ok r"
  obtain v where v: "f64_of_u64 w = Fin v" "0 \<le> v" using f64_of_u64_Fin by blast
  have "Fin 0 \<le> f64_of_u64 w * r"
    using r v by (cases r) (auto simp: rate_ok_def intro!: rnd_nonneg)
  then have "Fin 0 / Fin 1000000 \<le> f64_of_u64 w * r / Fin 1000000" by (rule f64_div_mono [rotated]) simp
  then show ?thesis by (simp add: part_cost_def)
qed

lemma part_cost_mono: "rate_ok r \<Longrightarrow> w \<le> w' \<Longrightarrow> part_cost w r \<le> part_cost w' r"
proof -
  assume r: "rate_ok r" and le: "w \<le> w'"
  obtain v v' where v: "f64_of_u64 w = Fin v" "0 \<le> v" and v': "f64_of_u64 w' = Fin v'"
    using f64_of_u64_Fin by blast
  have "v \<le> v'" using f64_of_int_mono [of "uint w" "uint w'"] le v v'
    by (simp add: f64_of_u64_def word_le_def)
  then have "f64_of_u64 w * r \<le> f64_of_u64 w' * r"
    using r v v' by (cases r) (auto simp: rate_ok_def intro!: rnd_mono mult_right_mono)
  then show ?thesis unfolding part_cost_def by (rule f64_div_mono [rotated]) simp
qed

lemma cost_parts:
  "cost_usd_mode b pr m u mode =
    (if \<exists>c. tu_cached_input u = Some c \<and> tu_input u < c then None
     else map_option (\<lambda>p. part_cost (tu_input u - cached_tokens u) (mp_input p)
         + part_cost (tu_output u) (mp_output p)
         + part_cost (cached_tokens u) (case mp_cached_input p of Some c \<Rightarrow> c | None \<Rightarrow> mp_input p))
       (price_resolve b pr m (tu_input u) mode))"
  by (auto simp: cost_usd_mode_def billable_input_def check_subcounts_def part_cost_def Let_def
      split: option.splits)

lemma f64_add_mono_nonneg:
  "x \<le> x' \<Longrightarrow> y \<le> y' \<Longrightarrow> Fin 0 \<le> x \<Longrightarrow> Fin 0 \<le> y \<Longrightarrow> x + y \<le> (x' + y' :: f64)"
  by (rule f64_add_mono2) auto

lemma f64_nonneg_refl: "Fin 0 \<le> x \<Longrightarrow> x \<le> x"
  by (cases x) auto

lemma f64_sum_nonneg: "Fin 0 \<le> x \<Longrightarrow> Fin 0 \<le> y \<Longrightarrow> Fin 0 \<le> x + y"
  by (cases x; cases y) (auto intro: rnd_nonneg)

text \<open>
  What a call costs. Under rates the book accepts, a call is left unpriced exactly when its
  cached tokens exceed its prompt or no row of the book applies; every price it does get is a number,
  not negative, and does not fall when the completion grows, whatever the rounding.
\<close>

theorem cost_of_call:
  assumes "\<forall>(k, p) \<in> set (pb_entries b). price_ok p"
  shows "(cost_usd_mode b pr m u mode = None \<longleftrightarrow>
        (\<exists>c. tu_cached_input u = Some c \<and> tu_input u < c) \<or> price_resolve b pr m (tu_input u) mode = None)
    \<and> (\<forall>c. cost_usd_mode b pr m u mode = Some c \<longrightarrow> 0 \<le> c \<and> c \<noteq> NaN
        \<and> (\<forall>w. tu_output u \<le> w \<longrightarrow>
            (\<exists>d. cost_usd_mode b pr m (u\<lparr>tu_output := w\<rparr>) mode = Some d \<and> c \<le> d)))"
proof -
  have more: "0 \<le> c \<and> c \<noteq> NaN \<and> (\<exists>d. cost_usd_mode b pr m (u\<lparr>tu_output := w\<rparr>) mode = Some d \<and> c \<le> d)"
    if c: "cost_usd_mode b pr m u mode = Some c" and w: "tu_output u \<le> w" for c w
  proof -
    obtain p where p: "price_resolve b pr m (tu_input u) mode = Some p"
      and counts: "\<not> (\<exists>c. tu_cached_input u = Some c \<and> tu_input u < c)"
      using c by (auto simp: cost_parts split: if_splits)
    obtain k where "(k, p) \<in> set (pb_entries b)" using price_resolve_entry [OF p] by blast
    then have ok: "price_ok p" using assms by auto
    let ?x = "part_cost (tu_input u - cached_tokens u) (mp_input p)"
    let ?y = "\<lambda>w. part_cost w (mp_output p)"
    let ?z = "part_cost (cached_tokens u) (case mp_cached_input p of Some c \<Rightarrow> c | None \<Rightarrow> mp_input p)"
    have pos: "Fin 0 \<le> ?x" "Fin 0 \<le> ?y w" "Fin 0 \<le> ?z" for w
      using ok by (auto simp: price_ok_def intro!: part_cost_nonneg split: option.splits)
    have c': "c = ?x + ?y (tu_output u) + ?z" using c counts p by (simp add: cost_parts)
    have y: "?y (tu_output u) \<le> ?y w" using part_cost_mono [OF _ w] ok by (simp add: price_ok_def)
    have xy: "?x + ?y (tu_output u) \<le> ?x + ?y w"
      by (rule f64_add_mono_nonneg [OF f64_nonneg_refl [OF pos(1)] y pos(1) pos(2)])
    have "c \<le> ?x + ?y w + ?z" unfolding c'
      by (rule f64_add_mono_nonneg [OF xy f64_nonneg_refl [OF pos(3)] f64_sum_nonneg [OF pos(1,2)] pos(3)])
    moreover have "cost_usd_mode b pr m (u\<lparr>tu_output := w\<rparr>) mode = Some (?x + ?y w + ?z)"
      using counts p by (simp add: cost_parts cached_tokens_def)
    moreover have "Fin 0 \<le> c" unfolding c' by (intro f64_sum_nonneg pos)
    moreover from this have "c \<noteq> NaN" by auto
    ultimately show ?thesis by simp
  qed
  have "cost_usd_mode b pr m u mode = None \<longleftrightarrow>
      (\<exists>c. tu_cached_input u = Some c \<and> tu_input u < c) \<or> price_resolve b pr m (tu_input u) mode = None"
    by (auto simp: cost_parts)
  moreover have "\<forall>c. cost_usd_mode b pr m u mode = Some c \<longrightarrow> 0 \<le> c \<and> c \<noteq> NaN
        \<and> (\<forall>w. tu_output u \<le> w \<longrightarrow>
            (\<exists>d. cost_usd_mode b pr m (u\<lparr>tu_output := w\<rparr>) mode = Some d \<and> c \<le> d))"
    using more [OF _ order_refl] more by metis
  ultimately show ?thesis by (rule conjI)
qed

section \<open>Releases\<close>

lemma find_map_push:
  "find_map f (push_candidate out p m) = (case find_map f out of Some y \<Rightarrow> Some y | None \<Rightarrow> f (p, m))"
proof -
  have none: "find_map f xs = None \<Longrightarrow> x \<in> set xs \<Longrightarrow> f x = None" for xs x
    by (induction xs) (auto split: option.splits)
  have "find_map f (xs @ [x]) = (case find_map f xs of Some y \<Rightarrow> Some y | None \<Rightarrow> f x)" for xs x
    by (induction xs) (auto split: option.splits)
  then show ?thesis using none [of out "(p, m)"] by (auto simp: push_candidate_def split: option.splits)
qed

lemma canonicalize_bare:
  assumes "list_all canon_char v" "provider_id pr = pr" "\<not> provider_is_unknown pr"
  shows "canonicalize pr v = \<lparr>mi_provider = synonym pr, mi_family = fst (split_date_suffix v),
     mi_variant = snd (split_date_suffix v), mi_lane = None\<rparr>"
proof -
  have "split_once (CHR ''/'') v = None" "split_once (CHR ''@'') v = None"
    using canon_no [OF assms(1)] by (simp_all add: str_simps)
  then show ?thesis
    by (simp add: canonicalize_def trim_no_space canon_no_space canon_keeps assms model_prefix_def
        split_lane_def case_prod_beta Let_def)
qed

text \<open>
  A dated release costs what its family costs. For a provider under its own name and a model in
  canonical letters, a release the book neither prices nor aliases by its dated name is priced by the
  row of the undated name, at every prompt length and in every lane.
\<close>

theorem release_priced_as_family:
  assumes "list_all canon_char v" and "split_date_suffix v = (v, None)"
    and "list_all canon_char date" and "split_date_suffix (v @ ''-'' @ date) = (v, Some date)"
    and "provider_id pr = pr" and "\<not> provider_is_unknown pr" and "synonym pr = pr"
    and "alias_resolve (pb_aliases b) pr (v @ ''-'' @ date) = None"
    and "resolve_exact b pr (v @ ''-'' @ date) w mode = None"
  shows "price_resolve b pr (v @ ''-'' @ date) w mode = price_resolve b pr v w mode"
proof -
  define d where "d = v @ ''-'' @ date"
  note own = assms(4,8,9) [folded d_def]
  have "list_all canon_char d"
    using assms(1,3) by (simp add: d_def canon_char_def id_char_def lower_char_def)
  then have cd: "canonicalize pr d = \<lparr>mi_provider = pr, mi_family = v, mi_variant = Some date, mi_lane = None\<rparr>"
    using canonicalize_bare [OF _ assms(5,6), of d] own(1) assms(7) by simp
  have cv: "canonicalize pr v = \<lparr>mi_provider = pr, mi_family = v, mi_variant = None, mi_lane = None\<rparr>"
    using canonicalize_bare [OF assms(1,5,6)] assms(2,7) by simp
  have "dated (canonicalize pr d) = d" unfolding cd by (simp add: dated_def d_def)
  then have al: "mi_provider (with_aliases (pb_aliases b) (canonicalize pr d)) = pr"
    "mi_provider (with_aliases (pb_aliases b) (canonicalize pr v)) = pr"
    "mi_family (with_aliases (pb_aliases b) (canonicalize pr d))
      = mi_family (with_aliases (pb_aliases b) (canonicalize pr v))"
    using own(2) by (auto simp: with_aliases_def cd cv split: option.splits)
  let ?f = "\<lambda>(p, m). resolve_exact b p m w mode"
  have "find_map ?f (candidates b pr d) = find_map ?f (candidates b pr v)"
    unfolding candidates_def Let_def al
    by (simp add: cd cv own(3) find_map_push split: option.splits)
  then have "price_resolve b pr d w mode = price_resolve b pr v w mode"
    by (cases mode) (simp_all add: price_resolve_def cd cv)
  then show ?thesis by (simp only: d_def)
qed

text \<open>
  Under a synonym of the provider's name that fails: a row written for \<^verbatim>\<open>azure/gpt-4o\<close> prices
  \<^verbatim>\<open>gpt-4o\<close> there, but a dated release of it is charged the \<^verbatim>\<open>openai\<close> rate.
\<close>

definition flat_price :: "f64 \<Rightarrow> model_price" where
  "flat_price x = \<lparr>mp_input = x, mp_output = x, mp_cached_input = None, mp_aliases = []\<rparr>"

definition azure_book :: price_book where
  "azure_book = \<lparr>pb_entries = [(''azure/gpt-4o'', flat_price 1), (''openai/gpt-4o'', flat_price (Fin 2))],
     pb_tiers = [], pb_aliases = [], pb_verified_at = None\<rparr>"

lemma azure_candidates:
  "candidates azure_book ''azure'' ''gpt-4o'' = [(''azure'', ''gpt-4o''), (''openai'', ''gpt-4o'')]"
  "candidates azure_book ''azure'' ''gpt-4o-2024-08-06''
     = [(''azure'', ''gpt-4o-2024-08-06''), (''openai'', ''gpt-4o'')]"
  "mi_lane (canonicalize ''azure'' ''gpt-4o'') = None"
  "mi_lane (canonicalize ''azure'' ''gpt-4o-2024-08-06'') = None"
  by code_simp+

lemma synonym_release_misses_own_row:
  "price_resolve azure_book ''azure'' ''gpt-4o'' 100 PmStandard = Some (flat_price 1)"
  "price_resolve azure_book ''azure'' ''gpt-4o-2024-08-06'' 100 PmStandard = Some (flat_price (Fin 2))"
  unfolding price_resolve_def azure_candidates Let_def
  by (simp_all add: resolve_exact_def tier_price_def price_key_def azure_book_def)

section \<open>Witnesses\<close>

definition sample_price_row :: "f64 \<Rightarrow> instant \<Rightarrow> model_price_row" where
  "sample_price_row x t = \<lparr>pr_provider = ''openai'', pr_model = ''gpt-4o'', pr_input = x, pr_output = x,
     pr_cached_input = None, pr_effective_from = t, pr_verified_at = None\<rparr>"

definition sample_price_rows :: "model_price_row list" where
  "sample_price_rows = [sample_price_row 1 0, sample_price_row (Fin 2) 100]"

lemma book_charges_rate_in_force_witness:
  "map_of (pb_entries (from_rows_at sample_price_rows 50)) (price_key ''openai'' ''gpt-4o'') = Some (flat_price 1)"
proof -
  let ?k = "price_key ''openai'' ''gpt-4o''"
  have "sample_price_row 1 0 \<in> set sample_price_rows \<and> row_price_key (sample_price_row 1 0) = ?k
      \<and> pr_effective_from (sample_price_row 1 0) \<le> 50"
    by (simp add: sample_price_rows_def sample_price_row_def row_price_key_def)
  then have "map_of (pb_entries (from_rows_at sample_price_rows 50)) ?k \<noteq> None"
    using book_charges_rate_in_force [of sample_price_rows 50 ?k] by blast
  moreover have "r = sample_price_row 1 0" if "r \<in> set sample_price_rows" "pr_effective_from r \<le> 50" for r
    using that by (auto simp: sample_price_rows_def sample_price_row_def)
  moreover have "price_of_row (sample_price_row 1 0) = flat_price 1"
    by (simp add: price_of_row_def flat_price_def sample_price_row_def)
  ultimately show ?thesis
    using book_charges_rate_in_force [of sample_price_rows 50 ?k] by (metis option.exhaust)
qed

lemma current_rows_same_book_witness:
  "map_of (pb_entries (from_rows_at (current_rows sample_price_rows 50) 50)) ''openai/gpt-4o''
     = map_of (pb_entries (from_rows_at sample_price_rows 50)) ''openai/gpt-4o''"
  by (rule current_rows_same_book) (simp add: sample_price_rows_def sample_price_row_def)

definition tiered_book :: price_book where
  "tiered_book = price_book_new
     [(''g/pro@in>200'', flat_price (Fin 2)), (''g/pro'', flat_price 1),
      (''g/pro@in>1000'', flat_price (Fin 4))]"

lemma tiered_keys:
  "tier_of ''g/pro@in>200'' = Some (''g/pro'', 200)"
  "tier_of ''g/pro@in>1000'' = Some (''g/pro'', 1000)"
  "tier_of ''g/pro'' = None"
  by (simp_all add: tier_of_def starts_with_def parse_u64_def is_digit_def digits_value_def)

lemma tier_index_is_scan_witness: "tier_price tiered_book ''g/pro'' 500 = Some (flat_price (Fin 2))"
proof -
  have "hm_wf (pb_entries tiered_book)" "pb_tiers tiered_book = index_tiers (pb_entries tiered_book)"
    by (simp_all add: tiered_book_def price_book_new_def)
  note scan = tier_index_is_scan [OF this, of "''g/pro''" 500]
  have "\<not> tier_price tiered_book ''g/pro'' 500 = None"
    using scan by (simp add: tiered_book_def price_book_new_def tiered_keys)
  then obtain p where p: "tier_price tiered_book ''g/pro'' 500 = Some p" by blast
  with scan have "p = flat_price (Fin 2)"
    by (auto simp: tiered_book_def price_book_new_def tiered_keys)
  with p show ?thesis by simp
qed

lemma flat_price_ok: "price_ok (flat_price (Fin x)) \<longleftrightarrow> 0 \<le> x"
  by (simp add: price_ok_def rate_ok_def flat_price_def)

lemma cost_of_call_witness:
  "cost_usd_mode tiered_book ''g'' ''pro'' \<lparr>tu_input = 4, tu_output = 1, tu_cached_input = Some 5, tu_reasoning = None\<rparr> PmStandard = None"
  using cost_of_call [of tiered_book "''g''" "''pro''"
      "\<lparr>tu_input = 4, tu_output = 1, tu_cached_input = Some 5, tu_reasoning = None\<rparr>" PmStandard]
  by (auto simp: tiered_book_def price_book_new_def flat_price_ok)

lemma release_priced_as_family_witness:
  "price_resolve azure_book ''openai'' ''gpt-4o-2024-08-06'' 5 PmBatch
   = price_resolve azure_book ''openai'' ''gpt-4o'' 5 PmBatch"
proof -
  have "price_resolve azure_book ''openai'' (''gpt-4o'' @ ''-'' @ ''2024-08-06'') 5 PmBatch
      = price_resolve azure_book ''openai'' ''gpt-4o'' 5 PmBatch"
  proof (rule release_priced_as_family)
    show "provider_id ''openai'' = ''openai''" "\<not> provider_is_unknown ''openai''" "synonym ''openai'' = ''openai''"
      by code_simp+
  qed (simp_all add: canon_char_def id_char_def is_ascii_alnum_def is_digit_def lower_char_def
      split_date_suffix_def all_digits_def ProviderModel.slice_def azure_book_def alias_resolve_def
      resolve_exact_def tier_price_def price_key_def)
  then show ?thesis by simp
qed

end
