(* ===== verification/PriceFill.thy ===== *)
theory PriceFill
  imports UsageCache PriceBook
begin

text \<open>
  The forward fill of \<^verbatim>\<open>crates/store/src/pricing.rs\<close> and \<^verbatim>\<open>sqlite/price_fill.rs\<close>: rows stored
  without a price get one from the book, a page per transaction, labelled as filled. The candidates
  of a page are read in rowid order, as no index leads with the provider; a transaction that fails is
  an I/O error and not modelled.
\<close>

section \<open>The fill\<close>

definition FILL_SOURCE :: string where
  "FILL_SOURCE = ''book_fill''"

text \<open>\<open>pf_priced_at\<close> is the text \<^verbatim>\<open>fmt_ts\<close> gives the instant of the fill.\<close>

record price_fill =
  pf_provider :: string
  pf_model :: string
  pf_book :: price_book
  pf_priced_at :: string
  pf_page :: nat

definition DEFAULT_FILL_PAGE :: nat where
  "DEFAULT_FILL_PAGE = 500"

definition price_fill_new :: "string \<Rightarrow> string \<Rightarrow> price_book \<Rightarrow> string \<Rightarrow> price_fill" where
  "price_fill_new provider model book now = \<lparr>pf_provider = provider, pf_model = model, pf_book = book,
     pf_priced_at = now, pf_page = DEFAULT_FILL_PAGE\<rparr>"

definition cost_for :: "price_fill \<Rightarrow> token_usage \<Rightarrow> pricing_mode \<Rightarrow> f64 option" where
  "cost_for f usage mode = cost_usd_mode (pf_book f) (pf_provider f) (pf_model f) usage mode"

definition fill_stamp :: "price_fill \<Rightarrow> metadata \<Rightarrow> metadata" where
  "fill_stamp f md =
     (let m = (case md of MdObject m \<Rightarrow> m | _ \<Rightarrow> [])
      in MdObject (AList.update ''priced_at'' (MvText (pf_priced_at f))
           (AList.update ''cost_source'' (MvText FILL_SOURCE) m)))"

record candidate =
  ca_id :: string
  ca_usage :: token_usage
  ca_tags :: "string list"
  ca_metadata :: metadata

definition clamp_u64 :: "int \<Rightarrow> u64" where
  "clamp_u64 k = word_of_int (max k 0)"

definition candidate_of :: "event_row \<Rightarrow> candidate" where
  "candidate_of r = \<lparr>ca_id = er_id r,
     ca_usage = \<lparr>tu_input = clamp_u64 (er_input r), tu_output = clamp_u64 (er_output r),
       tu_cached_input = map_option clamp_u64 (er_cached_input r),
       tu_reasoning = map_option clamp_u64 (er_reasoning r)\<rparr>,
     ca_tags = er_tags r, ca_metadata = er_metadata r\<rparr>"

definition unpriced_for :: "price_fill \<Rightarrow> event_row \<Rightarrow> bool" where
  "unpriced_for f r \<longleftrightarrow> er_cost_usd r = None \<and> er_provider r = pf_provider f \<and> er_model r = pf_model f"

definition fill_candidates :: "event_row list \<Rightarrow> price_fill \<Rightarrow> nat \<Rightarrow> candidate list" where
  "fill_candidates t f page = map candidate_of (take page (filter (unpriced_for f) t))"

fun write_page :: "event_row list \<Rightarrow> price_fill \<Rightarrow> candidate list \<Rightarrow> nat \<Rightarrow> event_row list \<times> nat" where
  "write_page t f [] wrote = (t, wrote)"
| "write_page t f (c # batch) wrote =
     (case cost_for f (ca_usage c) (pricing_mode_from_hints (ca_metadata c) (ca_tags c)) of
        None \<Rightarrow> write_page t f batch wrote
      | Some cost \<Rightarrow>
          (let sel = (\<lambda>r. er_id r = ca_id c \<and> er_cost_usd r = None)
           in write_page
                (update_where sel (\<lambda>r. r\<lparr>er_cost_usd := Some cost, er_metadata := fill_stamp f (ca_metadata c)\<rparr>) t)
                f batch (wrote + length (filter sel t))))"

definition null_rows :: "event_row list \<Rightarrow> nat" where
  "null_rows t = length (filter (\<lambda>r. er_cost_usd r = None) t)"

text \<open>What a page writes is priced from then on.\<close>

lemma null_rows_update:
  "null_rows (update_where (\<lambda>r. P r \<and> er_cost_usd r = None) (\<lambda>r. r\<lparr>er_cost_usd := Some c, er_metadata := m\<rparr>) t)
    + length (filter (\<lambda>r. P r \<and> er_cost_usd r = None) t) = null_rows t"
  by (induction t) (auto simp: null_rows_def table_simps)

lemma write_page_count: "write_page t f batch w = (t', w') \<Longrightarrow> null_rows t' + w' = null_rows t + w"
proof (induction t f batch w rule: write_page.induct)
  case (2 t f c batch wrote)
  show ?case
  proof (cases "cost_for f (ca_usage c) (pricing_mode_from_hints (ca_metadata c) (ca_tags c))")
    case None
    then show ?thesis using 2 by simp
  next
    case (Some cost)
    then show ?thesis
      using 2(2) [OF Some refl] 2(3)
        null_rows_update [where P = "\<lambda>r. er_id r = ca_id c" and c = cost and m = "fill_stamp f (ca_metadata c)" and t = t]
      by (simp add: Let_def)
  qed
qed simp

text \<open>The loop ends: every page that is followed by another has priced a row.\<close>

function fill_loop :: "price_fill \<Rightarrow> nat \<Rightarrow> event_row list \<Rightarrow> nat \<Rightarrow> event_row list \<times> nat" where
  "fill_loop f page t filled =
     (let batch = fill_candidates t f page in
      if batch = [] then (t, filled)
      else
        (let (t', wrote) = write_page t f batch 0 in
         if wrote = 0 \<or> length batch < page then (t', filled + wrote)
         else fill_loop f page t' (filled + wrote)))"
  by pat_completeness auto

termination
proof (relation "measure (\<lambda>(f, page, t, filled). null_rows t)")
  fix f page t filled batch p t' wrote
  assume "batch = fill_candidates t f page" "p = write_page t f batch 0" "(t', wrote) = p"
    "\<not> (wrote = 0 \<or> length batch < page)"
  then show "((f, page, t', filled + wrote), f, page, t, filled) \<in> measure (\<lambda>(f, page, t, filled). null_rows t)"
    using write_page_count [of t f batch 0 t' wrote] by simp
qed simp

declare fill_loop.simps [simp del]

definition price_fill_run :: "event_row list \<Rightarrow> price_fill \<Rightarrow> event_row list \<times> nat" where
  "price_fill_run t f = fill_loop f (max (pf_page f) 1) t 0"

section \<open>What a fill does to the table\<close>

definition row_cost :: "price_fill \<Rightarrow> event_row \<Rightarrow> f64 option" where
  "row_cost f r = cost_for f (ca_usage (candidate_of r)) (pricing_mode_from_hints (er_metadata r) (er_tags r))"

definition filled_row :: "price_fill \<Rightarrow> event_row \<Rightarrow> event_row" where
  "filled_row f r = (case row_cost f r of
     Some c \<Rightarrow> r\<lparr>er_cost_usd := Some c, er_metadata := fill_stamp f (er_metadata r)\<rparr> | None \<Rightarrow> r)"

lemma filled_row_simps [simp]:
  "er_id (filled_row f r) = er_id r" "er_rowid (filled_row f r) = er_rowid r"
  "row_cost f r = Some c \<Longrightarrow> \<not> unpriced_for f (filled_row f r)"
  by (auto simp: filled_row_def unpriced_for_def split: option.splits)

lemma filled_row_None: "row_cost f r = None \<Longrightarrow> filled_row f r = r"
  by (simp add: filled_row_def)

lemma write_page_rows:
  assumes "distinct (map er_id t)" and "distinct rs" and "set rs \<subseteq> set t"
    and "\<forall>r \<in> set rs. er_cost_usd r = None"
  shows "write_page t f (map candidate_of rs) w =
    (map (\<lambda>r. if r \<in> set rs then filled_row f r else r) t, w + length (filter (\<lambda>r. row_cost f r \<noteq> None) rs))"
  using assms
proof (induction rs arbitrary: t w)
  case Nil
  then show ?case by simp
next
  case (Cons r rs)
  have r: "r \<in> set t" "er_cost_usd r = None" "r \<notin> set rs" using Cons.prems by auto
  have own: "x = r" if "x \<in> set t" "er_id x = er_id r" for x
    using Cons.prems(1) r(1) that by (auto simp: distinct_map inj_on_def)
  show ?case
  proof (cases "row_cost f r")
    case None
    have "filled_row f r = r" using None by (simp add: filled_row_def)
    then have "map (\<lambda>x. if x \<in> set (r # rs) then filled_row f x else x) t
        = map (\<lambda>x. if x \<in> set rs then filled_row f x else x) t" by auto
    then show ?thesis using None Cons.IH [of t w] Cons.prems
      by (simp add: row_cost_def candidate_of_def)
  next
    case (Some c)
    let ?sel = "\<lambda>x. er_id x = er_id r \<and> er_cost_usd x = None"
    let ?g = "\<lambda>x. x\<lparr>er_cost_usd := Some c, er_metadata := fill_stamp f (er_metadata r)\<rparr>"
    let ?t = "map (\<lambda>x. if x = r then filled_row f x else x) t"
    have upd: "update_where ?sel ?g t = ?t"
      unfolding update_where_def using own r Some by (auto simp: filled_row_def)
    have "filter ?sel t = filter (\<lambda>x. x = r) t" using own r by (auto intro: filter_cong)
    moreover have "length (filter (\<lambda>x. x = r) t) = 1"
      using Cons.prems(1) r(1) by (simp add: distinct_map distinct_length_filter Int_insert_left flip: Collect_conv_if)
    ultimately have one: "length (filter ?sel t) = 1" by simp
    have "map er_id ?t = map er_id t" by simp
    then have ids: "distinct (map er_id ?t)" using Cons.prems(1) by (simp only:)
    have sub: "set rs \<subseteq> set ?t" using Cons.prems(3) r(3) by force
    have "write_page t f (map candidate_of (r # rs)) w = write_page ?t f (map candidate_of rs) (w + 1)"
      using Some one by (simp add: row_cost_def candidate_of_def flip: upd)
    also have "\<dots> = (map (\<lambda>x. if x \<in> set rs then filled_row f x else x) ?t,
        w + 1 + length (filter (\<lambda>r. row_cost f r \<noteq> None) rs))"
      by (rule Cons.IH [OF ids _ sub]) (use Cons.prems in simp_all)
    also have "map (\<lambda>x. if x \<in> set rs then filled_row f x else x) ?t
        = map (\<lambda>x. if x \<in> set (r # rs) then filled_row f x else x) t"
    proof -
      have "filled_row f r \<notin> set rs" using Cons.prems(4) Some by (auto simp: filled_row_def)
      then show ?thesis by auto
    qed
    finally show ?thesis using Some by simp
  qed
qed

text \<open>A page picks the first rows still unpriced, so what it writes is again a row by row change.\<close>

lemma page_rows:
  assumes "distinct (map er_id t)" and "write_page t f (fill_candidates t f page) 0 = (t', wrote)"
  defines "rs \<equiv> take page (filter (unpriced_for f) t)"
  shows "t' = map (\<lambda>r. if r \<in> set rs then filled_row f r else r) t"
    and "wrote = length (filter (\<lambda>r. row_cost f r \<noteq> None) rs)"
    and "\<forall>r \<in> set rs. unpriced_for f r"
proof -
  have sub: "set rs \<subseteq> set (filter (unpriced_for f) t)" unfolding rs_def by (rule set_take_subset)
  have "distinct t" using assms(1) by (simp add: distinct_map)
  then have "distinct rs" by (simp add: rs_def)
  moreover have "set rs \<subseteq> set t" "\<forall>r \<in> set rs. er_cost_usd r = None"
    using sub by (auto simp: unpriced_for_def)
  ultimately have "write_page t f (map candidate_of rs) 0 = (map (\<lambda>r. if r \<in> set rs then filled_row f r else r) t,
      0 + length (filter (\<lambda>r. row_cost f r \<noteq> None) rs))"
    by (rule write_page_rows [OF assms(1)])
  then have "(t', wrote) = (map (\<lambda>r. if r \<in> set rs then filled_row f r else r) t,
      0 + length (filter (\<lambda>r. row_cost f r \<noteq> None) rs))"
    using assms(2) by (simp only: fill_candidates_def flip: rs_def)
  then show "t' = map (\<lambda>r. if r \<in> set rs then filled_row f r else r) t"
    "wrote = length (filter (\<lambda>r. row_cost f r \<noteq> None) rs)" by simp_all
  show "\<forall>r \<in> set rs. unpriced_for f r" using sub by auto
qed

text \<open>A row a fill may leave behind: itself, or, if it was an unpriced row of the key, its filled form.\<close>

definition fill_of :: "price_fill \<Rightarrow> event_row \<Rightarrow> event_row \<Rightarrow> bool" where
  "fill_of f r r' \<longleftrightarrow> r' = r \<or> (unpriced_for f r \<and> row_cost f r \<noteq> None \<and> r' = filled_row f r)"

lemma fill_of_trans: "fill_of f r r' \<Longrightarrow> fill_of f r' r'' \<Longrightarrow> fill_of f r r''"
  by (auto simp: fill_of_def)

lemma fill_of_id: "fill_of f r r' \<Longrightarrow> er_id r' = er_id r \<and> er_rowid r' = er_rowid r"
  by (auto simp: fill_of_def)

lemma ids_all2: "list_all2 (fill_of f) t t' \<Longrightarrow> map er_id t' = map er_id t"
  by (induction rule: list_all2_induct) (auto dest: fill_of_id)

lemma page_fill_of:
  assumes "distinct (map er_id t)" and "write_page t f (fill_candidates t f page) 0 = (t', wrote)"
  shows "list_all2 (fill_of f) t t'"
proof -
  let ?rs = "take page (filter (unpriced_for f) t)"
  have "fill_of f r (if r \<in> S then filled_row f r else r)" if "\<forall>r \<in> S. unpriced_for f r" for r S
    using that filled_row_None [of f r] unfolding fill_of_def by (cases "row_cost f r") auto
  from this [OF page_rows(3) [OF assms]]
  have "list_all2 (fill_of f) t (map (\<lambda>r. if r \<in> set ?rs then filled_row f r else r) t)"
    by (simp only: list.rel_map list.rel_refl)
  then show ?thesis by (simp only: page_rows(1) [OF assms])
qed

lemma fill_loop_rows:
  assumes "distinct (map er_id t)" and "fill_loop f page t n = (t', n')"
  shows "list_all2 (fill_of f) t t' \<and> null_rows t' + n' = null_rows t + n"
  using assms
proof (induction f page t n arbitrary: t' n' rule: fill_loop.induct)
  case (1 f page t filled)
  obtain t1 wrote where w: "write_page t f (fill_candidates t f page) 0 = (t1, wrote)"
    by (cases "write_page t f (fill_candidates t f page) 0")
  note cnt = write_page_count [OF w] and step = page_fill_of [OF "1.prems"(1) w]
  show ?case
  proof (cases "fill_candidates t f page = []")
    case True
    then show ?thesis using "1.prems"(2)
      by (subst (asm) fill_loop.simps) (auto simp: Let_def fill_of_def intro: list_all2_refl)
  next
    case more: False
    show ?thesis
    proof (cases "wrote = 0 \<or> length (fill_candidates t f page) < page")
      case True
      then have "t' = t1" "n' = filled + wrote"
        using "1.prems"(2) more w by (subst (asm) fill_loop.simps, force simp: Let_def)+
      then show ?thesis using step cnt by simp
    next
      case False
      have "fill_loop f page t1 (filled + wrote) = (t', n')"
        using "1.prems"(2) more w False by (subst (asm) fill_loop.simps) (simp add: Let_def)
      moreover have "distinct (map er_id t1)" using ids_all2 [OF step] "1.prems"(1) by simp
      ultimately have "list_all2 (fill_of f) t1 t' \<and> null_rows t' + n' = null_rows t1 + (filled + wrote)"
        using "1.IH" [OF refl more w [symmetric] refl False] by blast
      then show ?thesis
        using list_all2_trans [of "fill_of f" "fill_of f" "fill_of f", OF fill_of_trans step] cnt by auto
    qed
  qed
qed

text \<open>
  C27: a fill closes gaps and nothing else. It returns for every table; each row is either untouched or
  was unpriced under exactly the provider and model of the fill and now carries the price of its own
  counts and lane and the label of a filled row, its other metadata kept; and the number reported is
  the number of rows priced.
\<close>

theorem fill_prices_only_gaps:
  assumes "distinct (map er_id t)" and "price_fill_run t f = (t', n)"
  shows "list_all2 (\<lambda>r r'. r' = r \<or> (unpriced_for f r
      \<and> (\<exists>c. row_cost f r = Some c \<and> er_cost_usd r' = Some c)
      \<and> r'\<lparr>er_cost_usd := er_cost_usd r, er_metadata := er_metadata r\<rparr> = r
      \<and> meta_str (er_metadata r') ''cost_source'' = Some ''book_fill''
      \<and> (\<forall>k. k \<notin> {''cost_source'', ''priced_at''} \<longrightarrow>
            meta_get (er_metadata r') k = meta_get (er_metadata r) k))) t t'
    \<and> null_rows t' + n = null_rows t"
proof -
  have all: "list_all2 (fill_of f) t t'" "null_rows t' + n = null_rows t"
    using fill_loop_rows [OF assms(1), of f "max (pf_page f) 1" 0] assms(2)
    by (auto simp: price_fill_run_def)
  have keys: "meta_str (fill_stamp f md) ''cost_source'' = Some ''book_fill''"
    "k \<notin> {''cost_source'', ''priced_at''} \<Longrightarrow> meta_get (fill_stamp f md) k = meta_get md k" for md k
    by (cases md; simp add: fill_stamp_def meta_str_def FILL_SOURCE_def Let_def)+
  have "r' = r \<or> (unpriced_for f r
      \<and> (\<exists>c. row_cost f r = Some c \<and> er_cost_usd r' = Some c)
      \<and> r'\<lparr>er_cost_usd := er_cost_usd r, er_metadata := er_metadata r\<rparr> = r
      \<and> meta_str (er_metadata r') ''cost_source'' = Some ''book_fill''
      \<and> (\<forall>k. k \<notin> {''cost_source'', ''priced_at''} \<longrightarrow>
            meta_get (er_metadata r') k = meta_get (er_metadata r) k))" if "fill_of f r r'" for r r'
    using that keys by (auto simp: fill_of_def filled_row_def)
  then show ?thesis using list_all2_mono [OF all(1)] all(2) by simp
qed

definition fill_all :: "price_fill \<Rightarrow> event_row list \<Rightarrow> event_row list" where
  "fill_all f t = map (\<lambda>r. if unpriced_for f r then filled_row f r else r) t"

lemma priced_afterwards: "row_cost f r \<noteq> None \<Longrightarrow> \<not> unpriced_for f (filled_row f r)"
  by auto

lemma fill_all_null:
  assumes "\<forall>r \<in> set t. unpriced_for f r \<longrightarrow> row_cost f r \<noteq> None"
  shows "null_rows (fill_all f t) + length (filter (unpriced_for f) t) = null_rows t"
  using assms
proof (induction t)
  case (Cons r t)
  have "unpriced_for f r \<Longrightarrow> row_cost f r \<noteq> None
      \<Longrightarrow> er_cost_usd r = None \<and> er_cost_usd (filled_row f r) \<noteq> None"
    by (auto simp: unpriced_for_def filled_row_def)
  with Cons show ?case by (auto simp: fill_all_def null_rows_def)
qed (simp add: fill_all_def null_rows_def)

lemma fill_again:
  assumes "\<forall>r \<in> S. unpriced_for f r \<and> row_cost f r \<noteq> None"
  shows "(let r' = (if r \<in> S then filled_row f r else r)
      in if unpriced_for f r' then filled_row f r' else r') = (if unpriced_for f r then filled_row f r else r)"
  using assms by (cases "r \<in> S") (auto simp: Let_def)

lemma fill_loop_all:
  assumes "distinct (map er_id t)" and "0 < page"
    and "\<forall>r \<in> set t. unpriced_for f r \<longrightarrow> row_cost f r \<noteq> None"
  shows "fst (fill_loop f page t n) = fill_all f t"
  using assms
proof (induction f page t n rule: fill_loop.induct)
  case (1 f page t filled)
  let ?rs = "take page (filter (unpriced_for f) t)"
  obtain t1 wrote where w: "write_page t f (fill_candidates t f page) 0 = (t1, wrote)"
    by (cases "write_page t f (fill_candidates t f page) 0")
  note rows = page_rows [OF "1.prems"(1) w]
  have sub: "set ?rs \<subseteq> set t" by (meson order_trans filter_is_subset set_take_subset)
  have priceable: "\<forall>r \<in> set ?rs. row_cost f r \<noteq> None" using rows(3) sub "1.prems"(3) by blast
  then have wrote: "wrote = length ?rs" using rows(2) by (simp only: filter_True)
  show ?case
  proof (cases "fill_candidates t f page = []")
    case True
    then have "filter (unpriced_for f) t = []" using "1.prems"(2) by (simp add: fill_candidates_def)
    then have "fill_all f t = t" by (auto simp: fill_all_def filter_empty_conv intro: map_idI)
    then show ?thesis using True by (subst fill_loop.simps) (simp add: Let_def)
  next
    case more: False
    then have "wrote \<noteq> 0" using wrote by (simp add: fill_candidates_def)
    show ?thesis
    proof (cases "length (fill_candidates t f page) < page")
      case True
      then have all: "set ?rs = {r \<in> set t. unpriced_for f r}" by (simp add: fill_candidates_def)
      have "t1 = fill_all f t" unfolding rows(1) fill_all_def all by simp
      then show ?thesis using more w True by (subst fill_loop.simps) (simp add: Let_def)
    next
      case False
      have stop: "\<not> (wrote = 0 \<or> length (fill_candidates t f page) < page)" using \<open>wrote \<noteq> 0\<close> False by simp
      have fixed: "r \<in> set ?rs \<Longrightarrow> \<not> unpriced_for f (filled_row f r)" for r
        using priceable priced_afterwards by blast
      have "distinct (map er_id t1)"
        using ids_all2 [OF page_fill_of [OF "1.prems"(1) w]] "1.prems"(1) by simp
      moreover have "\<forall>r \<in> set t1. unpriced_for f r \<longrightarrow> row_cost f r \<noteq> None"
        using "1.prems"(3) fixed unfolding rows(1) by fastforce
      ultimately have "fst (fill_loop f page t1 (filled + wrote)) = fill_all f t1"
        using "1.IH" [OF refl more w [symmetric] refl stop] "1.prems"(2) by blast
      moreover have "fill_all f t1 = fill_all f t"
      proof -
        have "\<forall>r \<in> set ?rs. unpriced_for f r \<and> row_cost f r \<noteq> None" using rows(3) priceable by blast
        note fill_again [OF this]
        then show ?thesis unfolding rows(1) fill_all_def Let_def by (simp only: map_map comp_def)
      qed
      ultimately show ?thesis using more w stop by (subst fill_loop.simps) (simp add: Let_def)
    qed
  qed
qed

text \<open>
  A fill is complete where the book can price every row it looks for: whatever the page size, it
  leaves exactly the table in which each of them has its own price, reports how many there were, and
  a second fill finds nothing to do.
\<close>

theorem fill_complete:
  assumes "distinct (map er_id t)" and "\<forall>r \<in> set t. unpriced_for f r \<longrightarrow> row_cost f r \<noteq> None"
  shows "price_fill_run t f = (fill_all f t, length (filter (unpriced_for f) t))
    \<and> price_fill_run (fill_all f t) f = (fill_all f t, 0)"
proof
  obtain t' n where r: "fill_loop f (max (pf_page f) 1) t 0 = (t', n)"
    by (cases "fill_loop f (max (pf_page f) 1) t 0")
  then have "t' = fill_all f t"
    using fill_loop_all [OF assms(1) _ assms(2), of "max (pf_page f) 1" 0] by simp
  moreover have "n = length (filter (unpriced_for f) t)"
    using fill_loop_rows [OF assms(1) r] fill_all_null [OF assms(2)] calculation by simp
  ultimately show "price_fill_run t f = (fill_all f t, length (filter (unpriced_for f) t))"
    using r by (simp add: price_fill_run_def)
  have "filter (unpriced_for f) (fill_all f t) = []"
    using assms(2) by (auto simp: fill_all_def filter_empty_conv)
  then show "price_fill_run (fill_all f t) f = (fill_all f t, 0)"
    by (subst price_fill_run_def, subst fill_loop.simps) (simp add: fill_candidates_def)
qed

text \<open>
  A filled row is the row ingest would have written. For an event stored without a price whose
  token counts are below \<open>2 ^ 63\<close>, the fill assigns the price that pricing the event at its door from
  the same book would have given it; a price the event already has is kept.
\<close>

theorem fill_prices_as_ingest:
  assumes "ev_cost_usd ev = None" and "f = price_fill_new (ev_provider ev) (ev_model ev) b now"
    and "uint (ev_input ev) < 2 ^ 63" and "uint (ev_output ev) < 2 ^ 63"
    and "\<forall>c. ev_cached_input ev = Some c \<longrightarrow> uint c < 2 ^ 63"
  shows "row_cost f (row_of_event i ev) = ev_cost_usd (ensure_cost ev b)
    \<and> ensure_cost (ev\<lparr>ev_cost_usd := Some c\<rparr>) b = ev\<lparr>ev_cost_usd := Some c\<rparr>"
proof -
  have reread: "clamp_u64 (sint w) = w" if "uint (w :: u64) < 2 ^ 63" for w
  proof -
    have "in_i64 (uint w)" using that by (simp add: in_i64_def order.trans [of _ 0])
    then have "sint w = uint w" using sint_i64 [of "uint w"] by simp
    then show ?thesis by (simp add: clamp_u64_def)
  qed
  have "map_option clamp_u64 (map_option sint (ev_cached_input ev)) = ev_cached_input ev"
    using assms(5) reread by (cases "ev_cached_input ev") auto
  then show ?thesis
    using assms(1) reread [OF assms(3)] reread [OF assms(4)]
    by (simp add: assms(2) row_cost_def candidate_of_def row_of_event_def cost_for_def price_fill_new_def
        ensure_cost_def event_usage_def event_pricing_mode_def option.map_comp comp_def)
      (rule cost_ignores_reasoning)
qed

section \<open>A fill and the usage cache\<close>

text \<open>
  A fill does not reach the cache. In a store state whose bucket has seen the whole table, the
  read after a fill answers exactly what it answered before it, with the unpriced calls of the table
  as it was; nothing resets the cache, so limits go on charging filled calls as unpriced until they
  leave the window.
\<close>

theorem fill_leaves_cache_stale:
  assumes "store_reach (db, c, clk)" and "clk \<le> now" and "\<forall>r \<in> set (db_events db). row_reads r"
    and "distinct (map er_id (db_events db))"
    and "\<forall>r \<in> set (db_events db). er_rowid r \<le> b_seen (bucket_of c (project, w, scope))"
    and "price_fill_run (db_events db) f = (t', n)"
  shows "cache_usage t' project now c w scope = cache_usage (db_events db) project now c w scope
    \<and> (\<exists>u c'. cache_usage t' project now c w scope = (Inr u, c')
        \<and> u_unpriced u = u_unpriced (usage_scan (db_events db) project scope (window_since w now)))"
proof -
  let ?t = "db_events db" and ?b = "bucket_of c (project, w, scope)"
  have "list_all2 (fill_of f) ?t t'"
    using fill_loop_rows [OF assms(4), of f "max (pf_page f) 1" 0] assms(6)
    by (auto simp: price_fill_run_def)
  then have rowids: "map er_rowid t' = map er_rowid ?t"
    by (induction rule: list_all2_induct) (auto dest: fill_of_id)
  then have "er_rowid ` set t' = er_rowid ` set ?t" by (metis set_map)
  then have "\<forall>i \<in> er_rowid ` set t'. i \<le> b_seen ?b" using assms(5) by simp
  then have "filter (\<lambda>r. b_seen ?b < er_rowid r) t' = []" "filter (\<lambda>r. b_seen ?b < er_rowid r) ?t = []"
    using assms(5) by (auto simp: filter_empty_conv not_less)
  then have same: "cache_usage t' project now c w scope = cache_usage ?t project now c w scope"
    by (simp add: cache_usage_def load_new_def Let_def)
  obtain u c' where u: "cache_usage ?t project now c w scope = (Inr u, c')"
    and cnt: "counters_stand u (mset (map row_usage (window_rows ?t project scope (window_since w now))))"
    using counters.reach_read [OF assms(1-3)] by blast
  then have "u_unpriced u = u_unpriced (usage_scan ?t project scope (window_since w now))"
    using counters.scan_stands [OF TrueI, of ?t project scope "window_since w now"]
    by (auto simp: counters_stand_def)
  then show ?thesis using same u by auto
qed

section \<open>Witnesses\<close>

definition sample_fill :: price_fill where
  "sample_fill = price_fill_new ''openai'' ''gpt-4o'' azure_book ''2026-06-10T00:00:00.000000000Z''"

lemma sample_candidates:
  "candidates azure_book ''openai'' ''gpt-4o'' = [(''openai'', ''gpt-4o'')]"
  "mi_lane (canonicalize ''openai'' ''gpt-4o'') = None"
  by code_simp+

lemma sample_priced: "price_resolve azure_book ''openai'' ''gpt-4o'' w PmStandard = Some (flat_price (Fin 2))"
  unfolding price_resolve_def sample_candidates Let_def
  by (simp add: resolve_exact_def tier_price_def price_key_def azure_book_def)

definition sample_table :: "event_row list" where
  "sample_table = [row_of_event 1 sample_event]"

lemma sample_row_cost: "row_cost sample_fill (row_of_event 1 sample_event) \<noteq> None"
  by (simp add: row_cost_def cost_for_def sample_fill_def price_fill_new_def candidate_of_def
      row_of_event_def sample_event_def cost_parts pricing_mode_from_hints_def meta_str_def sample_priced)

lemma sample_unpriced: "unpriced_for sample_fill (row_of_event 1 sample_event)"
  by (simp add: unpriced_for_def sample_fill_def price_fill_new_def row_of_event_def sample_event_def)

lemma price_fill_one: "price_fill_run sample_table sample_fill = (fill_all sample_fill sample_table, 1)"
proof -
  have "fst (fill_loop sample_fill (max (pf_page sample_fill) 1) sample_table 0) = fill_all sample_fill sample_table"
    by (rule fill_loop_all) (use sample_row_cost in \<open>simp_all add: sample_table_def\<close>)
  moreover obtain t' n where "fill_loop sample_fill (max (pf_page sample_fill) 1) sample_table 0 = (t', n)"
    by (cases "fill_loop sample_fill (max (pf_page sample_fill) 1) sample_table 0")
  moreover from this have "null_rows t' + n = null_rows sample_table"
    using fill_loop_rows [of sample_table sample_fill "max (pf_page sample_fill) 1" 0] by (simp add: sample_table_def)
  moreover have "null_rows (fill_all sample_fill sample_table) + 1 = null_rows sample_table"
    using fill_all_null [of sample_table sample_fill] sample_row_cost sample_unpriced by (simp add: sample_table_def)
  ultimately show ?thesis by (simp add: price_fill_run_def)
qed

lemma fill_complete_witness: "price_fill_run sample_table sample_fill = (fill_all sample_fill sample_table, 1)"
  using fill_complete [of sample_table sample_fill] sample_row_cost sample_unpriced
  by (simp add: sample_table_def)

lemma fill_prices_only_gaps_witness:
  "null_rows (fst (price_fill_run sample_table sample_fill)) + snd (price_fill_run sample_table sample_fill) = 1"
  using fill_prices_only_gaps [of sample_table sample_fill "fst (price_fill_run sample_table sample_fill)"
      "snd (price_fill_run sample_table sample_fill)"]
  by (simp add: sample_table_def null_rows_def row_of_event_def sample_event_def)

lemma fill_prices_as_ingest_witness:
  "row_cost sample_fill (row_of_event 1 sample_event) = ev_cost_usd (ensure_cost sample_event azure_book)"
  using fill_prices_as_ingest [of sample_event sample_fill azure_book "''2026-06-10T00:00:00.000000000Z''" 1]
  by (simp add: sample_event_def sample_fill_def)

text \<open>
  A page of rows that cannot be priced stops the fill before the rows behind it: a record whose cached
  tokens exceed its prompt, in front of one that has a price, leaves both without one.
\<close>

lemma unpriceable_page_blocks:
  "price_fill_run [row_of_event 1 (sample_event\<lparr>ev_id := ''bad'', ev_cached_input := Some 11\<rparr>),
      row_of_event 2 sample_event] (sample_fill\<lparr>pf_page := 1\<rparr>)
   = ([row_of_event 1 (sample_event\<lparr>ev_id := ''bad'', ev_cached_input := Some 11\<rparr>),
      row_of_event 2 sample_event], 0)"
  unfolding price_fill_run_def
  by (subst fill_loop.simps)
     (simp add: fill_candidates_def unpriced_for_def sample_fill_def price_fill_new_def row_of_event_def
       sample_event_def candidate_of_def cost_for_def cost_parts clamp_u64_def Let_def)

text \<open>
  The stale read: a store with one unpriced event and a cap of one call. A second event is refused,
  which leaves the bucket past the whole table; the first is then filled, and is still counted as
  unpriced, while the scan of the table says nothing is.
\<close>

definition capped_db :: database where
  "capped_db = \<lparr>db_events = sample_table, db_rules = [sample_cap Calls 1], db_revenue = []\<rparr>"

lemma sample_read:
  "\<exists>u c'. cache_usage sample_table ''p'' 1000 [] Hour None = (Inr u, c')
     \<and> b_seen (bucket_of c' (''p'', Hour, None)) = 1 \<and> u_calls u = 1"
proof -
  let ?r = "row_of_event 1 sample_event"
  have row: "row_reads ?r" "er_rowid ?r = 1"
    by (simp_all add: row_reads_def row_of_event_def sample_event_def in_i64_def)
  have "load_new sample_table ''p'' None bucket_default
      = Inr (fold_row ''p'' None bucket_default (read_row ?r))"
    using row by (simp add: load_new_def sample_table_def from_row_def bucket_default_def)
  moreover have "b_seen (fold_row ''p'' None bucket_default (read_row ?r)) = 1"
    using row(2) by (simp add: fold_row_def Let_def bucket_default_def)
  moreover have "u_calls (b_total (evict_before (window_since Hour 1000) (fold_row ''p'' None bucket_default (read_row ?r)))) = 1"
    by (simp add: fold_row_def Let_def bucket_default_def evict_before_def row_of_event_def sample_event_def
        er_arrival_def row_contribution_def scope_matches_def usage_plus_def usage_default_def
        window_since_def chrono_secs_def)
  ultimately show ?thesis by (simp add: cache_usage_def bucket_of_def Let_def)
qed

lemma capped_refuses:
  "\<exists>a c'. insert_checked capped_db [] (sample_event\<lparr>ev_id := ''e2''\<rparr>) 1000 = (Inr a, capped_db, c')
     \<and> b_seen (bucket_of c' (''p'', Hour, None)) = 1"
proof -
  let ?r = "sample_cap Calls 1" and ?ev = "sample_event\<lparr>ev_id := ''e2''\<rparr>"
  let ?k = "event_contribution ?ev"
  have key: "lr_window ?r = Hour" "lr_scope ?r = None" "lr_metric ?r = Calls" "ev_project ?ev = ''p''"
    by (simp_all add: sample_cap_def sample_event_def)
  have rules: "enabled_rules capped_db (ev_project ?ev) = [?r]"
    by (simp add: enabled_rules_def capped_db_def sample_cap_def sample_event_def)
  have fixed: "lr_threshold ?r = Fixed 1" "\<not> needs_revenue ?r"
    by (simp_all add: sample_cap_def needs_revenue_def)
  have res: "resolve_all [?r] 1000 f = Inr []" for f using fixed by (simp add: resolve_all_def)
  have applies: "rule_applies ?ev 1000 ?r"
    by (simp add: rule_applies_def sample_cap_def is_active_at_def scope_matches_def)
  obtain u c' where c': "cache_usage sample_table ''p'' 1000 [] Hour None = (Inr u, c')"
    "b_seen (bucket_of c' (''p'', Hour, None)) = 1" and calls: "u_calls u = 1" using sample_read by blast
  let ?st = "judge_rule ?ev 1000 (resolver []) ?r (usage_plus u ?k)"
  have adm: "evaluate_admission_at [?r] ?ev ?k 1000 (cache_usage sample_table ''p'' 1000) (resolver []) []
      = (Inr (from_statuses [?st]), c')"
    using applies c' key by (simp add: evaluate_admission_at_def Let_def)
  have "resolver [] ?r = (Fin 1, basis_fixed)"
    using fixed by (simp add: resolver_def threshold_resolve_def)
  note judged = judge_simps [where resolve = "resolver []" and r = ?r, OF this]
  have "rejects_ingest ?st" unfolding judged using calls
    by (simp add: sample_cap_def effective_action_at_def action_enforces_def usage_plus_def
        event_contribution_def f64_of_int_exact Let_def)
  then have "\<not> ad_admitted (from_statuses [?st])" by (simp add: from_statuses_admitted)
  then show ?thesis
    using rules res adm c'(2) key(4)
    by (simp add: insert_checked_def insert_checked_with_rules_def capped_db_def)
qed

lemma fill_leaves_cache_stale_witness:
  "\<exists>c u c'. cache_usage (fill_all sample_fill sample_table) ''p'' 1000 c Hour None = (Inr u, c')
     \<and> u_unpriced u = 1
     \<and> u_unpriced (usage_scan (fill_all sample_fill sample_table) ''p'' None (window_since Hour 1000)) = 0"
proof -
  obtain a c where ins: "insert_checked capped_db [] (sample_event\<lparr>ev_id := ''e2''\<rparr>) 1000 = (Inr a, capped_db, c)"
    and seen: "b_seen (bucket_of c (''p'', Hour, None)) = 1" using capped_refuses by blast
  have "store_reach (capped_db, [], 0)"
    by (rule opened) (simp add: capped_db_def sample_table_def table_wf_def row_of_event_def)
  then have reach: "store_reach (capped_db, c, 1000)"
    by (rule further) (rule ss_insert [OF _ ins], simp)
  have run: "price_fill_run sample_table sample_fill = (fill_all sample_fill sample_table, 1)"
    using price_fill_one by simp
  have ev: "db_events capped_db = sample_table" by (simp add: capped_db_def)
  have side: "\<forall>r \<in> set (db_events capped_db). row_reads r" "distinct (map er_id (db_events capped_db))"
    "\<forall>r \<in> set (db_events capped_db). er_rowid r \<le> b_seen (bucket_of c (''p'', Hour, None))"
    using seen by (simp_all add: ev sample_table_def row_reads_def row_of_event_def sample_event_def in_i64_def)
  obtain u c' where u: "cache_usage (fill_all sample_fill sample_table) ''p'' 1000 c Hour None = (Inr u, c')"
    "u_unpriced u = u_unpriced (usage_scan sample_table ''p'' None (window_since Hour 1000))"
    using fill_leaves_cache_stale [OF reach order_refl side run [folded ev]] unfolding ev by blast
  have old: "usage_scan sample_table ''p'' None (window_since Hour 1000)
      = usage_plus usage_default (row_usage (row_of_event 1 sample_event))"
    by (simp add: usage_scan_def sample_table_def selected_def read_row_def row_of_event_def sample_event_def
        scope_matches_def er_arrival_def window_since_def chrono_secs_def)
  have sel: "selected ''p'' None (filled_row sample_fill (row_of_event 1 sample_event))"
    "er_arrival (filled_row sample_fill (row_of_event 1 sample_event)) = 1000"
    using sample_row_cost
    by (auto simp: filled_row_def selected_def read_row_def row_of_event_def sample_event_def
        scope_matches_def er_arrival_def)
  then have new: "usage_scan (fill_all sample_fill sample_table) ''p'' None (window_since Hour 1000)
      = usage_plus usage_default (row_usage (filled_row sample_fill (row_of_event 1 sample_event)))"
    using sample_unpriced
    by (simp add: usage_scan_def sample_table_def fill_all_def window_since_def chrono_secs_def)
  have "u_unpriced (row_usage (row_of_event 1 sample_event)) = 1"
    by (simp add: row_of_event_usage event_contribution_def sample_event_def Let_def)
  moreover have "u_unpriced (row_usage (filled_row sample_fill (row_of_event 1 sample_event))) = 0"
    using sample_row_cost by (auto simp: row_usage_def row_contribution_def read_row_def filled_row_def Let_def)
  ultimately show ?thesis using u unfolding old new by (auto simp: usage_plus_def usage_default_def)
qed

end
