(* ===== verification/IngestDoor.thy ===== *)
theory IngestDoor
  imports UsageCache PriceBook
begin

text \<open>
  The ingest door of the API: what \<^verbatim>\<open>crates/api/src/events.rs\<close> does to an event before it is
  admitted (\<open>prepare_event\<close>), with the validation of \<^verbatim>\<open>events_validate.rs\<close> and the walk of
  \<^verbatim>\<open>redact.rs\<close>, and \<open>post_event\<close> on top of the checked insert: admission, refusal, and the
  acknowledgement of a retry. Message texts are not modelled; the regular expressions of the scrubber,
  the hash of a payload and the JSON text of a stamp are arguments.
\<close>

section \<open>Codes, principals and policies\<close>

datatype error_code = EcBadRequest | EcTsTooOld | EcTsTooNew | EcUsageSubcountExceedsTotal
  | EcUnauthorized | EcForbidden | EcProjectDisabled | EcKeyExpired | EcNotFound | EcRelayUnroutable
  | EcConflict | EcRateLimited | EcOverloaded | EcTimeout | EcInternal | EcUnsupported

fun error_code_status :: "error_code \<Rightarrow> nat" where
  "error_code_status EcBadRequest = 400"
| "error_code_status EcTsTooOld = 400"
| "error_code_status EcTsTooNew = 400"
| "error_code_status EcUsageSubcountExceedsTotal = 400"
| "error_code_status EcUnauthorized = 401"
| "error_code_status EcKeyExpired = 401"
| "error_code_status EcForbidden = 403"
| "error_code_status EcProjectDisabled = 403"
| "error_code_status EcNotFound = 404"
| "error_code_status EcRelayUnroutable = 422"
| "error_code_status EcConflict = 409"
| "error_code_status EcRateLimited = 429"
| "error_code_status EcOverloaded = 503"
| "error_code_status EcTimeout = 504"
| "error_code_status EcInternal = 500"
| "error_code_status EcUnsupported = 501"

fun error_code_as_str :: "error_code \<Rightarrow> string" where
  "error_code_as_str EcBadRequest = ''bad_request''"
| "error_code_as_str EcTsTooOld = ''ts_too_old''"
| "error_code_as_str EcTsTooNew = ''ts_too_new''"
| "error_code_as_str EcUsageSubcountExceedsTotal = ''usage_subcount_exceeds_total''"
| "error_code_as_str EcUnauthorized = ''unauthorized''"
| "error_code_as_str EcForbidden = ''forbidden''"
| "error_code_as_str EcProjectDisabled = ''project_disabled''"
| "error_code_as_str EcKeyExpired = ''key_expired''"
| "error_code_as_str EcNotFound = ''not_found''"
| "error_code_as_str EcRelayUnroutable = ''relay_unroutable''"
| "error_code_as_str EcConflict = ''conflict''"
| "error_code_as_str EcRateLimited = ''rate_limited''"
| "error_code_as_str EcOverloaded = ''overloaded''"
| "error_code_as_str EcTimeout = ''timeout''"
| "error_code_as_str EcInternal = ''internal''"
| "error_code_as_str EcUnsupported = ''unsupported''"

datatype key_scope = KsIngest | KsRead | KsManage

datatype principal = PrDev | PrAdmin | PrProject string string "key_scope list"

fun principal_key_id :: "principal \<Rightarrow> string option" where
  "principal_key_id (PrProject project key scopes) = Some key"
| "principal_key_id _ = None"

fun ensure_scope :: "principal \<Rightarrow> key_scope \<Rightarrow> error_code + unit" where
  "ensure_scope (PrProject project key scopes) want =
     (if want \<in> set scopes then Inr () else Inl EcForbidden)"
| "ensure_scope _ want = Inr ()"

definition DEV_DEFAULT_PROJECT :: string where
  "DEV_DEFAULT_PROJECT = ''default''"

fun resolve_ingest_project :: "principal \<Rightarrow> string \<Rightarrow> error_code + string" where
  "resolve_ingest_project (PrProject project key scopes) body =
     (case ensure_scope (PrProject project key scopes) KsIngest of Inl e \<Rightarrow> Inl e | Inr _ \<Rightarrow> Inr project)"
| "resolve_ingest_project PrDev body =
     (if str_trim body = [] then Inr DEV_DEFAULT_PROJECT else Inr body)"
| "resolve_ingest_project PrAdmin body =
     (if str_trim body = [] then Inl EcBadRequest else Inr body)"

datatype redaction = RedactNone | RedactHash | RedactDrop

record project_policy =
  po_enabled :: bool
  po_redaction :: redaction

section \<open>Identity of traces\<close>

definition is_hexdigit :: "char \<Rightarrow> bool" where
  "is_hexdigit c \<longleftrightarrow> is_digit c \<or> ((65::nat) \<le> of_char c \<and> of_char c \<le> (70::nat))
     \<or> ((97::nat) \<le> of_char c \<and> of_char c \<le> (102::nat))"

definition normalize_trace_ref :: "string \<Rightarrow> string" where
  "normalize_trace_ref s =
     (if (length s = 16 \<or> length s = 32) \<and> list_all is_hexdigit s then to_ascii_lowercase s else s)"

definition MAX_TRACE_REF_LEN :: nat where
  "MAX_TRACE_REF_LEN = 128"

text \<open>Characters of a UTF-8 string: the bytes that do not continue one.\<close>

definition char_count :: "string \<Rightarrow> nat" where
  "char_count s = length (filter (\<lambda>c. \<not> ((128::nat) \<le> of_char c \<and> of_char c < (192::nat))) s)"

definition trace_ref_within_bound :: "string \<Rightarrow> bool" where
  "trace_ref_within_bound s \<longleftrightarrow> char_count s \<le> MAX_TRACE_REF_LEN"

definition normalize_ids :: "llm_event \<Rightarrow> llm_event" where
  "normalize_ids ev = ev\<lparr>ev_trace_id := map_option normalize_trace_ref (ev_trace_id ev),
     ev_span_id := map_option normalize_trace_ref (ev_span_id ev),
     ev_parent_span_id := map_option normalize_trace_ref (ev_parent_span_id ev)\<rparr>"

section \<open>Server-owned metadata\<close>

fun metadata_set :: "metadata \<Rightarrow> string \<Rightarrow> meta_value \<Rightarrow> metadata" where
  "metadata_set (MdObject m) k v = MdObject (AList.update k v m)"
| "metadata_set MdNull k v = MdObject [(k, v)]"
| "metadata_set (MdOther x) k v = MdOther x"

fun metadata_remove :: "metadata \<Rightarrow> string \<Rightarrow> metadata" where
  "metadata_remove (MdObject m) k = MdObject (AList.delete k m)"
| "metadata_remove md k = md"

definition stamp_api_key :: "llm_event \<Rightarrow> string option \<Rightarrow> llm_event" where
  "stamp_api_key ev key_id = (case key_id of
     Some i \<Rightarrow> ev\<lparr>ev_metadata := metadata_set (ev_metadata ev) ''api_key_id'' (MvText i)\<rparr>
   | None \<Rightarrow> ev\<lparr>ev_metadata := metadata_remove (ev_metadata ev) ''api_key_id''\<rparr>)"

definition mark_cost_source :: "llm_event \<Rightarrow> bool \<Rightarrow> llm_event" where
  "mark_cost_source ev client_supplied =
     (if ev_cost_usd ev = None then ev
      else ev\<lparr>ev_metadata := metadata_set (ev_metadata ev) ''cost_source''
             (MvText (if client_supplied then ''client'' else ''book''))\<rparr>)"

datatype failure_class = FcTransient | FcTerminal | FcUnknown

fun failure_class_as_str :: "failure_class \<Rightarrow> string" where
  "failure_class_as_str FcTransient = ''transient''"
| "failure_class_as_str FcTerminal = ''terminal''"
| "failure_class_as_str FcUnknown = ''unknown''"

definition failure_class_from_wire :: "string \<Rightarrow> failure_class" where
  "failure_class_from_wire s0 = (let s = to_ascii_lowercase (str_trim s0) in
     case wire_search [FcTransient, FcTerminal, FcUnknown] failure_class_as_str s of
       Some v \<Rightarrow> v | None \<Rightarrow> FcUnknown)"

definition FAILURE_CLASS_KEY :: string where
  "FAILURE_CLASS_KEY = ''failure_class''"

definition normalize_failure_class :: "llm_event \<Rightarrow> llm_event" where
  "normalize_failure_class ev =
     (let failed = (ev_status ev \<noteq> CallSuccess);
          canonical = (case meta_str (ev_metadata ev) FAILURE_CLASS_KEY of
            Some s \<Rightarrow> failure_class_from_wire s | None \<Rightarrow> FcUnknown)
      in ev\<lparr>ev_metadata :=
           (if failed then metadata_set (ev_metadata ev) FAILURE_CLASS_KEY
                (MvText (failure_class_as_str canonical))
            else metadata_remove (ev_metadata ev) FAILURE_CLASS_KEY)\<rparr>)"

section \<open>Validation\<close>

record ingest_policy =
  ip_max_future_secs :: int
  ip_max_past_secs :: int
  ip_check_usage_subcounts :: bool

definition DEFAULT_SKEW_FUTURE_SECS :: int where
  "DEFAULT_SKEW_FUTURE_SECS = 300"

definition DEFAULT_SKEW_PAST_SECS :: int where
  "DEFAULT_SKEW_PAST_SECS = 7 * 24 * 3600"

text \<open>The policy from its three settings, each as the environment has it.\<close>

definition ingest_policy_from_env :: "int option \<Rightarrow> int option \<Rightarrow> int option \<Rightarrow> bool \<Rightarrow> ingest_policy" where
  "ingest_policy_from_env skew skew_future skew_past check_usage =
     (case skew of
        Some both \<Rightarrow> \<lparr>ip_max_future_secs = max both 0, ip_max_past_secs = max both 0,
          ip_check_usage_subcounts = check_usage\<rparr>
      | None \<Rightarrow> \<lparr>ip_max_future_secs = max (case skew_future of Some n \<Rightarrow> n | None \<Rightarrow> DEFAULT_SKEW_FUTURE_SECS) 0,
          ip_max_past_secs = max (case skew_past of Some n \<Rightarrow> n | None \<Rightarrow> DEFAULT_SKEW_PAST_SECS) 0,
          ip_check_usage_subcounts = check_usage\<rparr>)"

definition usage_check :: "llm_event \<Rightarrow> bool \<Rightarrow> error_code + unit" where
  "usage_check ev enforcing = (case check_subcounts (event_usage ev) of
     Inr _ \<Rightarrow> Inr ()
   | Inl ovf \<Rightarrow> if \<not> enforcing then Inr () else Inl EcUsageSubcountExceedsTotal)"

definition opt_within_bound :: "string option \<Rightarrow> bool" where
  "opt_within_bound x = (case x of None \<Rightarrow> True | Some v \<Rightarrow> trace_ref_within_bound v)"

definition validate_event :: "ingest_policy \<Rightarrow> llm_event \<Rightarrow> instant \<Rightarrow> error_code + unit" where
  "validate_event pol ev now =
     (if str_trim (ev_model ev) = [] then Inl EcBadRequest
      else if \<not> (opt_within_bound (ev_trace_id ev) \<and> opt_within_bound (ev_span_id ev)
                 \<and> opt_within_bound (ev_parent_span_id ev)) then Inl EcBadRequest
      else case usage_check ev (ip_check_usage_subcounts pol) of
        Inl e \<Rightarrow> Inl e
      | Inr _ \<Rightarrow>
          (let delta = num_seconds (ev_ts ev - now) in
           if 0 < ip_max_future_secs pol \<and> ip_max_future_secs pol < delta then Inl EcTsTooNew
           else if 0 < ip_max_past_secs pol \<and> ip_max_past_secs pol < - delta then Inl EcTsTooOld
           else Inr ()))"

section \<open>Redaction\<close>

text \<open>
  What the walk calls outside the workspace's own code: the hash of a payload, the regular-expression
  pass over a string, the same pass down a JSON value (each with the number of spans replaced, the
  latter dropping what is nested too deeply), and the JSON text of a stamp.
\<close>

record redact_env =
  re_sha256 :: "meta_value \<Rightarrow> string"
  re_scrub_string :: "string \<Rightarrow> string \<times> nat"
  re_scrub_value :: "meta_value \<Rightarrow> meta_value \<times> nat"
  re_stamp :: "redaction \<Rightarrow> bool \<Rightarrow> nat \<Rightarrow> string"
  re_panics :: "llm_event \<Rightarrow> bool"

datatype redact_mode = RmOff | RmAll | RmProjects "string list"

record redactor =
  rd_mode :: redact_mode
  rd_defaulted :: bool

fun split_commas :: "string \<Rightarrow> string \<Rightarrow> string list" where
  "split_commas acc [] = [rev acc]"
| "split_commas acc (c # s) = (if c = CHR '','' then rev acc # split_commas [] s else split_commas (c # acc) s)"

definition redactor_from_raw :: "string option \<Rightarrow> redactor" where
  "redactor_from_raw raw =
     (let t = str_trim (case raw of Some s \<Rightarrow> s | None \<Rightarrow> []) in
      if t = [] then \<lparr>rd_mode = RmAll, rd_defaulted = True\<rparr>
      else \<lparr>rd_mode =
          (if to_ascii_lowercase t = ''off'' \<or> t = ''0'' then RmOff
           else if to_ascii_lowercase t = ''all'' \<or> t = ''*'' \<or> t = ''1'' then RmAll
           else RmProjects (filter (\<lambda>s. s \<noteq> []) (map str_trim (split_commas [] t)))),
        rd_defaulted = False\<rparr>)"

definition enabled_for :: "redactor \<Rightarrow> string \<Rightarrow> bool" where
  "enabled_for r project = (case rd_mode r of
     RmOff \<Rightarrow> False | RmAll \<Rightarrow> True | RmProjects ps \<Rightarrow> project \<in> set ps)"

definition apply_policy :: "redact_env \<Rightarrow> llm_event \<Rightarrow> redaction \<Rightarrow> llm_event" where
  "apply_policy e ev policy = (case policy of
     RedactNone \<Rightarrow> ev
   | RedactHash \<Rightarrow> ev\<lparr>
       ev_prompt := map_option (\<lambda>v. MvObject (''\"sha256\":\"'' @ re_sha256 e v @ ''\"'')) (ev_prompt ev),
       ev_completion := map_option (\<lambda>v. MvObject (''\"sha256\":\"'' @ re_sha256 e v @ ''\"'')) (ev_completion ev)\<rparr>
   | RedactDrop \<Rightarrow> ev\<lparr>ev_prompt := None, ev_completion := None\<rparr>)"

definition REDACTION_KEY :: string where
  "REDACTION_KEY = ''redaction''"

definition METADATA_PASSTHROUGH :: "string list" where
  "METADATA_PASSTHROUGH = [''api_key_id'', ''customer_id'', ''product_id'', ''cost_source'',
     ''pricing_mode'', ''failure_class'', ''prompt_sha256'', REDACTION_KEY]"

definition scrub_opt :: "('a \<Rightarrow> 'a \<times> nat) \<Rightarrow> 'a option \<Rightarrow> 'a option \<times> nat" where
  "scrub_opt f x = (case x of None \<Rightarrow> (None, 0) | Some v \<Rightarrow> (let (v', n) = f v in (Some v', n)))"

fun scrub_all_in :: "('a \<Rightarrow> 'a \<times> nat) \<Rightarrow> 'a list \<Rightarrow> 'a list \<times> nat" where
  "scrub_all_in f [] = ([], 0)"
| "scrub_all_in f (x # xs) = (let (x', n) = f x; (xs', m) = scrub_all_in f xs in (x' # xs', n + m))"

definition scrub_entry :: "redact_env \<Rightarrow> string \<times> meta_value \<Rightarrow> (string \<times> meta_value) \<times> nat" where
  "scrub_entry e kv =
     (if fst kv \<in> set METADATA_PASSTHROUGH then (kv, 0)
      else let (v, n) = re_scrub_value e (snd kv) in ((fst kv, v), n))"

definition scrub_metadata :: "redact_env \<Rightarrow> metadata \<Rightarrow> metadata \<times> nat" where
  "scrub_metadata e md = (case md of
     MdNull \<Rightarrow> (MdNull, 0)
   | MdObject m \<Rightarrow> (let (m', n) = scrub_all_in (scrub_entry e) m in (MdObject m', n))
   | MdOther v \<Rightarrow> (let (v', n) = re_scrub_value e v in (MdOther v', n)))"

definition scrub_event :: "redact_env \<Rightarrow> llm_event \<Rightarrow> redaction \<Rightarrow> llm_event \<times> nat" where
  "scrub_event e ev persistence =
     (let (prompt, n1) = (if persistence = RedactNone then scrub_opt (re_scrub_value e) (ev_prompt ev)
            else (ev_prompt ev, 0));
          (completion, n2) = (if persistence = RedactNone then scrub_opt (re_scrub_value e) (ev_completion ev)
            else (ev_completion ev, 0));
          (err, n3) = scrub_opt (re_scrub_string e) (ev_error ev);
          (tags, n4) = scrub_all_in (re_scrub_string e) (ev_tags ev);
          (name, n5) = scrub_opt (re_scrub_string e) (ev_name ev);
          (source, n6) = scrub_opt (re_scrub_string e) (ev_source ev);
          (md, n7) = scrub_metadata e (ev_metadata ev)
      in (ev\<lparr>ev_prompt := prompt, ev_completion := completion, ev_error := err, ev_tags := tags,
            ev_name := name, ev_source := source, ev_metadata := md\<rparr>,
          n1 + n2 + n3 + n4 + n5 + n6 + n7))"

definition strip_client_stamp :: "llm_event \<Rightarrow> llm_event" where
  "strip_client_stamp ev = ev\<lparr>ev_metadata := metadata_remove (ev_metadata ev) REDACTION_KEY\<rparr>"

definition write_stamp :: "redact_env \<Rightarrow> llm_event \<Rightarrow> redaction \<Rightarrow> bool \<Rightarrow> nat \<Rightarrow> llm_event" where
  "write_stamp e ev policy scrub spans =
     (let v = MvObject (re_stamp e policy scrub spans) in
      ev\<lparr>ev_metadata := (case ev_metadata ev of
          MdObject m \<Rightarrow> MdObject (AList.update REDACTION_KEY v m)
        | MdNull \<Rightarrow> MdObject [(REDACTION_KEY, v)]
        | MdOther kept \<Rightarrow> MdObject [(''value'', kept), (REDACTION_KEY, v)])\<rparr>)"

definition redact_event :: "redact_env \<Rightarrow> redactor \<Rightarrow> llm_event \<Rightarrow> redaction \<Rightarrow> llm_event" where
  "redact_event e r ev0 persistence =
     (let ev = strip_client_stamp ev0 in
      if \<not> enabled_for r (ev_project ev) then write_stamp e ev persistence False 0
      else if re_panics e ev then
        write_stamp e (ev\<lparr>ev_prompt := Some (MvText ''<REDACTION FAILED: payload discarded>''),
            ev_completion := Some (MvText ''<REDACTION FAILED: payload discarded>''),
            ev_error := Some ''<REDACTION FAILED>'', ev_tags := [], ev_metadata := MdNull\<rparr>)
          persistence True 0
      else let (ev', n) = scrub_event e ev persistence in write_stamp e ev' persistence True n)"

definition apply_class :: "redact_env \<Rightarrow> redactor \<Rightarrow> llm_event \<Rightarrow> redaction \<Rightarrow> llm_event" where
  "apply_class e r ev policy = redact_event e r (apply_policy e ev policy) policy"

section \<open>Preparing an event\<close>

record door_config =
  dc_policy :: ingest_policy
  dc_redactor :: redactor
  dc_prices :: price_book

definition prepare_event :: "redact_env \<Rightarrow> door_config \<Rightarrow> llm_event \<Rightarrow> string \<Rightarrow> string option
    \<Rightarrow> redaction \<Rightarrow> string \<Rightarrow> instant \<Rightarrow> error_code + llm_event" where
  "prepare_event e cfg ev0 pid key_id persistence new_id now =
     (let ev = ev0\<lparr>ev_project := pid, ev_received_at := now\<rparr>;
          ev = (if str_trim (ev_id ev) = [] then ev\<lparr>ev_id := new_id\<rparr> else ev);
          ev = stamp_api_key (normalize_ids ev) key_id
      in case validate_event (dc_policy cfg) ev now of
           Inl r \<Rightarrow> Inl r
         | Inr _ \<Rightarrow>
             (let ev = apply_class e (dc_redactor cfg) ev persistence;
                  client_supplied = (ev_cost_usd ev \<noteq> None);
                  ev = ensure_cost ev (dc_prices cfg)
              in Inr (normalize_failure_class (mark_cost_source ev client_supplied))))"

section \<open>The single-event door\<close>

definition same_logical_event :: "llm_event \<Rightarrow> llm_event \<Rightarrow> bool" where
  "same_logical_event stored incoming \<longleftrightarrow>
     ev_project stored = ev_project incoming \<and> ev_ts stored = ev_ts incoming
     \<and> ev_provider stored = ev_provider incoming \<and> ev_model stored = ev_model incoming
     \<and> ev_input stored = ev_input incoming \<and> ev_output stored = ev_output incoming"

datatype ingest_reply =
    Recorded string string "f64 option" instant "limit_status list"
  | Replayed string string "f64 option" instant
  | RateLimited "nat option"
  | Refused error_code

fun refuse_store :: "store_error \<Rightarrow> ingest_reply" where
  "refuse_store (SeConflict m) = Refused EcConflict"
| "refuse_store (SeUnsupported m) = Refused EcUnsupported"
| "refuse_store _ = Refused EcInternal"

text \<open>
  \<open>policy_for\<close> is the project's policy from the cache or the store; \<open>t1\<close> is the clock at preparation
  and \<open>t2\<close> the clock of the admission; \<open>read_fails\<close> says whether the read-back of an id fails.
  Alerts, logs and the rejection ledger are not part of the state here; the position headers are in
  \<^verbatim>\<open>Proximity\<close>.
\<close>

definition post_event :: "redact_env \<Rightarrow> door_config \<Rightarrow> principal \<Rightarrow> (string \<Rightarrow> error_code + project_policy)
    \<Rightarrow> (string \<Rightarrow> bool) \<Rightarrow> string \<Rightarrow> instant \<Rightarrow> instant \<Rightarrow> database \<Rightarrow> usage_cache \<Rightarrow> llm_event
    \<Rightarrow> ingest_reply \<times> database \<times> usage_cache" where
  "post_event e cfg who policy_for read_fails new_id t1 t2 db c ev0 =
     (case resolve_ingest_project who (ev_project ev0) of
        Inl x \<Rightarrow> (Refused x, db, c)
      | Inr pid \<Rightarrow>
     (case policy_for pid of
        Inl x \<Rightarrow> (Refused x, db, c)
      | Inr policy \<Rightarrow>
     (if \<not> po_enabled policy then (Refused EcProjectDisabled, db, c)
      else case prepare_event e cfg ev0 pid (principal_key_id who) (po_redaction policy) new_id t1 of
        Inl x \<Rightarrow> (Refused x, db, c)
      | Inr ev \<Rightarrow>
     (case insert_checked db c ev t2 of
        (Inr a, db', c') \<Rightarrow>
          (if ad_admitted a
           then (Recorded (ev_id ev) pid (ev_cost_usd ev) (ev_ts ev) (filter ls_breached (ad_statuses a)), db', c')
           else (RateLimited (ad_retry_after a), db', c'))
      | (Inl err, db', c') \<Rightarrow>
          (case err of
             SeConflict m \<Rightarrow>
               if read_fails (ev_id ev) then (Refused EcInternal, db', c')
               else (case event_get (db_events db') (Some (ev_project ev)) (ev_id ev) of
                  Some s \<Rightarrow>
                    if same_logical_event s ev
                    then (Replayed (ev_id ev) pid (ev_cost_usd s) (ev_ts s), db', c')
                    else (Refused EcConflict, db', c')
                | None \<Rightarrow> (Refused EcConflict, db', c'))
           | _ \<Rightarrow> (refuse_store err, db', c'))))))"

section \<open>Who an event belongs to\<close>

lemma meta_get_simps [simp]:
  "meta_get (metadata_set md k v) k' =
     (case md of MdOther x \<Rightarrow> None | _ \<Rightarrow> if k' = k then Some v else meta_get md k')"
  "meta_get (metadata_remove md k) k' = (if k' = k then None else meta_get md k')"
  by (cases md; simp)+

lemma scrub_all_keys:
  "k \<in> set METADATA_PASSTHROUGH \<Longrightarrow> map_of (fst (scrub_all_in (scrub_entry e) m)) k = map_of m k"
proof (induction m)
  case (Cons kv m)
  then show ?case by (cases kv) (auto simp: scrub_entry_def case_prod_beta Let_def)
qed simp

text \<open>Metadata after the walk and the stamp: an object in any case.\<close>

definition is_object :: "metadata \<Rightarrow> bool" where
  "is_object md \<longleftrightarrow> (\<exists>m. md = MdObject m)"

lemma is_object_set [simp]: "is_object md \<Longrightarrow> is_object (metadata_set md k v)"
  by (auto simp: is_object_def)

lemma is_object_remove [simp]: "is_object (metadata_remove md k) \<longleftrightarrow> is_object md"
  by (cases md) (auto simp: is_object_def)

lemma apply_class_frame:
  "ev_project (apply_class e r ev p) = ev_project ev" "ev_received_at (apply_class e r ev p) = ev_received_at ev"
  "ev_id (apply_class e r ev p) = ev_id ev" "ev_ts (apply_class e r ev p) = ev_ts ev"
  "ev_provider (apply_class e r ev p) = ev_provider ev" "ev_model (apply_class e r ev p) = ev_model ev"
  "ev_input (apply_class e r ev p) = ev_input ev" "ev_output (apply_class e r ev p) = ev_output ev"
  "ev_cached_input (apply_class e r ev p) = ev_cached_input ev" "ev_reasoning (apply_class e r ev p) = ev_reasoning ev"
  "ev_cost_usd (apply_class e r ev p) = ev_cost_usd ev" "ev_status (apply_class e r ev p) = ev_status ev"
  "is_object (ev_metadata (apply_class e r ev p))"
  by (cases p; simp add: apply_class_def redact_event_def write_stamp_def scrub_event_def apply_policy_def
      strip_client_stamp_def is_object_def case_prod_beta Let_def split: metadata.splits)+

lemma apply_class_metadata:
  assumes "\<not> re_panics e (strip_client_stamp (apply_policy e ev p))"
    and "k \<in> set METADATA_PASSTHROUGH" and "k \<noteq> REDACTION_KEY"
  shows "meta_get (ev_metadata (apply_class e r ev p)) k = meta_get (ev_metadata ev) k"
proof -
  have v: "k \<noteq> ''value''" using assms(2) by (auto simp: METADATA_PASSTHROUGH_def REDACTION_KEY_def)
  have md: "ev_metadata (apply_policy e ev p) = ev_metadata ev" by (cases p) (simp_all add: apply_policy_def)
  show ?thesis
    using assms scrub_all_keys [OF assms(2)] v
    by (cases "ev_metadata ev")
       (auto simp: apply_class_def redact_event_def write_stamp_def scrub_event_def scrub_metadata_def
         strip_client_stamp_def md case_prod_beta Let_def)
qed

lemma ensure_cost_frame:
  "ev_metadata (ensure_cost ev b) = ev_metadata ev" "ev_project (ensure_cost ev b) = ev_project ev"
  "ev_received_at (ensure_cost ev b) = ev_received_at ev" "ev_id (ensure_cost ev b) = ev_id ev"
  "ev_ts (ensure_cost ev b) = ev_ts ev" "ev_provider (ensure_cost ev b) = ev_provider ev"
  "ev_model (ensure_cost ev b) = ev_model ev" "ev_input (ensure_cost ev b) = ev_input ev"
  "ev_output (ensure_cost ev b) = ev_output ev"
  "ev_cost_usd ev = Some c \<Longrightarrow> ensure_cost ev b = ev"
  by (simp_all add: ensure_cost_def)

lemma stamp_frame:
  "ev_project (normalize_failure_class (mark_cost_source ev s)) = ev_project ev"
  "ev_received_at (normalize_failure_class (mark_cost_source ev s)) = ev_received_at ev"
  "ev_id (normalize_failure_class (mark_cost_source ev s)) = ev_id ev"
  "ev_ts (normalize_failure_class (mark_cost_source ev s)) = ev_ts ev"
  "ev_provider (normalize_failure_class (mark_cost_source ev s)) = ev_provider ev"
  "ev_model (normalize_failure_class (mark_cost_source ev s)) = ev_model ev"
  "ev_input (normalize_failure_class (mark_cost_source ev s)) = ev_input ev"
  "ev_output (normalize_failure_class (mark_cost_source ev s)) = ev_output ev"
  "ev_cost_usd (normalize_failure_class (mark_cost_source ev s)) = ev_cost_usd ev"
  by (simp_all add: normalize_failure_class_def mark_cost_source_def Let_def)

lemma stamp_metadata:
  assumes "is_object (ev_metadata ev)" and "k \<noteq> FAILURE_CLASS_KEY"
  shows "meta_get (ev_metadata (normalize_failure_class (mark_cost_source ev s))) k =
    (if k = ''cost_source'' \<and> ev_cost_usd ev \<noteq> None then Some (MvText (if s then ''client'' else ''book''))
     else meta_get (ev_metadata ev) k)"
  using assms by (auto simp: normalize_failure_class_def mark_cost_source_def is_object_def Let_def)

lemma normalize_ids_frame [simp]:
  "ev_metadata (normalize_ids ev) = ev_metadata ev" "ev_project (normalize_ids ev) = ev_project ev"
  "ev_received_at (normalize_ids ev) = ev_received_at ev" "ev_id (normalize_ids ev) = ev_id ev"
  "ev_ts (normalize_ids ev) = ev_ts ev" "ev_provider (normalize_ids ev) = ev_provider ev"
  "ev_model (normalize_ids ev) = ev_model ev" "ev_input (normalize_ids ev) = ev_input ev"
  "ev_output (normalize_ids ev) = ev_output ev" "ev_cost_usd (normalize_ids ev) = ev_cost_usd ev"
  by (simp_all add: normalize_ids_def)

lemma stamp_api_key_frame [simp]:
  "ev_project (stamp_api_key ev k) = ev_project ev" "ev_received_at (stamp_api_key ev k) = ev_received_at ev"
  "ev_id (stamp_api_key ev k) = ev_id ev" "ev_ts (stamp_api_key ev k) = ev_ts ev"
  "ev_provider (stamp_api_key ev k) = ev_provider ev" "ev_model (stamp_api_key ev k) = ev_model ev"
  "ev_input (stamp_api_key ev k) = ev_input ev" "ev_output (stamp_api_key ev k) = ev_output ev"
  "ev_cost_usd (stamp_api_key ev k) = ev_cost_usd ev"
  by (simp_all add: stamp_api_key_def split: option.splits)

text \<open>The event as validation sees it.\<close>

definition stamped :: "llm_event \<Rightarrow> string \<Rightarrow> string option \<Rightarrow> string \<Rightarrow> instant \<Rightarrow> llm_event" where
  "stamped ev0 pid key_id new_id now =
     (let ev = ev0\<lparr>ev_project := pid, ev_received_at := now\<rparr>;
          ev = (if str_trim (ev_id ev) = [] then ev\<lparr>ev_id := new_id\<rparr> else ev)
      in stamp_api_key (normalize_ids ev) key_id)"

lemma stamped_frame:
  "ev_project (stamped ev0 pid k i now) = pid" "ev_received_at (stamped ev0 pid k i now) = now"
  "ev_id (stamped ev0 pid k i now) = (if str_trim (ev_id ev0) = [] then i else ev_id ev0)"
  "ev_ts (stamped ev0 pid k i now) = ev_ts ev0" "ev_provider (stamped ev0 pid k i now) = ev_provider ev0"
  "ev_model (stamped ev0 pid k i now) = ev_model ev0" "ev_input (stamped ev0 pid k i now) = ev_input ev0"
  "ev_output (stamped ev0 pid k i now) = ev_output ev0" "ev_cost_usd (stamped ev0 pid k i now) = ev_cost_usd ev0"
  "meta_get (ev_metadata (stamped ev0 pid k i now)) x =
     (if x = ''api_key_id'' then (case ev_metadata ev0 of MdOther _ \<Rightarrow> None | _ \<Rightarrow> map_option MvText k)
      else meta_get (ev_metadata ev0) x)"
  by (auto simp: stamped_def stamp_api_key_def Let_def split: option.splits metadata.splits)

lemma stamped_counts:
  "ev_cached_input (stamped ev0 pid k i now) = ev_cached_input ev0"
  "ev_reasoning (stamped ev0 pid k i now) = ev_reasoning ev0" "ev_tags (stamped ev0 pid k i now) = ev_tags ev0"
  by (simp_all add: stamped_def stamp_api_key_def normalize_ids_def Let_def split: option.splits)

lemma scrub_all_none:
  "\<forall>t \<in> set ts. fst (f t) = t \<Longrightarrow> fst (scrub_all_in f ts) = ts"
  by (induction ts) (auto simp: case_prod_beta Let_def)

lemma apply_class_tags:
  assumes "\<forall>x. \<not> re_panics e x" and "\<forall>t \<in> set (ev_tags ev). fst (re_scrub_string e t) = t"
  shows "ev_tags (apply_class e r ev p) = ev_tags ev"
  using assms scrub_all_none [of "ev_tags ev" "re_scrub_string e"]
  by (cases p) (simp_all add: apply_class_def redact_event_def write_stamp_def scrub_event_def
      apply_policy_def strip_client_stamp_def case_prod_beta Let_def)

lemma prepare_event_stages:
  "prepare_event e cfg ev0 pid key_id p new_id now =
     (let ev = stamped ev0 pid key_id new_id now in
      case validate_event (dc_policy cfg) ev now of
        Inl r \<Rightarrow> Inl r
      | Inr _ \<Rightarrow> (let ev' = apply_class e (dc_redactor cfg) ev p in
          Inr (normalize_failure_class (mark_cost_source (ensure_cost ev' (dc_prices cfg)) (ev_cost_usd ev0 \<noteq> None)))))"
  by (simp add: prepare_event_def stamped_def Let_def apply_class_frame split: sum.splits)

lemma prepare_event_Inr:
  assumes "prepare_event e cfg ev0 pid key_id p new_id now = Inr ev"
  shows "ev = normalize_failure_class (mark_cost_source
      (ensure_cost (apply_class e (dc_redactor cfg) (stamped ev0 pid key_id new_id now) p) (dc_prices cfg))
      (ev_cost_usd ev0 \<noteq> None))"
  using assms by (auto simp: prepare_event_stages Let_def split: sum.splits)

lemma prepared_frame:
  assumes "prepare_event e cfg ev0 pid key_id p new_id now = Inr ev"
  shows "ev_project ev = pid" "ev_received_at ev = now"
    "ev_id ev = (if str_trim (ev_id ev0) = [] then new_id else ev_id ev0)"
    "ev_ts ev = ev_ts ev0" "ev_provider ev = ev_provider ev0" "ev_model ev = ev_model ev0"
    "ev_input ev = ev_input ev0" "ev_output ev = ev_output ev0"
  unfolding prepare_event_Inr [OF assms]
  by (simp_all add: stamp_frame ensure_cost_frame apply_class_frame stamped_frame)

text \<open>The keys the walk leaves alone arrive as they were stamped.\<close>

lemma prepared_key:
  assumes "prepare_event e cfg ev0 pid key_id p new_id now = Inr ev" and "\<forall>x. \<not> re_panics e x"
    and "k \<in> {''api_key_id'', ''customer_id'', ''product_id'', ''pricing_mode''}"
  shows "meta_get (ev_metadata ev) k = meta_get (ev_metadata (stamped ev0 pid key_id new_id now)) k"
    "meta_get (ev_metadata (apply_class e (dc_redactor cfg) (stamped ev0 pid key_id new_id now) p)) k
      = meta_get (ev_metadata (stamped ev0 pid key_id new_id now)) k"
proof -
  let ?s = "stamped ev0 pid key_id new_id now"
  let ?c = "ensure_cost (apply_class e (dc_redactor cfg) ?s p) (dc_prices cfg)"
  have k: "k \<in> set METADATA_PASSTHROUGH" "k \<noteq> REDACTION_KEY" "k \<noteq> FAILURE_CLASS_KEY" "k \<noteq> ''cost_source''"
    using assms(3) by (auto simp: METADATA_PASSTHROUGH_def REDACTION_KEY_def FAILURE_CLASS_KEY_def)
  show walk: "meta_get (ev_metadata (apply_class e (dc_redactor cfg) ?s p)) k = meta_get (ev_metadata ?s) k"
    by (rule apply_class_metadata [OF _ k(1,2)]) (use assms(2) in blast)
  have "is_object (ev_metadata ?c)" by (simp only: ensure_cost_frame apply_class_frame)
  from stamp_metadata [OF this k(3)] have "meta_get (ev_metadata ev) k = meta_get (ev_metadata ?c) k"
    unfolding prepare_event_Inr [OF assms(1)] using k(4) by simp
  also have "\<dots> = meta_get (ev_metadata (apply_class e (dc_redactor cfg) ?s p)) k"
    by (simp only: ensure_cost_frame)
  finally show "meta_get (ev_metadata ev) k = meta_get (ev_metadata ?s) k" using walk by simp
qed


text \<open>
  Where a cost comes from. A cost the client reports is stored as it is and marked the client's;
  otherwise, where the walk finds nothing in the tags, the event is stored with what the book charges
  for the call as it was sent, and marked the book's when there is a price, whatever source the client
  wrote beside it.
\<close>

theorem cost_provenance:
  assumes "prepare_event e cfg ev0 pid key_id p new_id now = Inr ev" and "\<forall>x. \<not> re_panics e x"
    and "\<forall>t \<in> set (ev_tags ev0). fst (re_scrub_string e t) = t"
  shows "ev_cost_usd ev = ev_cost_usd (ensure_cost ev0 (dc_prices cfg))
    \<and> (ev_cost_usd ev \<noteq> None
        \<longrightarrow> cost_source ev = Some (if ev_cost_usd ev0 = None then ''book'' else ''client''))"
proof -
  let ?s = "stamped ev0 pid key_id new_id now"
  let ?a = "apply_class e (dc_redactor cfg) ?s p"
  let ?c = "ensure_cost ?a (dc_prices cfg)"
  have cost: "ev_cost_usd ev = ev_cost_usd ?c"
    unfolding prepare_event_Inr [OF assms(1)] by (simp only: stamp_frame)
  have "event_pricing_mode ?a = event_pricing_mode ev0"
    using prepared_key(2) [OF assms(1,2), of "''pricing_mode''"]
      apply_class_tags [OF assms(2), of ?s] assms(3)
    by (simp add: event_pricing_mode_def pricing_mode_from_hints_def meta_str_def stamped_frame stamped_counts)
  then have same: "ev_cost_usd ?c = ev_cost_usd (ensure_cost ev0 (dc_prices cfg))"
    by (simp add: ensure_cost_def event_usage_def apply_class_frame stamped_frame stamped_counts)
  have "is_object (ev_metadata ?c)" by (simp only: ensure_cost_frame apply_class_frame)
  from stamp_metadata [OF this, of "''cost_source''"]
  have "ev_cost_usd ?c \<noteq> None \<longrightarrow> cost_source ev = Some (if ev_cost_usd ev0 = None then ''book'' else ''client'')"
    unfolding prepare_event_Inr [OF assms(1)] by (simp add: cost_source_def meta_str_def FAILURE_CLASS_KEY_def)
  then show ?thesis using cost same by simp
qed

section \<open>Witnesses\<close>

text \<open>A walk that finds nothing to scrub, and a door with an empty book.\<close>

definition clean_env :: redact_env where
  "clean_env = \<lparr>re_sha256 = (\<lambda>_. ''0''), re_scrub_string = (\<lambda>s. (s, 0)), re_scrub_value = (\<lambda>v. (v, 0)),
     re_stamp = (\<lambda>_ _ _. []), re_panics = (\<lambda>_. False)\<rparr>"

definition plain_door :: door_config where
  "plain_door = \<lparr>dc_policy = ingest_policy_from_env None None None True,
     dc_redactor = \<lparr>rd_mode = RmAll, rd_defaulted = True\<rparr>, dc_prices = \<lparr>pb_entries = [], pb_tiers = [], pb_aliases = [], pb_verified_at = None\<rparr>\<rparr>"

text \<open>A call that names another key as its own and reports a negative cost.\<close>

definition forged_event :: llm_event where
  "forged_event = sample_event\<lparr>ev_cost_usd := Some (Fin (-1)), ev_metadata := MdObject [(''api_key_id'', MvText ''other'')]\<rparr>"

lemma forged_prepares:
  "\<exists>ev. prepare_event clean_env plain_door forged_event ''p'' (Some ''k1'') RedactNone ''fresh'' 1000 = Inr ev"
proof -
  have "validate_event (dc_policy plain_door) (stamped forged_event ''p'' (Some ''k1'') ''fresh'' 1000) 1000 = Inr ()"
    by (simp add: validate_event_def stamped_frame stamped_def forged_event_def sample_event_def normalize_ids_def
        stamp_api_key_def plain_door_def ingest_policy_from_env_def usage_check_def check_subcounts_def
        event_usage_def opt_within_bound_def num_seconds_def Let_def) code_simp
  then show ?thesis by (simp add: prepare_event_stages Let_def)
qed


text \<open>No check looks at the sign of a reported cost: it reaches the store and lowers the window's total.\<close>

lemma cost_provenance_witness:
  "\<exists>ev. prepare_event clean_env plain_door forged_event ''p'' (Some ''k1'') RedactNone ''fresh'' 1000 = Inr ev
     \<and> ev_cost_usd ev = Some (Fin (-1)) \<and> cost_source ev = Some ''client''"
proof -
  obtain ev where ev: "prepare_event clean_env plain_door forged_event ''p'' (Some ''k1'') RedactNone ''fresh'' 1000 = Inr ev"
    using forged_prepares by blast
  have "\<forall>x. \<not> re_panics clean_env x" "\<forall>t \<in> set (ev_tags forged_event). fst (re_scrub_string clean_env t) = t"
    by (simp_all add: clean_env_def)
  from cost_provenance [OF ev this] ev show ?thesis by (simp add: forged_event_def ensure_cost_def)
qed

end
