(* ===== verification/IngestRetry.thy ===== *)
theory IngestRetry
  imports IngestDoor
begin

text \<open>
  Retries at the single-event door: what \<open>post_event\<close> answers, and what it leaves in the store, when
  the id it is sent is already taken, by the same call or by another.
\<close>

lemma validate_not_conflict: "validate_event pol ev now = Inl x \<Longrightarrow> x \<noteq> EcConflict"
  by (auto simp: validate_event_def usage_check_def Let_def split: if_splits sum.splits)

lemma prepare_not_conflict:
  "prepare_event e cfg ev0 pid key_id p new_id now = Inl x \<Longrightarrow> x \<noteq> EcConflict"
  by (auto simp: prepare_event_stages Let_def split: sum.splits dest: validate_not_conflict)

lemma refuse_store_not_recorded: "refuse_store x \<noteq> Recorded i p q t br" "refuse_store x \<noteq> Replayed i p q t"
  by (cases x; simp)+

text \<open>An id in the table: the insert fails, or admission turned the event away before it.\<close>

lemma insert_checked_taken:
  assumes "insert_checked db c ev now = (res, db', c')" and "\<exists>r \<in> set (db_events db). er_id r = ev_id ev"
  shows "db' = db \<and> (\<forall>a. res = Inr a \<longrightarrow> \<not> ad_admitted a)"
  using assms
  by (auto simp: insert_checked_def insert_checked_with_rules_def event_insert_def
      split: sum.splits prod.splits if_splits)

lemma event_get_id:
  assumes "event_get t p i = Some s"
  shows "ev_id s = i" and "\<exists>r \<in> set t. er_id r = i"
proof -
  obtain r where r: "find (\<lambda>r. er_id r = i \<and> (case p of None \<Rightarrow> True | Some p \<Rightarrow> er_project r = p)) t = Some r"
    and s: "s = event_from_raw r" using assms by (auto simp: event_get_def)
  from r have "r \<in> set t" "er_id r = i" by (auto simp: find_Some_iff)
  then show "ev_id s = i" "\<exists>r \<in> set t. er_id r = i" using s by (auto simp: event_from_raw_def)
qed

text \<open>The steps of the door that reach the store.\<close>

lemma post_event_reaches:
  assumes "post_event e cfg who pf rf new_id t1 t2 db c ev0 = (reply, db', c')"
    and "resolve_ingest_project who (ev_project ev0) = Inr pid" and "pf pid = Inr pol" and "po_enabled pol"
    and "prepare_event e cfg ev0 pid (principal_key_id who) (po_redaction pol) new_id t1 = Inr ev"
    and "insert_checked db c ev t2 = (res, db2, c2)"
  shows "db' = db2 \<and> reply = (case res of
      Inr a \<Rightarrow> (if ad_admitted a then Recorded (ev_id ev) pid (ev_cost_usd ev) (ev_ts ev) (filter ls_breached (ad_statuses a))
               else RateLimited (ad_retry_after a))
    | Inl (SeConflict m) \<Rightarrow> if rf (ev_id ev) then Refused EcInternal else
        (case event_get (db_events db2) (Some (ev_project ev)) (ev_id ev) of
           Some s \<Rightarrow> if same_logical_event s ev then Replayed (ev_id ev) pid (ev_cost_usd s) (ev_ts s) else Refused EcConflict
         | None \<Rightarrow> Refused EcConflict)
    | Inl x \<Rightarrow> refuse_store x)"
  using assms by (auto simp: post_event_def split: sum.splits store_error.splits option.splits if_splits)

lemma post_event_stops:
  assumes "post_event e cfg who pf rf new_id t1 t2 db c ev0 = (reply, db', c')"
  obtains (early) x where "reply = Refused x" "db' = db"
      "\<And>pid pol. resolve_ingest_project who (ev_project ev0) = Inr pid \<Longrightarrow> pf pid = Inr pol \<Longrightarrow> po_enabled pol
        \<Longrightarrow> x \<noteq> EcConflict"
  | (reaches) pid pol ev res c2 where "resolve_ingest_project who (ev_project ev0) = Inr pid" "pf pid = Inr pol"
      "po_enabled pol" "prepare_event e cfg ev0 pid (principal_key_id who) (po_redaction pol) new_id t1 = Inr ev"
      "insert_checked db c ev t2 = (res, db', c2)"
proof (cases "resolve_ingest_project who (ev_project ev0)")
  case (Inl x)
  then show ?thesis using assms by (intro early [of x]) (auto simp: post_event_def)
next
  case pid: (Inr pid)
  show ?thesis
  proof (cases "pf pid")
    case (Inl x)
    then show ?thesis using assms pid by (intro early [of x]) (auto simp: post_event_def)
  next
    case pol: (Inr pol)
    show ?thesis
    proof (cases "po_enabled pol")
      case False
      then show ?thesis using assms pid pol by (intro early [of EcProjectDisabled]) (auto simp: post_event_def)
    next
      case on: True
      show ?thesis
      proof (cases "prepare_event e cfg ev0 pid (principal_key_id who) (po_redaction pol) new_id t1")
        case (Inl x)
        then show ?thesis using assms pid pol on prepare_not_conflict [OF Inl] by (intro early [of x]) (auto simp: post_event_def)
      next
        case ev: (Inr ev)
        obtain res db2 c2 where ins: "insert_checked db c ev t2 = (res, db2, c2)"
          by (cases "insert_checked db c ev t2") auto
        from post_event_reaches [OF assms pid pol on ev ins] have "db' = db2" by simp
        with pid pol on ev ins reaches show ?thesis by blast
      qed
    qed
  qed
qed

section \<open>An id is recorded once\<close>

lemma taken_id:
  assumes "post_event e cfg who pf rf new_id t1 t2 db c ev0 = (reply, db', c')"
    and "str_trim (ev_id ev0) \<noteq> []" and "\<exists>r \<in> set (db_events db). er_id r = ev_id ev0"
  shows "db' = db \<and> (\<nexists>i p q t br. reply = Recorded i p q t br)
    \<and> (\<forall>i p q t. reply = Replayed i p q t \<longrightarrow>
         (\<exists>s. event_get (db_events db) (Some p) i = Some s \<and> i = ev_id ev0 \<and> ev_project s = p
            \<and> ev_ts s = ev_ts ev0 \<and> ev_model s = ev_model ev0 \<and> ev_input s = ev_input ev0
            \<and> ev_output s = ev_output ev0 \<and> q = ev_cost_usd s))"
  using assms(1)
proof (cases rule: post_event_stops)
  case early
  then show ?thesis by simp
next
  case (reaches pid pol ev res c2)
  note frame = prepared_frame [OF reaches(4)]
  have "ev_id ev = ev_id ev0" using frame(3) assms(2) by simp
  then have taken: "db' = db" "\<forall>a. res = Inr a \<longrightarrow> \<not> ad_admitted a"
    using insert_checked_taken [OF reaches(5)] assms(3) by auto
  show ?thesis
    using post_event_reaches [OF assms(1) reaches] taken frame assms(2)
    by (auto simp: refuse_store_not_recorded same_logical_event_def split: sum.splits store_error.splits
        option.splits if_splits)
qed

lemma id_taken_unchanged:
  assumes "post_event e cfg who pf rf new_id t1 t2 db c ev0 = (reply, db', c')"
    and "str_trim (ev_id ev0) \<noteq> []" and "\<exists>r \<in> set (db_events db). er_id r = ev_id ev0"
  shows "db' = db"
  using taken_id [OF assms] by blast

text \<open>
  C26: an id is recorded once. An event sent under an id the store already holds never changes the
  store and is never answered as recorded; it is acknowledged as a replay only where the stored event
  is the same call of the same project.
\<close>

theorem id_recorded_once:
  assumes "post_event e cfg who pf rf new_id t1 t2 db c ev0 = (reply, db', c')"
    and "str_trim (ev_id ev0) \<noteq> []" and "\<exists>r \<in> set (db_events db). er_id r = ev_id ev0"
  shows "db' = db \<and> (\<nexists>i p q t br. reply = Recorded i p q t br)
    \<and> (\<forall>i p q t. reply = Replayed i p q t \<longrightarrow>
         (\<exists>s. event_get (db_events db) (Some p) i = Some s \<and> i = ev_id ev0 \<and> ev_project s = p
            \<and> ev_ts s = ev_ts ev0 \<and> ev_model s = ev_model ev0 \<and> ev_input s = ev_input ev0
            \<and> ev_output s = ev_output ev0 \<and> q = ev_cost_usd s))"
  using assms by (rule taken_id)

section \<open>A retry is acknowledged\<close>

lemma event_get_append:
  "event_get t p i = Some s \<Longrightarrow> event_get (t @ t') p i = Some s"
proof -
  assume "event_get t p i = Some s"
  moreover have "find P t = Some r \<Longrightarrow> find P (t @ t') = Some r" for P r by (induction t) auto
  ultimately show ?thesis by (auto simp: event_get_def)
qed

text \<open>
  A retry is acknowledged. Once an event with an id of its own was recorded, sending the same body
  again as the same principal, to a store that has only grown since, changes nothing and is never
  refused as a conflict: it is acknowledged with the id, project, cost and time first recorded,
  whatever the price book and the redactor have become, unless admission turns it away first (it runs
  before the id is looked up, so at a cap the answer is a rate limit), the event has left the
  window of accepted timestamps meanwhile, or the store fails to answer.
\<close>

theorem retry_acknowledged:
  assumes "post_event e cfg who pf rf new_id t1 t2 db c ev0 = (Recorded i pid cost ts br, db1, c1)"
    and "str_trim (ev_id ev0) \<noteq> []" and "provider_id (ev_provider ev0) = ev_provider ev0"
    and "db_events db2 = db_events db1 @ later"
    and "post_event e' cfg' who pf rf' new_id' t3 t4 db2 c2 ev0 = (reply, db3, c3)"
  shows "db3 = db2 \<and> (case reply of
      Replayed i' p' cost' ts' \<Rightarrow> i' = i \<and> p' = pid \<and> cost' = cost \<and> ts' = ts
    | Recorded i' p' cost' ts' br' \<Rightarrow> False
    | RateLimited w \<Rightarrow> True
    | Refused x \<Rightarrow> x \<noteq> EcConflict)"
  using assms(1)
proof (cases rule: post_event_stops)
  case early
  then show ?thesis by simp
next
  case (reaches pid' pol ev res k)
  note frame = prepared_frame [OF reaches(4)]
  have id: "ev_id ev = ev_id ev0" using frame(3) assms(2) by simp
  obtain a where a: "res = Inr a" "ad_admitted a" "i = ev_id ev" "pid = pid'" "cost = ev_cost_usd ev" "ts = ev_ts ev"
    using post_event_reaches [OF assms(1) reaches]
    by (auto simp: refuse_store_not_recorded split: sum.splits store_error.splits option.splits if_splits)
  have "event_insert (db_events db) ev = Inr (db_events db1)"
    using reaches(5) a(1,2)
    by (auto simp: insert_checked_def insert_checked_with_rules_def split: sum.splits prod.splits if_splits)
  moreover have "provider_id (ev_provider ev) = ev_provider ev" using frame(5) assms(3) by simp
  ultimately have "event_get (db_events db1) (Some pid') (ev_id ev0) = Some ev"
    using event_insert_reads frame(1) id by metis
  then have stored: "event_get (db_events db2) (Some pid') (ev_id ev0) = Some ev"
    unfolding assms(4) by (rule event_get_append)
  show ?thesis
    using assms(5)
  proof (cases rule: post_event_stops)
    case (early x)
    then show ?thesis using reaches(1-3) by simp
  next
    case again: (reaches pid'' pol' ev' res' k')
    note frame' = prepared_frame [OF again(4)]
    have same: "pid'' = pid'" "pol' = pol" using again(1,2) reaches(1,2) by simp_all
    have id': "ev_id ev' = ev_id ev0" using frame'(3) assms(2) by simp
    have taken: "db3 = db2" "\<forall>a. res' = Inr a \<longrightarrow> \<not> ad_admitted a"
      using insert_checked_taken [OF again(5)] event_get_id(2) [OF stored] id' by auto
    have "same_logical_event ev ev'"
      using frame frame' same by (simp add: same_logical_event_def)
    then show ?thesis
      using post_event_reaches [OF assms(5) again] taken stored frame(4) frame'(1) same id id' a
      by (auto split: sum.splits store_error.splits)
  qed
qed

section \<open>Witnesses\<close>

text \<open>A project with no rule, reached by one key.\<close>

definition open_db :: database where
  "open_db = \<lparr>db_events = [], db_rules = [], db_revenue = []\<rparr>"

definition project_key :: principal where
  "project_key = PrProject ''p'' ''k1'' [KsIngest]"

definition open_policy :: "string \<Rightarrow> error_code + project_policy" where
  "open_policy p = Inr \<lparr>po_enabled = True, po_redaction = RedactNone\<rparr>"

lemma no_rules_admit:
  assumes "enabled_rules db (ev_project ev) = []" and "event_insert (db_events db) ev = Inr t"
  shows "insert_checked db c ev now = (Inr (from_statuses []), db\<lparr>db_events := t\<rparr>, c)"
    and "ad_admitted (from_statuses [])"
  using assms
  by (simp_all add: insert_checked_def insert_checked_with_rules_def evaluate_admission_at_def
      from_statuses_admitted resolve_all_def)

lemma open_post:
  "\<exists>cost ts db' c'. post_event clean_env plain_door project_key open_policy (\<lambda>_. False) ''fresh'' 1000 1000 open_db [] forged_event
     = (Recorded ''e1'' ''p'' cost ts [], db', c') \<and> map er_id (db_events db') = [''e1'']"
proof -
  obtain ev where ev: "prepare_event clean_env plain_door forged_event ''p'' (Some ''k1'') RedactNone ''fresh'' 1000 = Inr ev"
    using forged_prepares by blast
  have id: "ev_id ev = ''e1''"
    using prepared_frame(3) [OF ev] by (simp add: forged_event_def sample_event_def) code_simp
  have ins: "event_insert (db_events open_db) ev = Inr [row_of_event (next_rowid []) ev]"
    by (simp add: event_insert_def open_db_def)
  have "enabled_rules open_db (ev_project ev) = []" by (simp add: enabled_rules_def open_db_def)
  note adm = no_rules_admit [OF this ins]
  have way: "resolve_ingest_project project_key (ev_project forged_event) = Inr ''p''"
    "open_policy ''p'' = Inr \<lparr>po_enabled = True, po_redaction = RedactNone\<rparr>"
    "principal_key_id project_key = Some ''k1''"
    by (simp_all add: project_key_def open_policy_def)
  show ?thesis
    using way ev adm id
    by (simp add: post_event_def from_statuses_def row_of_event_def)
qed

lemma id_recorded_once_witness:
  "\<exists>reply c'. post_event clean_env plain_door project_key open_policy (\<lambda>_. False) ''fresh'' 1000 1000
       (open_db\<lparr>db_events := [row_of_event 1 sample_event]\<rparr>) [] forged_event
     = (reply, open_db\<lparr>db_events := [row_of_event 1 sample_event]\<rparr>, c')
   \<and> (\<nexists>i p q t br. reply = Recorded i p q t br)"
proof -
  let ?db = "open_db\<lparr>db_events := [row_of_event 1 sample_event]\<rparr>"
  obtain reply db' c' where post: "post_event clean_env plain_door project_key open_policy (\<lambda>_. False) ''fresh'' 1000 1000 ?db []
      forged_event = (reply, db', c')"
    by (cases "post_event clean_env plain_door project_key open_policy (\<lambda>_. False) ''fresh'' 1000 1000 ?db [] forged_event") auto
  have "str_trim (ev_id forged_event) \<noteq> []" by (simp add: forged_event_def sample_event_def) code_simp
  moreover have "\<exists>r \<in> set (db_events ?db). er_id r = ev_id forged_event"
    by (simp add: forged_event_def row_of_event_def)
  ultimately show ?thesis using id_recorded_once [OF post] post by auto
qed

lemma retry_acknowledged_witness:
  "\<exists>db1 c1 cost ts reply c3.
     post_event clean_env plain_door project_key open_policy (\<lambda>_. False) ''fresh'' 1000 1000 open_db [] forged_event
       = (Recorded ''e1'' ''p'' cost ts [], db1, c1)
   \<and> post_event clean_env plain_door project_key open_policy (\<lambda>_. False) ''later'' 2000 2000 db1 c1 forged_event = (reply, db1, c3)"
proof -
  obtain cost ts db1 c1 where first: "post_event clean_env plain_door project_key open_policy (\<lambda>_. False) ''fresh'' 1000 1000 open_db []
      forged_event = (Recorded ''e1'' ''p'' cost ts [], db1, c1)"
    using open_post by blast
  obtain reply db3 c3 where again: "post_event clean_env plain_door project_key open_policy (\<lambda>_. False) ''later'' 2000 2000 db1 c1
      forged_event = (reply, db3, c3)"
    by (cases "post_event clean_env plain_door project_key open_policy (\<lambda>_. False) ''later'' 2000 2000 db1 c1 forged_event") auto
  have "str_trim (ev_id forged_event) \<noteq> []" by (simp add: forged_event_def sample_event_def) code_simp
  moreover have "provider_id (ev_provider forged_event) = ev_provider forged_event"
    by (simp add: forged_event_def sample_event_def) code_simp
  ultimately show ?thesis
    using retry_acknowledged [OF first _ _ _ again, of "[]"] first again by auto
qed

end
