(* ===== verification/Proximity.thy ===== *)
theory Proximity
  imports UsageLedger
begin

text \<open>
  The position of a project against its caps, as every ingest door reports it
  (\<^verbatim>\<open>crates/api/src/ingest_proximity.rs\<close>): the worst ratio among the rules that applied, the rule and
  scope it belongs to, the strongest shedding and the longest wait, of one admission and folded over
  the items of a batch.
\<close>

record proximity =
  px_usage_ratio :: "f64 option"
  px_shed_fraction :: "f64 option"
  px_retry_after_secs :: "nat option"
  px_binding_scope :: "(string \<times> string) option"
  px_binding_rule :: "string option"

definition proximity_default :: proximity where
  "proximity_default = \<lparr>px_usage_ratio = None, px_shed_fraction = None, px_retry_after_secs = None,
     px_binding_scope = None, px_binding_rule = None\<rparr>"

definition worst_of :: "f64 list \<Rightarrow> f64 option" where
  "worst_of rs = foldl (\<lambda>a r. Some (case a of None \<Rightarrow> r | Some x \<Rightarrow> fmax x r)) None rs"

definition binding_of :: "limit_status list \<Rightarrow> limit_status option" where
  "binding_of sts = foldl (\<lambda>best s. case best of
       Some b \<Rightarrow> if ls_ratio s \<le> ls_ratio b then Some b else Some s
     | None \<Rightarrow> Some s) None sts"

definition proximity_of :: "limit_status list \<Rightarrow> proximity" where
  "proximity_of sts = \<lparr>px_usage_ratio = worst_of (map ls_ratio sts),
     px_shed_fraction = (case worst_of (map ls_shed_fraction sts) of
        Some f \<Rightarrow> if 0 < f then Some f else None | None \<Rightarrow> None),
     px_retry_after_secs = None,
     px_binding_scope = (case binding_of sts of
        Some b \<Rightarrow> map_option (\<lambda>sc. (scope_kind_str sc, scope_value sc)) (ls_scope b) | None \<Rightarrow> None),
     px_binding_rule = map_option ls_rule_id (binding_of sts)\<rparr>"

definition max_opt :: "f64 option \<Rightarrow> f64 option \<Rightarrow> f64 option" where
  "max_opt a b = (case (a, b) of (Some x, Some y) \<Rightarrow> Some (fmax x y) | (None, b) \<Rightarrow> b | (a, None) \<Rightarrow> a)"

definition proximity_merge :: "proximity \<Rightarrow> proximity \<Rightarrow> proximity" where
  "proximity_merge p q =
     (let ratio = max_opt (px_usage_ratio p) (px_usage_ratio q);
          raised = (case (px_usage_ratio q, ratio) of (Some y, Some x) \<Rightarrow> x \<le> y | (Some y, None) \<Rightarrow> True | (None, _) \<Rightarrow> False)
      in \<lparr>px_usage_ratio = ratio,
          px_shed_fraction = max_opt (px_shed_fraction p) (px_shed_fraction q),
          px_retry_after_secs = (case (px_retry_after_secs p, px_retry_after_secs q) of
             (Some x, Some y) \<Rightarrow> Some (max x y) | (None, b) \<Rightarrow> b | (a, None) \<Rightarrow> a),
          px_binding_scope = (if raised then px_binding_scope q else px_binding_scope p),
          px_binding_rule = (if raised then px_binding_rule q else px_binding_rule p)\<rparr>)"

text \<open>Whether there is anything to put on the wire.\<close>

definition proximity_is_empty :: "proximity \<Rightarrow> bool" where
  "proximity_is_empty p \<longleftrightarrow> px_usage_ratio p = None \<and> px_shed_fraction p = None \<and> px_retry_after_secs p = None"

section \<open>The rule a position names\<close>

text \<open>
  What a position says of the statuses it was read from: nothing where there are none, otherwise the
  ratio, the rule and the scope of one of them, none of the others being worse.
\<close>

definition names_worst :: "proximity \<Rightarrow> limit_status list \<Rightarrow> bool" where
  "names_worst p sts \<longleftrightarrow>
     (if sts = [] then px_usage_ratio p = None \<and> px_binding_rule p = None \<and> px_binding_scope p = None
      else \<exists>s \<in> set sts. px_usage_ratio p = Some (ls_ratio s) \<and> px_binding_rule p = Some (ls_rule_id s)
        \<and> px_binding_scope p = map_option (\<lambda>sc. (scope_kind_str sc, scope_value sc)) (ls_scope s)
        \<and> (\<forall>s' \<in> set sts. ls_ratio s' \<le> ls_ratio s))"

lemma worst_of_snoc: "worst_of (xs @ [x]) = Some (case worst_of xs of None \<Rightarrow> x | Some a \<Rightarrow> fmax a x)"
  by (simp add: worst_of_def)

lemma binding_of_snoc:
  "binding_of (xs @ [s]) = (case binding_of xs of
     Some b \<Rightarrow> if ls_ratio s \<le> ls_ratio b then Some b else Some s | None \<Rightarrow> Some s)"
  by (simp add: binding_of_def)

lemma f64_le_total: "x \<noteq> NaN \<Longrightarrow> y \<noteq> NaN \<Longrightarrow> \<not> x \<le> y \<Longrightarrow> y \<le> (x :: f64)"
  by (simp add: f64_not_le f64_less_imp_le)

lemma fmax_eq: "a \<noteq> NaN \<Longrightarrow> b \<noteq> NaN \<Longrightarrow> fmax a b = (if b \<le> a then a else b)"
  by (auto simp: fmax_def f64_not_le [symmetric])

lemma binding_of_worst:
  assumes "\<forall>s \<in> set sts. ls_ratio s \<noteq> NaN" and "sts \<noteq> []"
  shows "\<exists>s \<in> set sts. binding_of sts = Some s \<and> worst_of (map ls_ratio sts) = Some (ls_ratio s)
    \<and> (\<forall>s' \<in> set sts. ls_ratio s' \<le> ls_ratio s)"
  using assms
proof (induction sts rule: rev_induct)
  case (snoc x xs)
  show ?case
  proof (cases "xs = []")
    case True
    then show ?thesis using snoc.prems by (simp add: binding_of_def worst_of_def f64_le_refl)
  next
    case False
    then obtain s where s: "s \<in> set xs" "binding_of xs = Some s" "worst_of (map ls_ratio xs) = Some (ls_ratio s)"
      "\<forall>s' \<in> set xs. ls_ratio s' \<le> ls_ratio s" using snoc by auto
    have num: "ls_ratio s \<noteq> NaN" "ls_ratio x \<noteq> NaN" using snoc.prems s(1) by auto
    show ?thesis
    proof (cases "ls_ratio x \<le> ls_ratio s")
      case True
      then show ?thesis using s num by (auto simp: binding_of_snoc worst_of_snoc fmax_eq)
    next
      case worse: False
      then have "ls_ratio s \<le> ls_ratio x" using num f64_le_total by blast
      then have "\<forall>s' \<in> set xs. ls_ratio s' \<le> ls_ratio x" using s(4) f64_le_trans by blast
      then show ?thesis using s num worse by (auto simp: binding_of_snoc worst_of_snoc fmax_eq f64_le_refl)
    qed
  qed
qed simp

lemma proximity_of_worst:
  assumes "\<forall>s \<in> set sts. ls_ratio s \<noteq> NaN"
  shows "names_worst (proximity_of sts) sts"
proof (cases "sts = []")
  case True
  then show ?thesis by (simp add: names_worst_def proximity_of_def worst_of_def binding_of_def)
next
  case False
  with binding_of_worst [OF assms] show ?thesis by (force simp: names_worst_def proximity_of_def)
qed

lemma names_worst_wait [simp]: "names_worst (p\<lparr>px_retry_after_secs := w\<rparr>) sts = names_worst p sts"
  by (simp add: names_worst_def)

lemma merge_worst:
  assumes "names_worst p xs" and "names_worst q ys" and "\<forall>s \<in> set (xs @ ys). ls_ratio s \<noteq> NaN"
  shows "names_worst (proximity_merge p q) (xs @ ys)"
proof (cases "xs = [] \<or> ys = []")
  case True
  then show ?thesis
    using assms by (auto simp: names_worst_def proximity_merge_def max_opt_def Let_def f64_le_refl split: if_splits)
next
  case False
  obtain s where s: "s \<in> set xs" "px_usage_ratio p = Some (ls_ratio s)" "px_binding_rule p = Some (ls_rule_id s)"
    "px_binding_scope p = map_option (\<lambda>sc. (scope_kind_str sc, scope_value sc)) (ls_scope s)"
    "\<forall>s' \<in> set xs. ls_ratio s' \<le> ls_ratio s" using assms(1) False by (auto simp: names_worst_def)
  obtain u where u: "u \<in> set ys" "px_usage_ratio q = Some (ls_ratio u)" "px_binding_rule q = Some (ls_rule_id u)"
    "px_binding_scope q = map_option (\<lambda>sc. (scope_kind_str sc, scope_value sc)) (ls_scope u)"
    "\<forall>s' \<in> set ys. ls_ratio s' \<le> ls_ratio u" using assms(2) False by (auto simp: names_worst_def)
  have num: "ls_ratio s \<noteq> NaN" "ls_ratio u \<noteq> NaN" using assms(3) s(1) u(1) by auto
  show ?thesis
  proof (cases "ls_ratio s \<le> ls_ratio u")
    case True
    then have "fmax (ls_ratio s) (ls_ratio u) = ls_ratio u" using num by (auto simp: fmax_eq dest: f64_antisym)
    moreover have "\<forall>s' \<in> set xs. ls_ratio s' \<le> ls_ratio u" using s(5) True f64_le_trans by blast
    ultimately show ?thesis
      using s u num False
      by (auto simp: names_worst_def proximity_merge_def max_opt_def Let_def f64_le_refl intro!: bexI [of _ u])
  next
    case worse: False
    then have le: "ls_ratio u \<le> ls_ratio s" using num f64_le_total by blast
    then have "fmax (ls_ratio s) (ls_ratio u) = ls_ratio s" using num le by (simp add: fmax_eq)
    moreover have "\<forall>s' \<in> set ys. ls_ratio s' \<le> ls_ratio s" using u(5) le f64_le_trans by blast
    ultimately show ?thesis
      using s u num False worse
      by (auto simp: names_worst_def proximity_merge_def max_opt_def Let_def intro!: bexI [of _ s])
  qed
qed

lemma merge_wait:
  "px_retry_after_secs (proximity_merge p q) = Some w \<longleftrightarrow>
     (px_retry_after_secs p = Some w \<and> (\<forall>v. px_retry_after_secs q = Some v \<longrightarrow> v \<le> w))
   \<or> (px_retry_after_secs q = Some w \<and> (\<forall>v. px_retry_after_secs p = Some v \<longrightarrow> v \<le> w))"
  by (auto simp: proximity_merge_def Let_def max_def split: option.splits)

text \<open>One request with many admissions: each item's statuses, and its wait where it was turned away.\<close>

definition batch_proximity :: "(limit_status list \<times> nat option) list \<Rightarrow> proximity" where
  "batch_proximity items = foldl (\<lambda>p (sts, w). proximity_merge p ((proximity_of sts)\<lparr>px_retry_after_secs := w\<rparr>))
     proximity_default items"

lemma batch_proximity_snoc:
  "batch_proximity (items @ [(sts, w)]) =
     proximity_merge (batch_proximity items) ((proximity_of sts)\<lparr>px_retry_after_secs := w\<rparr>)"
  by (simp add: batch_proximity_def)

text \<open>
  The position of a batch. The ratio a batch reports is the worst among all rules that applied to
  any of its items, the rule and the scope it names are that rule's, and the wait it asks for is that
  of an item that was turned away, no other item having to wait longer.
\<close>

theorem batch_position_worst:
  assumes "\<forall>s \<in> set (concat (map fst items)). ls_ratio s \<noteq> NaN"
  shows "names_worst (batch_proximity items) (concat (map fst items))
    \<and> (case px_retry_after_secs (batch_proximity items) of
         None \<Rightarrow> \<forall>i \<in> set items. snd i = None
       | Some w \<Rightarrow> Some w \<in> snd ` set items \<and> (\<forall>v. Some v \<in> snd ` set items \<longrightarrow> v \<le> w))"
  using assms
proof (induction items rule: rev_induct)
  case Nil
  then show ?case by (simp add: batch_proximity_def names_worst_def proximity_default_def)
next
  case (snoc i items)
  obtain sts w where i: "i = (sts, w)" by (cases i)
  have IH: "names_worst (batch_proximity items) (concat (map fst items))"
    "case px_retry_after_secs (batch_proximity items) of
         None \<Rightarrow> \<forall>i \<in> set items. snd i = None
       | Some w \<Rightarrow> Some w \<in> snd ` set items \<and> (\<forall>v. Some v \<in> snd ` set items \<longrightarrow> v \<le> w)"
    using snoc by auto
  have "names_worst (proximity_of sts) sts"
    by (rule proximity_of_worst) (use snoc.prems i in auto)
  then have "names_worst (batch_proximity (items @ [i])) (concat (map fst (items @ [i])))"
    using merge_worst [OF IH(1), of _ sts] snoc.prems i by (simp add: batch_proximity_snoc)
  moreover have "case px_retry_after_secs (batch_proximity (items @ [i])) of
         None \<Rightarrow> \<forall>i \<in> set (items @ [i]). snd i = None
       | Some w \<Rightarrow> Some w \<in> snd ` set (items @ [i]) \<and> (\<forall>v. Some v \<in> snd ` set (items @ [i]) \<longrightarrow> v \<le> w)"
    using IH(2) i
    by (cases "px_retry_after_secs (batch_proximity items)"; cases w)
       (auto simp: batch_proximity_snoc proximity_merge_def Let_def max_def image_iff split: prod.splits)
  ultimately show ?case by simp
qed

text \<open>A later item at the same ratio takes over the name of the binding rule though it raised nothing.\<close>

lemma tie_goes_to_later:
  assumes "px_usage_ratio p = Some r" "px_usage_ratio q = Some r" "r \<noteq> NaN"
  shows "px_binding_rule (proximity_merge p q) = px_binding_rule q"
  using assms by (simp add: proximity_merge_def max_opt_def fmax_eq f64_le_refl Let_def)

section \<open>Witness\<close>

definition sample_status :: "string \<Rightarrow> f64 \<Rightarrow> limit_status" where
  "sample_status i r = \<lparr>ls_rule_id = i, ls_project_id = ''p'', ls_metric = Calls, ls_window = Hour,
     ls_action = Block, ls_current = r, ls_threshold = 1, ls_breached = False, ls_ratio = r,
     ls_warn_at = None, ls_warning = False, ls_scope = None, ls_basis = basis_fixed,
     ls_cost_evidence = None, ls_shed_fraction = 0, ls_shedding = False\<rparr>"

lemma batch_position_worst_witness:
  "names_worst (batch_proximity [([sample_status ''a'' 0], None), ([sample_status ''b'' 1], Some 7)])
     [sample_status ''a'' 0, sample_status ''b'' 1]"
  using batch_position_worst [of "[([sample_status ''a'' 0], None), ([sample_status ''b'' 1], Some 7)]"]
  by (simp add: sample_status_def)

end
