(* ===== verification/IngestBatch.thy ===== *)
theory IngestBatch
  imports IngestRetry Proximity
begin

text \<open>
  The batch door (\<^verbatim>\<open>crates/api/src/events_batch.rs\<close>): every item is prepared first, the valid ones are
  admitted and inserted in one critical section, and each item of the request is answered in its own
  slot. The door is related to the single-event door: a batch that begins and commits is the items
  posted one after the other.
\<close>

section \<open>The batch door\<close>

datatype batch_item =
    BiAccepted nat string "f64 option" bool "limit_status list"
  | BiRejected nat string "limit_status list" "nat option" bool
  | BiInvalid nat "string option" error_code

fun item_index :: "batch_item \<Rightarrow> nat" where
  "item_index (BiAccepted i ident cost dup br) = i"
| "item_index (BiRejected i ident br w shed) = i"
| "item_index (BiInvalid i ident code) = i"

fun is_accepted :: "batch_item \<Rightarrow> bool" where
  "is_accepted (BiAccepted i ident cost dup br) = True"
| "is_accepted _ = False"

fun is_rejected :: "batch_item \<Rightarrow> bool" where
  "is_rejected (BiRejected i ident br w shed) = True"
| "is_rejected _ = False"

fun is_invalid :: "batch_item \<Rightarrow> bool" where
  "is_invalid (BiInvalid i ident code) = True"
| "is_invalid _ = False"

record batch_response =
  br_accepted :: nat
  br_rejected :: nat
  br_invalid :: nat
  br_results :: "batch_item list"
  br_proximity :: proximity

text \<open>\<open>BatchPanic\<close> is the \<^verbatim>\<open>expect\<close> on a slot nothing filled.\<close>

datatype batch_outcome = BatchRefused error_code | BatchAnswered batch_response | BatchPanic

definition DEFAULT_MAX_BATCH :: nat where
  "DEFAULT_MAX_BATCH = 500"

definition prepare_item :: "redact_env \<Rightarrow> door_config \<Rightarrow> principal \<Rightarrow> (string \<Rightarrow> error_code + project_policy)
    \<Rightarrow> string \<Rightarrow> instant \<Rightarrow> llm_event \<Rightarrow> error_code + llm_event" where
  "prepare_item e cfg who policy_for new_id now ev =
     (case resolve_ingest_project who (ev_project ev) of
        Inl _ \<Rightarrow> Inl EcBadRequest
      | Inr pid \<Rightarrow>
     (case policy_for pid of
        Inl _ \<Rightarrow> Inl EcInternal
      | Inr policy \<Rightarrow>
          if \<not> po_enabled policy then Inl EcProjectDisabled
          else prepare_event e cfg ev pid (principal_key_id who) (po_redaction policy) new_id now))"

text \<open>The slots of the results with those of the invalid items filled, and the valid items with their index.\<close>

fun prepare_items :: "redact_env \<Rightarrow> door_config \<Rightarrow> principal \<Rightarrow> (string \<Rightarrow> error_code + project_policy)
    \<Rightarrow> (nat \<Rightarrow> string) \<Rightarrow> (nat \<Rightarrow> instant) \<Rightarrow> nat \<Rightarrow> llm_event list
    \<Rightarrow> batch_item option list \<times> (nat \<times> llm_event) list" where
  "prepare_items e cfg who policy_for new_id t1 i [] = ([], [])"
| "prepare_items e cfg who policy_for new_id t1 i (ev # evs) =
     (let (slots, valid) = prepare_items e cfg who policy_for new_id t1 (Suc i) evs in
      case prepare_item e cfg who policy_for (new_id i) (t1 i) ev of
        Inr ev' \<Rightarrow> (None # slots, (i, ev') # valid)
      | Inl x \<Rightarrow> (Some (BiInvalid i (if ev_id ev = [] then None else Some (ev_id ev)) x) # slots, valid))"

definition answer_item :: "(string \<Rightarrow> bool) \<Rightarrow> event_row list \<Rightarrow> nat \<Rightarrow> llm_event
    \<Rightarrow> store_error + admission \<Rightarrow> batch_item" where
  "answer_item read_fails t i ev res = (case res of
     Inr a \<Rightarrow>
       (if ad_admitted a
        then BiAccepted i (ev_id ev) (ev_cost_usd ev) False (filter ls_breached (ad_statuses a))
        else BiRejected i (ev_id ev) (filter ls_breached (ad_statuses a)) (ad_retry_after a) (ad_shed a))
   | Inl (SeConflict m) \<Rightarrow>
       if read_fails (ev_id ev) then BiInvalid i (Some (ev_id ev)) EcInternal
       else (case event_get t (Some (ev_project ev)) (ev_id ev) of
         Some s \<Rightarrow> if same_logical_event s ev then BiAccepted i (ev_id ev) (ev_cost_usd s) True []
                   else BiInvalid i (Some (ev_id ev)) EcConflict
       | None \<Rightarrow> BiInvalid i (Some (ev_id ev)) EcConflict)
   | Inl _ \<Rightarrow> BiInvalid i (Some (ev_id ev)) EcInternal)"

fun item_position :: "store_error + admission \<Rightarrow> (limit_status list \<times> nat option) list" where
  "item_position (Inr a) = [(ad_statuses a, if ad_admitted a then None else ad_retry_after a)]"
| "item_position (Inl x) = []"

definition fill_slots :: "batch_item option list \<Rightarrow> (nat \<times> batch_item) list \<Rightarrow> batch_item option list" where
  "fill_slots slots items = foldl (\<lambda>rs (i, x). rs[i := Some x]) slots items"

definition answer_all :: "(string \<Rightarrow> bool) \<Rightarrow> event_row list \<Rightarrow> (nat \<times> llm_event) list
    \<Rightarrow> (store_error + admission) list \<Rightarrow> batch_item list" where
  "answer_all read_fails t valid res = map2 (\<lambda>(i, ev) r. answer_item read_fails t i ev r) valid res"

definition batch_summary :: "batch_item list \<Rightarrow> (store_error + admission) list \<Rightarrow> batch_response" where
  "batch_summary results res = \<lparr>br_accepted = length (filter is_accepted results),
     br_rejected = length (filter is_rejected results), br_invalid = length (filter is_invalid results),
     br_results = results, br_proximity = batch_proximity (concat (map item_position res))\<rparr>"

text \<open>
  Unlike the single door, the batch refuses a key without the ingest scope as a whole, before any
  item. \<open>t1\<close> and \<open>t2\<close> give the clock at the preparation and the admission of an item by its index.
\<close>

definition post_batch :: "redact_env \<Rightarrow> door_config \<Rightarrow> nat \<Rightarrow> principal \<Rightarrow> (string \<Rightarrow> error_code + project_policy)
    \<Rightarrow> (string \<Rightarrow> bool) \<Rightarrow> (nat \<Rightarrow> string) \<Rightarrow> (nat \<Rightarrow> instant) \<Rightarrow> (nat \<Rightarrow> instant)
    \<Rightarrow> string option \<Rightarrow> string option \<Rightarrow> database \<Rightarrow> usage_cache \<Rightarrow> llm_event list
    \<Rightarrow> batch_outcome \<times> database \<times> usage_cache" where
  "post_batch e cfg cap who policy_for read_fails new_id t1 t2 begin_error commit_error db c evs =
     (case ensure_scope who KsIngest of
        Inl x \<Rightarrow> (BatchRefused x, db, c)
      | Inr _ \<Rightarrow>
          if evs = [] then (BatchRefused EcBadRequest, db, c)
          else if cap < length evs then (BatchRefused EcBadRequest, db, c)
          else
            (let (slots, valid) = prepare_items e cfg who policy_for new_id t1 0 evs;
                 (res, db', c') = (if valid = [] then ([], db, c)
                    else insert_events_checked begin_error commit_error db c (map (\<lambda>(i, ev). (ev, t2 i)) valid));
                 items = answer_all read_fails (db_events db') valid res
             in case those (fill_slots slots (zip (map fst valid) items)) of
                  None \<Rightarrow> (BatchPanic, db', c')
                | Some results \<Rightarrow> (BatchAnswered (batch_summary results res), db', c')))"

section \<open>Every item has its answer\<close>

text \<open>The answers of the valid items in the places the preparation left open.\<close>

fun weave :: "batch_item option list \<Rightarrow> batch_item list \<Rightarrow> batch_item list" where
  "weave [] xs = []"
| "weave (Some x # slots) xs = x # weave slots xs"
| "weave (None # slots) [] = []"
| "weave (None # slots) (x # xs) = x # weave slots xs"

lemma fill_slots_Nil [simp]: "fill_slots slots [] = slots"
  by (simp add: fill_slots_def)

lemma fill_slots_Cons [simp]: "fill_slots slots ((i, x) # xs) = fill_slots (slots[i := Some x]) xs"
  by (simp add: fill_slots_def)

lemma fill_prepared:
  assumes "prepare_items e cfg who pf new_id t1 (length pre) evs = (slots, valid)" and "length xs = length valid"
  shows "fill_slots (pre @ slots) (zip (map fst valid) xs) = pre @ map Some (weave slots xs)
    \<and> length (weave slots xs) = length evs"
  using assms
proof (induction evs arbitrary: pre slots valid xs)
  case Nil
  then show ?case by simp
next
  case (Cons ev evs)
  obtain sl va where rest: "prepare_items e cfg who pf new_id t1 (Suc (length pre)) evs = (sl, va)"
    by (cases "prepare_items e cfg who pf new_id t1 (Suc (length pre)) evs")
  show ?case
  proof (cases "prepare_item e cfg who pf (new_id (length pre)) (t1 (length pre)) ev")
    case (Inl x)
    define y where "y = BiInvalid (length pre) (if ev_id ev = [] then None else Some (ev_id ev)) x"
    have s: "slots = Some y # sl" "valid = va"
      using Cons.prems(1) rest Inl by (auto simp: y_def)
    from Cons.IH [of "pre @ [Some y]" sl va xs] show ?thesis
      using rest Cons.prems(2) s by simp
  next
    case (Inr ev')
    then have s: "slots = None # sl" "valid = (length pre, ev') # va"
      using Cons.prems(1) rest by auto
    obtain x ys where xs: "xs = x # ys" using Cons.prems(2) s(2) by (cases xs) auto
    from Cons.IH [of "pre @ [Some x]" sl va ys] show ?thesis
      using rest Cons.prems(2) s xs by (simp add: list_update_append)
  qed
qed

lemma those_map_Some [simp]: "those (map Some xs) = Some xs"
  by (induction xs) auto

lemma answer_item_index [simp]: "item_index (answer_item rf t i ev r) = i"
  by (auto simp: answer_item_def split: sum.splits store_error.splits option.splits)

lemma length_batch_loop: "batch_loop evs memo db c out = (res, db', c') \<Longrightarrow> length res = length out + length evs"
  by (induction evs memo db c out rule: batch_loop.induct) (auto split: prod.splits option.splits simp: Let_def)

lemma length_insert_events:
  "insert_events_checked be ce db c evs = (res, db', c') \<Longrightarrow> length res = length evs"
  by (auto simp: insert_events_checked_def split: option.splits prod.splits dest: length_batch_loop)

lemma weave_index:
  assumes "prepare_items e cfg who pf new_id t1 k evs = (slots, valid)" and "length res = length valid"
    and "i < length evs"
  shows "item_index (weave slots (answer_all rf t valid res) ! i) = k + i"
  using assms
proof (induction evs arbitrary: k slots valid res i)
  case (Cons ev evs)
  obtain sl va where rest: "prepare_items e cfg who pf new_id t1 (Suc k) evs = (sl, va)"
    by (cases "prepare_items e cfg who pf new_id t1 (Suc k) evs")
  show ?case
  proof (cases "prepare_item e cfg who pf (new_id k) (t1 k) ev")
    case (Inl x)
    then show ?thesis using Cons.prems rest Cons.IH [OF rest, of res "i - 1"] by (cases i) auto
  next
    case (Inr ev')
    then obtain r rs where "res = r # rs" using Cons.prems(1,2) rest by (cases res) auto
    then show ?thesis using Inr Cons.prems rest Cons.IH [OF rest, of rs "i - 1"]
      by (cases i) (auto simp: answer_all_def)
  qed
qed simp

lemma item_kinds:
  "length (filter is_accepted xs) + length (filter is_rejected xs) + length (filter is_invalid xs) = length xs"
proof (induction xs)
  case (Cons x xs)
  then show ?case by (cases x) simp_all
qed simp

text \<open>What the door does to a batch it takes on.\<close>

lemma post_batch_answered:
  assumes "post_batch e cfg cap who pf rf new_id t1 t2 be ce db c evs = (out, db', c')"
    and "\<nexists>x. out = BatchRefused x"
  obtains slots valid res where
    "ensure_scope who KsIngest = Inr ()" "evs \<noteq> []" "length evs \<le> cap"
    "prepare_items e cfg who pf new_id t1 0 evs = (slots, valid)" "length res = length valid"
    "(if valid = [] then ([], db, c)
      else insert_events_checked be ce db c (map (\<lambda>(i, ev). (ev, t2 i)) valid)) = (res, db', c')"
    "out = BatchAnswered (batch_summary (weave slots (answer_all rf (db_events db') valid res)) res)"
    "length (weave slots (answer_all rf (db_events db') valid res)) = length evs"
proof -
  have door: "ensure_scope who KsIngest = Inr ()" "evs \<noteq> []" "length evs \<le> cap"
    using assms by (auto simp: post_batch_def split: sum.splits if_splits)
  obtain slots valid where prep: "prepare_items e cfg who pf new_id t1 0 evs = (slots, valid)"
    by (cases "prepare_items e cfg who pf new_id t1 0 evs")
  obtain res db2 c2 where ins: "(if valid = [] then ([], db, c)
      else insert_events_checked be ce db c (map (\<lambda>(i, ev). (ev, t2 i)) valid)) = (res, db2, c2)"
    by (metis prod_cases3)
  have len: "length res = length valid"
    using ins by (auto split: if_splits dest: length_insert_events)
  then have "length (answer_all rf (db_events db2) valid res) = length valid" by (simp add: answer_all_def)
  from fill_prepared [of e cfg who pf new_id t1 "[]", simplified, OF prep this]
  have fill: "fill_slots slots (zip (map fst valid) (answer_all rf (db_events db2) valid res))
      = map Some (weave slots (answer_all rf (db_events db2) valid res))"
    and n: "length (weave slots (answer_all rf (db_events db2) valid res)) = length evs" by auto
  have eq: "out = BatchAnswered (batch_summary (weave slots (answer_all rf (db_events db2) valid res)) res)"
      "db' = db2" "c' = c2"
    using assms(1) door prep ins fill by (auto simp: post_batch_def Let_def)
  show thesis by (rule that [OF door prep len, unfolded eq]) (rule ins refl n)+
qed

text \<open>
  C31: a batch answers every item. A batch the door takes on is never left with an unanswered slot:
  there is one answer per item, the answer at each position names that position, and the three counts
  add up to the number of items.
\<close>

theorem batch_answers_every_item:
  assumes "post_batch e cfg cap who pf rf new_id t1 t2 be ce db c evs = (out, db', c')"
  shows "out \<noteq> BatchPanic \<and> (\<forall>resp. out = BatchAnswered resp \<longrightarrow>
      length (br_results resp) = length evs \<and> (\<forall>i < length evs. item_index (br_results resp ! i) = i)
    \<and> br_accepted resp + br_rejected resp + br_invalid resp = length evs)"
proof (cases "\<exists>x. out = BatchRefused x")
  case True
  then show ?thesis by auto
next
  case False
  from post_batch_answered [OF assms this] obtain slots valid res where
    prep: "prepare_items e cfg who pf new_id t1 0 evs = (slots, valid)" "length res = length valid"
    and out: "out = BatchAnswered (batch_summary (weave slots (answer_all rf (db_events db') valid res)) res)"
    and n: "length (weave slots (answer_all rf (db_events db') valid res)) = length evs"
    by blast
  show ?thesis
    using out n item_kinds weave_index [OF prep, of _ rf "db_events db'"] by (simp add: batch_summary_def)
qed

section \<open>A batch stores what it accepts\<close>

fun newly_accepted :: "batch_item list \<Rightarrow> string list" where
  "newly_accepted [] = []"
| "newly_accepted (BiAccepted i ident cost dup br # xs) = (if dup then newly_accepted xs else ident # newly_accepted xs)"
| "newly_accepted (_ # xs) = newly_accepted xs"

fun admitted_ids :: "(nat \<times> llm_event) list \<Rightarrow> (store_error + admission) list \<Rightarrow> string list" where
  "admitted_ids ((i, ev) # valid) (Inr a # res) =
     (if ad_admitted a then ev_id ev # admitted_ids valid res else admitted_ids valid res)"
| "admitted_ids (x # valid) (Inl err # res) = admitted_ids valid res"
| "admitted_ids _ _ = []"

lemma weave_accepted:
  assumes "prepare_items e cfg who pf new_id t1 k evs = (slots, valid)" and "length res = length valid"
  shows "newly_accepted (weave slots (answer_all rf t valid res)) = admitted_ids valid res"
  using assms
proof (induction evs arbitrary: k slots valid res)
  case (Cons ev evs)
  obtain sl va where rest: "prepare_items e cfg who pf new_id t1 (Suc k) evs = (sl, va)"
    by (cases "prepare_items e cfg who pf new_id t1 (Suc k) evs")
  show ?case
  proof (cases "prepare_item e cfg who pf (new_id k) (t1 k) ev")
    case (Inl x)
    then show ?thesis using Cons.prems rest Cons.IH [OF rest] by auto
  next
    case (Inr ev')
    then obtain r rs where "res = r # rs" using Cons.prems(1,2) rest by (cases res) auto
    with Inr Cons.prems rest Cons.IH [OF rest, of rs] show ?thesis
      by (cases r) (auto simp: answer_all_def answer_item_def split: store_error.splits option.splits)
  qed
qed (simp add: answer_all_def)

lemma insert_checked_appends:
  assumes "insert_checked_with_rules db c ev rules now = (res, db', c')"
  shows "\<exists>rows. db_events db' = db_events db @ rows
    \<and> map er_id rows = (case res of Inr a \<Rightarrow> if ad_admitted a then [ev_id ev] else [] | Inl _ \<Rightarrow> [])"
  using assms
  by (auto simp: insert_checked_with_rules_def event_insert_def row_of_event_def
      split: sum.splits prod.splits if_splits)

lemma batch_loop_stores:
  assumes "batch_loop (map (\<lambda>(i, ev). (ev, t2 i)) valid) memo db c out = (out', db', c')"
  shows "\<exists>res rows. out' = out @ res \<and> db_events db' = db_events db @ rows \<and> map er_id rows = admitted_ids valid res"
  using assms
proof (induction valid arbitrary: memo db c out)
  case Nil
  then show ?case by simp
next
  case (Cons x valid)
  obtain i ev where x: "x = (i, ev)" by (cases x)
  obtain rules memo1 r db1 c1 where ins: "insert_checked_with_rules db c ev rules (t2 i) = (r, db1, c1)"
    and loop: "batch_loop (map (\<lambda>(i, ev). (ev, t2 i)) valid) memo1 db1 c1 (out @ [r]) = (out', db', c')"
    using Cons.prems x by (auto simp: Let_def split: prod.splits option.splits)
  obtain res rows where IH: "out' = (out @ [r]) @ res" "db_events db' = db_events db1 @ rows"
    "map er_id rows = admitted_ids valid res" using Cons.IH [OF loop] by blast
  obtain rows0 where "db_events db1 = db_events db @ rows0"
    "map er_id rows0 = (case r of Inr a \<Rightarrow> if ad_admitted a then [ev_id ev] else [] | Inl _ \<Rightarrow> [])"
    using insert_checked_appends [OF ins] by blast
  then show ?case using IH x
    by (intro exI [of _ "r # res"] exI [of _ "rows0 @ rows"]) (auto split: sum.splits)
qed

lemma no_ids_admitted: "\<forall>r \<in> set res. \<exists>x. r = Inl x \<Longrightarrow> admitted_ids valid res = []"
  by (induction valid res rule: admitted_ids.induct) auto

text \<open>
  A batch stores what it accepts. The rows a batch adds to the store are, in order, those of the
  items it answers as accepted and not as duplicates; a batch whose transaction does not begin or does
  not commit adds none and answers no item so.
\<close>

theorem batch_stores_accepted:
  assumes "post_batch e cfg cap who pf rf new_id t1 t2 be ce db c evs = (BatchAnswered resp, db', c')"
  shows "\<exists>rows. db_events db' = db_events db @ rows \<and> map er_id rows = newly_accepted (br_results resp)
    \<and> (be \<noteq> None \<or> ce \<noteq> None \<longrightarrow> rows = [])"
proof -
  obtain slots valid res where prep: "prepare_items e cfg who pf new_id t1 0 evs = (slots, valid)" "length res = length valid"
    and ins: "(if valid = [] then ([], db, c)
      else insert_events_checked be ce db c (map (\<lambda>(i, ev). (ev, t2 i)) valid)) = (res, db', c')"
    and out: "resp = batch_summary (weave slots (answer_all rf (db_events db') valid res)) res"
    using post_batch_answered [OF assms] by blast
  have new: "newly_accepted (br_results resp) = admitted_ids valid res"
    using weave_accepted [OF prep] out by (simp add: batch_summary_def)
  show ?thesis
  proof (cases "valid = [] \<or> be \<noteq> None \<or> ce \<noteq> None")
    case True
    then have "db' = db" "\<forall>r \<in> set res. \<exists>x. r = Inl x"
      using ins by (auto simp: insert_events_checked_def split: option.splits prod.splits if_splits)
    then show ?thesis using new no_ids_admitted by auto
  next
    case False
    then have "batch_loop (map (\<lambda>(i, ev). (ev, t2 i)) valid) [] db c [] = (res, db', c')"
      using ins by (auto simp: insert_events_checked_def split: prod.splits)
    from batch_loop_stores [OF this] False new show ?thesis by auto
  qed
qed

section \<open>A batch is its items posted in turn\<close>

fun insert_each :: "database \<Rightarrow> usage_cache \<Rightarrow> (llm_event \<times> instant) list
    \<Rightarrow> (store_error + admission) list \<times> database \<times> usage_cache" where
  "insert_each db c [] = ([], db, c)"
| "insert_each db c ((ev, now) # evs) =
     (let (r, db, c) = insert_checked db c ev now; (res, db, c) = insert_each db c evs in (r # res, db, c))"

lemma enabled_rules_kept:
  "insert_checked_with_rules db c ev rules now = (res, db', c') \<Longrightarrow> enabled_rules db' p = enabled_rules db p"
  using insert_checked_events by (fastforce simp: enabled_rules_def)

text \<open>The rules a batch fetched once are those every item would have found.\<close>

lemma batch_loop_each:
  assumes "\<forall>p rs. map_of memo p = Some rs \<longrightarrow> rs = enabled_rules db p"
  shows "batch_loop evs memo db c out = (case insert_each db c evs of (res, db', c') \<Rightarrow> (out @ res, db', c'))"
  using assms
proof (induction evs arbitrary: memo db c out)
  case Nil
  then show ?case by simp
next
  case (Cons x evs)
  obtain ev now where x: "x = (ev, now)" by (cases x)
  obtain r db1 c1 where ins: "insert_checked db c ev now = (r, db1, c1)" by (cases "insert_checked db c ev now") auto
  define memo1 where "memo1 = (case map_of memo (ev_project ev) of Some rs \<Rightarrow> memo
    | None \<Rightarrow> AList.update (ev_project ev) (enabled_rules db (ev_project ev)) memo)"
  have kept: "enabled_rules db1 p = enabled_rules db p" for p
    using ins by (auto simp: insert_checked_def dest: enabled_rules_kept)
  have "batch_loop (x # evs) memo db c out = batch_loop evs memo1 db1 c1 (out @ [r])"
    using x ins Cons.prems by (auto simp: insert_checked_def memo1_def Let_def split: option.splits)
  moreover have "\<forall>p rs. map_of memo1 p = Some rs \<longrightarrow> rs = enabled_rules db1 p"
    using Cons.prems by (auto simp: memo1_def kept split: option.splits if_splits)
  ultimately show ?case
    using Cons.IH x ins by (auto split: prod.splits)
qed

lemma fetch_windows_ok:
  "fetch_windows rs now (\<lambda>s u. Inr (f s u)) ws \<noteq> Inl x"
  by (induction rs arbitrary: ws) (auto simp: Let_def split: option.splits)

lemma admission_loop_error:
  "admission_loop ev k now read resolve memo sts c rs = (Inl x, c') \<Longrightarrow> \<exists>d w s. fst (read d w s) = Inl x"
proof (induction ev k now read resolve memo sts c rs rule: admission_loop.induct)
  case (2 ev k now read resolve memo sts c r rs)
  then show ?case
    by (auto simp: Let_def split: if_splits option.splits prod.splits sum.splits) (metis fst_conv)+
qed simp

lemma decode_rows_error: "decode_rows rs = Inl x \<Longrightarrow> x = SeSqlite"
  by (induction rs) (auto simp: from_row_def split: sum.splits if_splits)

lemma cache_usage_error: "fst (cache_usage t p now d w s) = Inl x \<Longrightarrow> x = SeSqlite"
  by (auto simp: cache_usage_def load_new_def Let_def split: sum.splits dest: decode_rows_error)

lemma conflict_taken:
  assumes "insert_checked db c ev now = (Inl (SeConflict m), db', c')"
  shows "\<exists>r \<in> set (db_events db). er_id r = ev_id ev"
proof (rule ccontr)
  assume "\<not> ?thesis"
  then have "event_insert (db_events db) ev \<noteq> Inl x" for x by (simp add: event_insert_def)
  then show False
    using assms fetch_windows_ok
    by (auto simp: insert_checked_def insert_checked_with_rules_def resolve_all_def evaluate_admission_at_def
        split: sum.splits prod.splits if_splits dest!: admission_loop_error cache_usage_error)
qed

lemma insert_checked_fresh:
  assumes "insert_checked db c ev now = (res, db', c')"
  shows "\<exists>rows. db_events db' = db_events db @ rows
    \<and> (\<forall>r \<in> set rows. \<forall>q \<in> set (db_events db). er_id r \<noteq> er_id q)"
  using insert_checked_events [OF assms [unfolded insert_checked_def]]
proof
  assume "\<exists>t. event_insert (db_events db) ev = Inr t \<and> db' = db\<lparr>db_events := t\<rparr>"
  then have "db_events db' = db_events db @ [row_of_event (next_rowid (db_events db)) ev]"
    "\<forall>q \<in> set (db_events db). er_id q \<noteq> ev_id ev"
    by (auto simp: event_insert_def split: if_splits)
  moreover have "er_id (row_of_event i ev) = ev_id ev" for i by (simp add: row_of_event_def)
  ultimately show ?thesis by fastforce
qed simp

lemma insert_each_fresh:
  assumes "insert_each db c evs = (res, db', c')"
  shows "\<exists>rows. db_events db' = db_events db @ rows
    \<and> (\<forall>r \<in> set rows. \<forall>q \<in> set (db_events db). er_id r \<noteq> er_id q)"
  using assms
proof (induction evs arbitrary: db c res)
  case (Cons x evs)
  obtain ev now r db1 c1 res1 where ins: "insert_checked db c ev now = (r, db1, c1)"
    and rest: "insert_each db1 c1 evs = (res1, db', c')"
    using Cons.prems by (cases x) (auto simp: Let_def split: prod.splits)
  obtain rows0 where "db_events db1 = db_events db @ rows0"
    "\<forall>r \<in> set rows0. \<forall>q \<in> set (db_events db). er_id r \<noteq> er_id q" using insert_checked_fresh [OF ins] by blast
  moreover obtain rows where "db_events db' = db_events db1 @ rows"
    "\<forall>r \<in> set rows. \<forall>q \<in> set (db_events db1). er_id r \<noteq> er_id q" using Cons.IH [OF rest] by blast
  ultimately show ?case by (intro exI [of _ "rows0 @ rows"]) auto
qed simp

lemma event_get_later:
  assumes "\<exists>q \<in> set t. er_id q = i" and "\<forall>r \<in> set rows. \<forall>q \<in> set t. er_id r \<noteq> er_id q"
  shows "event_get (t @ rows) p i = event_get t p i"
proof -
  have "find (\<lambda>r. er_id r = i \<and> Q r) rows = None" for Q using assms by (force simp: find_None_iff)
  moreover have "find P (t @ rows) = (case find P t of Some x \<Rightarrow> Some x | None \<Rightarrow> find P rows)" for P
    by (induction t) auto
  ultimately show ?thesis by (simp add: event_get_def split: option.splits)
qed

fun post_each :: "redact_env \<Rightarrow> door_config \<Rightarrow> principal \<Rightarrow> (string \<Rightarrow> error_code + project_policy)
    \<Rightarrow> (string \<Rightarrow> bool) \<Rightarrow> (nat \<Rightarrow> string) \<Rightarrow> (nat \<Rightarrow> instant) \<Rightarrow> (nat \<Rightarrow> instant) \<Rightarrow> nat
    \<Rightarrow> database \<Rightarrow> usage_cache \<Rightarrow> llm_event list \<Rightarrow> ingest_reply list \<times> database \<times> usage_cache" where
  "post_each e cfg who pf rf new_id t1 t2 k db c [] = ([], db, c)"
| "post_each e cfg who pf rf new_id t1 t2 k db c (ev # evs) =
     (let (r, db, c) = post_event e cfg who pf rf (new_id k) (t1 k) (t2 k) db c ev;
          (rs, db, c) = post_each e cfg who pf rf new_id t1 t2 (Suc k) db c evs
      in (r # rs, db, c))"

text \<open>One item's answer beside the single door's; their codes may differ where both refuse.\<close>

fun item_matches :: "batch_item \<Rightarrow> ingest_reply \<Rightarrow> bool" where
  "item_matches (BiAccepted i a cost dup br) (Recorded b p cost' ts br') \<longleftrightarrow> \<not> dup \<and> a = b \<and> cost = cost' \<and> br = br'"
| "item_matches (BiAccepted i a cost dup br) (Replayed b p cost' ts) \<longleftrightarrow> dup \<and> a = b \<and> cost = cost' \<and> br = []"
| "item_matches (BiRejected i a br w shed) (RateLimited w') \<longleftrightarrow> w = w'"
| "item_matches (BiInvalid i a code) (Refused x) \<longleftrightarrow> True"
| "item_matches _ _ \<longleftrightarrow> False"

lemma post_event_invalid:
  assumes "prepare_item e cfg who pf new_id t1 ev = Inl x"
  shows "\<exists>y. post_event e cfg who pf rf new_id t1 t2 db c ev = (Refused y, db, c)"
  using assms by (auto simp: prepare_item_def post_event_def split: sum.splits if_splits)

lemma post_event_valid:
  assumes "prepare_item e cfg who pf new_id t1 ev = Inr ev'" and "insert_checked db c ev' t2 = (res, db', c')"
    and "\<forall>r \<in> set rows. \<forall>q \<in> set (db_events db'). er_id r \<noteq> er_id q"
  shows "\<exists>reply. post_event e cfg who pf rf new_id t1 t2 db c ev = (reply, db', c')
    \<and> item_matches (answer_item rf (db_events db' @ rows) i ev' res) reply"
proof -
  obtain pid pol where way: "resolve_ingest_project who (ev_project ev) = Inr pid" "pf pid = Inr pol" "po_enabled pol"
    "prepare_event e cfg ev pid (principal_key_id who) (po_redaction pol) new_id t1 = Inr ev'"
    using assms(1) by (auto simp: prepare_item_def split: sum.splits if_splits)
  obtain reply db2 c2 where post: "post_event e cfg who pf rf new_id t1 t2 db c ev = (reply, db2, c2)"
    by (cases "post_event e cfg who pf rf new_id t1 t2 db c ev") auto
  have c2: "c2 = c'"
    using post way assms(2) by (auto simp: post_event_def split: sum.splits store_error.splits option.splits if_splits)
  have get: "event_get (db_events db' @ rows) p (ev_id ev') = event_get (db_events db') p (ev_id ev')"
    if "res = Inl (SeConflict m)" for m p
  proof -
    have "\<exists>r \<in> set (db_events db). er_id r = ev_id ev'" using conflict_taken assms(2) that by blast
    then have "\<exists>r \<in> set (db_events db'). er_id r = ev_id ev'" using insert_checked_fresh [OF assms(2)] by auto
    then show ?thesis using event_get_later assms(3) by blast
  qed
  have "item_matches (answer_item rf (db_events db' @ rows) i ev' res) reply"
    using post_event_reaches [OF post way assms(2)] get
    by (auto simp: answer_item_def split: sum.splits store_error.splits option.splits)
  then show ?thesis using post_event_reaches [OF post way assms(2)] post c2 by blast
qed

lemma prepared_in_turn:
  assumes "prepare_items e cfg who pf new_id t1 k evs = (slots, valid)"
    and "insert_each db c (map (\<lambda>(i, ev). (ev, t2 i)) valid) = (res, db', c')"
    and "db_events db'' = db_events db' @ later" and "\<forall>r \<in> set later. \<forall>q \<in> set (db_events db'). er_id r \<noteq> er_id q"
  shows "\<exists>replies. post_each e cfg who pf rf new_id t1 t2 k db c evs = (replies, db', c')
    \<and> list_all2 item_matches (weave slots (answer_all rf (db_events db'') valid res)) replies"
  using assms
proof (induction evs arbitrary: k slots valid res db c)
  case Nil
  then show ?case by (simp add: answer_all_def)
next
  case (Cons ev evs)
  obtain sl va where rest: "prepare_items e cfg who pf new_id t1 (Suc k) evs = (sl, va)"
    by (cases "prepare_items e cfg who pf new_id t1 (Suc k) evs")
  show ?case
  proof (cases "prepare_item e cfg who pf (new_id k) (t1 k) ev")
    case (Inl x)
    obtain y where "post_event e cfg who pf rf (new_id k) (t1 k) (t2 k) db c ev = (Refused y, db, c)"
      using post_event_invalid [OF Inl] by blast
    moreover have "valid = va" "slots = Some (BiInvalid k (if ev_id ev = [] then None else Some (ev_id ev)) x) # sl"
      using Cons.prems(1) rest Inl by auto
    moreover obtain replies where "post_each e cfg who pf rf new_id t1 t2 (Suc k) db c evs = (replies, db', c')"
      "list_all2 item_matches (weave sl (answer_all rf (db_events db'') va res)) replies"
      using Cons.IH [OF rest _ Cons.prems(3,4)] Cons.prems(2) calculation by blast
    ultimately show ?thesis by auto
  next
    case (Inr ev')
    then have s: "slots = None # sl" "valid = (k, ev') # va" using Cons.prems(1) rest by auto
    obtain r db1 c1 rs where ins: "insert_checked db c ev' (t2 k) = (r, db1, c1)" and res: "res = r # rs"
      and tail: "insert_each db1 c1 (map (\<lambda>(i, ev). (ev, t2 i)) va) = (rs, db', c')"
      using Cons.prems(2) s(2) by (auto simp: Let_def split: prod.splits)
    obtain rows where rows: "db_events db' = db_events db1 @ rows"
      "\<forall>r \<in> set rows. \<forall>q \<in> set (db_events db1). er_id r \<noteq> er_id q" using insert_each_fresh [OF tail] by blast
    have fresh: "\<forall>r \<in> set (rows @ later). \<forall>q \<in> set (db_events db1). er_id r \<noteq> er_id q"
      using rows Cons.prems(4) by auto
    have "db_events db'' = db_events db1 @ (rows @ later)" using rows(1) Cons.prems(3) by simp
    with post_event_valid [OF Inr ins fresh, of rf k] obtain reply where
      "post_event e cfg who pf rf (new_id k) (t1 k) (t2 k) db c ev = (reply, db1, c1)"
      "item_matches (answer_item rf (db_events db'') k ev' r) reply" by auto
    with Cons.IH [OF rest tail Cons.prems(3,4)] s res show ?thesis by (auto simp: answer_all_def)
  qed
qed

text \<open>
  C3: a batch is its items posted in turn. A batch whose transaction begins and commits leaves the
  store and the usage cache exactly as posting its items one after the other through the single door
  would, with the same clocks and fresh ids, and answers each item as that door would: admission for
  an item counts the items before it, so no cap is passed by batching.
\<close>

theorem batch_is_posts_in_turn:
  assumes "post_batch e cfg cap who pf rf new_id t1 t2 None None db c evs = (BatchAnswered resp, db', c')"
  shows "\<exists>replies. post_each e cfg who pf rf new_id t1 t2 0 db c evs = (replies, db', c')
    \<and> list_all2 item_matches (br_results resp) replies"
proof -
  obtain slots valid res where prep: "prepare_items e cfg who pf new_id t1 0 evs = (slots, valid)"
    and ins: "(if valid = [] then ([], db, c)
      else insert_events_checked None None db c (map (\<lambda>(i, ev). (ev, t2 i)) valid)) = (res, db', c')"
    and out: "resp = batch_summary (weave slots (answer_all rf (db_events db') valid res)) res"
    using post_batch_answered [OF assms] by blast
  have "insert_each db c (map (\<lambda>(i, ev). (ev, t2 i)) valid) = (res, db', c')"
    using ins by (auto simp: insert_events_checked_def batch_loop_each split: if_splits prod.splits)
  from prepared_in_turn [OF prep this, of db' "[]"] out show ?thesis by (simp add: batch_summary_def)
qed

section \<open>Witnesses\<close>

text \<open>A batch of one event and its duplicate, in a project without rules.\<close>

definition twice :: "llm_event list" where
  "twice = [forged_event, forged_event]"

lemma twice_answered:
  obtains resp db' c' where "post_batch clean_env plain_door DEFAULT_MAX_BATCH project_key open_policy (\<lambda>_. False)
    (\<lambda>_. ''fresh'') (\<lambda>_. 1000) (\<lambda>_. 1000) None None open_db [] twice = (BatchAnswered resp, db', c')"
proof -
  obtain out db' c' where post: "post_batch clean_env plain_door DEFAULT_MAX_BATCH project_key open_policy (\<lambda>_. False)
    (\<lambda>_. ''fresh'') (\<lambda>_. 1000) (\<lambda>_. 1000) None None open_db [] twice = (out, db', c')"
    by (metis prod_cases3)
  have "\<nexists>x. out = BatchRefused x"
    using post by (auto simp: post_batch_def project_key_def twice_def DEFAULT_MAX_BATCH_def Let_def
        split: prod.splits option.splits)
  from post_batch_answered [OF post this] post that show thesis by metis
qed

lemma batch_answers_every_item_witness:
  "\<exists>resp db' c'. post_batch clean_env plain_door DEFAULT_MAX_BATCH project_key open_policy (\<lambda>_. False)
      (\<lambda>_. ''fresh'') (\<lambda>_. 1000) (\<lambda>_. 1000) None None open_db [] twice = (BatchAnswered resp, db', c')
    \<and> length (br_results resp) = 2"
proof -
  obtain resp db' c' where post: "post_batch clean_env plain_door DEFAULT_MAX_BATCH project_key open_policy (\<lambda>_. False)
      (\<lambda>_. ''fresh'') (\<lambda>_. 1000) (\<lambda>_. 1000) None None open_db [] twice = (BatchAnswered resp, db', c')"
    by (rule twice_answered)
  from batch_answers_every_item [OF post] post show ?thesis by (simp add: twice_def)
qed

lemma batch_stores_accepted_witness:
  "\<exists>resp db' c'. post_batch clean_env plain_door DEFAULT_MAX_BATCH project_key open_policy (\<lambda>_. False)
      (\<lambda>_. ''fresh'') (\<lambda>_. 1000) (\<lambda>_. 1000) None None open_db [] twice = (BatchAnswered resp, db', c')
    \<and> map er_id (db_events db') = newly_accepted (br_results resp)"
proof -
  obtain resp db' c' where post: "post_batch clean_env plain_door DEFAULT_MAX_BATCH project_key open_policy (\<lambda>_. False)
      (\<lambda>_. ''fresh'') (\<lambda>_. 1000) (\<lambda>_. 1000) None None open_db [] twice = (BatchAnswered resp, db', c')"
    by (rule twice_answered)
  from batch_stores_accepted [OF post] post show ?thesis by (auto simp: open_db_def)
qed

text \<open>The first of the two is recorded, so the event is there once.\<close>

lemma batch_is_posts_in_turn_witness:
  "\<exists>resp db' c' replies. post_batch clean_env plain_door DEFAULT_MAX_BATCH project_key open_policy (\<lambda>_. False)
      (\<lambda>_. ''fresh'') (\<lambda>_. 1000) (\<lambda>_. 1000) None None open_db [] twice = (BatchAnswered resp, db', c')
    \<and> list_all2 item_matches (br_results resp) replies \<and> map er_id (db_events db') = [''e1'']"
proof -
  obtain resp db' c' where post: "post_batch clean_env plain_door DEFAULT_MAX_BATCH project_key open_policy (\<lambda>_. False)
      (\<lambda>_. ''fresh'') (\<lambda>_. 1000) (\<lambda>_. 1000) None None open_db [] twice = (BatchAnswered resp, db', c')"
    by (rule twice_answered)
  obtain replies where each: "post_each clean_env plain_door project_key open_policy (\<lambda>_. False)
      (\<lambda>_. ''fresh'') (\<lambda>_. 1000) (\<lambda>_. 1000) 0 open_db [] twice = (replies, db', c')"
    and match: "list_all2 item_matches (br_results resp) replies"
    using batch_is_posts_in_turn [OF post] by blast
  obtain cost ts db1 c1 where first: "post_event clean_env plain_door project_key open_policy (\<lambda>_. False) ''fresh'' 1000 1000
      open_db [] forged_event = (Recorded ''e1'' ''p'' cost ts [], db1, c1)" and id: "map er_id (db_events db1) = [''e1'']"
    using open_post by auto
  obtain reply where second: "post_event clean_env plain_door project_key open_policy (\<lambda>_. False) ''fresh'' 1000 1000
      db1 c1 forged_event = (reply, db', c')"
    using each first by (auto simp: twice_def Let_def split: prod.splits)
  have "str_trim (ev_id forged_event) \<noteq> []" by (simp add: forged_event_def sample_event_def) code_simp
  moreover have "\<exists>r \<in> set (db_events db1). er_id r = ev_id forged_event"
    using id by (cases "db_events db1") (auto simp: forged_event_def sample_event_def)
  ultimately have "db' = db1" using id_taken_unchanged [OF second] by simp
  with post match id show ?thesis by auto
qed

end
