(* ===== verification/TraceForest.thy ===== *)
theory TraceForest
  imports UsageLedger
begin

text \<open>
  Rolling the events of a trace into totals and a span tree (\<^verbatim>\<open>crates/core/src/trace.rs\<close>): the shape
  list and detail view share, the forest built from parent links however malformed, and the coverage
  a verdict records of the exchange it judged.
\<close>

section \<open>The shape of a trace\<close>

definition timestamp_millis :: "instant \<Rightarrow> int" where
  "timestamp_millis t = t div 1000000"

definition num_milliseconds :: "int \<Rightarrow> int" where
  "num_milliseconds d = (if 0 \<le> d then d div 1000000 else - ((- d) div 1000000))"

text \<open>
  The range of chrono's \<^verbatim>\<open>DateTime<Utc>\<close>, in nanoseconds; adding a duration that leaves it panics,
  and so does a duration of \<open>i64::MIN\<close> milliseconds. Both are \<^term>\<open>None\<close> here.
\<close>

definition DATETIME_MIN :: instant where
  "DATETIME_MIN = - 8334601228800 * 1000000000"

definition DATETIME_MAX :: instant where
  "DATETIME_MAX = 8210266876799 * 1000000000 + 999999999"

definition finish_of :: "llm_event \<Rightarrow> instant option" where
  "finish_of e =
     (let ms = sint (case ev_latency_ms e of Some l \<Rightarrow> l | None \<Rightarrow> 0);
          t = ev_ts e + ms * 1000000
      in if ms = - (2 ^ 63) then None
         else if DATETIME_MIN \<le> t \<and> t \<le> DATETIME_MAX then Some t else None)"

record trace_shape =
  sh_started_at :: instant
  sh_last_finish :: instant
  sh_errors :: nat

datatype 'a rust = Panic | Done 'a

fun finishes :: "llm_event list \<Rightarrow> instant list option" where
  "finishes [] = Some []"
| "finishes (e # es) = (case finish_of e of None \<Rightarrow> None
     | Some t \<Rightarrow> (case finishes es of None \<Rightarrow> None | Some ts \<Rightarrow> Some (t # ts)))"

definition shape_of_events :: "llm_event list \<Rightarrow> trace_shape option rust" where
  "shape_of_events es =
     (if es = [] then Done None
      else case finishes es of
        None \<Rightarrow> Panic
      | Some ts \<Rightarrow> Done (Some \<lparr>sh_started_at = Min (set (map ev_ts es)), sh_last_finish = Max (set ts),
          sh_errors = length (filter (\<lambda>e. ev_status e \<noteq> CallSuccess) es)\<rparr>))"

definition shape_duration_ms :: "trace_shape \<Rightarrow> int" where
  "shape_duration_ms s = max (timestamp_millis (sh_last_finish s) - timestamp_millis (sh_started_at s)) 0"

definition shape_status :: "trace_shape \<Rightarrow> string" where
  "shape_status s = (if 0 < sh_errors s then ''error'' else ''success'')"

section \<open>Totals\<close>

record trace_totals =
  tt_spans :: nat
  tt_cost_usd :: f64
  tt_input_tokens :: u64
  tt_output_tokens :: u64
  tt_total_tokens :: u64
  tt_errors :: nat
  tt_total_latency_ms :: u64
  tt_unpriced_spans :: nat

definition add_totals :: "trace_totals \<Rightarrow> llm_event \<Rightarrow> trace_totals" where
  "add_totals t e = t\<lparr>
     tt_unpriced_spans := tt_unpriced_spans t + (if ev_cost_usd e = None then 1 else 0),
     tt_cost_usd := tt_cost_usd t + (case ev_cost_usd e of Some c \<Rightarrow> c | None \<Rightarrow> 0),
     tt_input_tokens := tt_input_tokens t + ev_input e,
     tt_output_tokens := tt_output_tokens t + ev_output e,
     tt_total_latency_ms := tt_total_latency_ms t + (case ev_latency_ms e of Some l \<Rightarrow> l | None \<Rightarrow> 0),
     tt_errors := tt_errors t + (if ev_status e = CallSuccess then 0 else 1)\<rparr>"

definition totals_of :: "llm_event list \<Rightarrow> trace_totals" where
  "totals_of es =
     (let t = foldl add_totals \<lparr>tt_spans = length es, tt_cost_usd = 0, tt_input_tokens = 0, tt_output_tokens = 0,
            tt_total_tokens = 0, tt_errors = 0, tt_total_latency_ms = 0, tt_unpriced_spans = 0\<rparr> es
      in t\<lparr>tt_total_tokens := tt_input_tokens t + tt_output_tokens t\<rparr>)"

fun distinct_models :: "string list \<Rightarrow> llm_event list \<Rightarrow> string list" where
  "distinct_models seen [] = []"
| "distinct_models seen (e # es) =
     (if ev_model e \<in> set seen then distinct_models seen es
      else ev_model e # distinct_models (ev_model e # seen) es)"

section \<open>The forest\<close>

datatype trace_span = TraceSpan (ts_event: llm_event) (ts_offset_ms: int) (ts_latency_ms: "u64 option")
  (ts_duplicate: bool) (ts_children: "trace_span list")

text \<open>The owner of a span id is the first event that reports it; later ones are flagged.\<close>

fun claim_ids :: "nat \<Rightarrow> (string \<rightharpoonup> nat) \<Rightarrow> bool list \<Rightarrow> llm_event list \<Rightarrow> (string \<rightharpoonup> nat) \<times> bool list" where
  "claim_ids i owner dup [] = (owner, dup)"
| "claim_ids i owner dup (e # es) =
     (case ev_span_id e of
        None \<Rightarrow> claim_ids (Suc i) owner dup es
      | Some s \<Rightarrow>
          (case owner s of
             Some _ \<Rightarrow> claim_ids (Suc i) owner (dup[i := True]) es
           | None \<Rightarrow> claim_ids (Suc i) (owner(s \<mapsto> i)) dup es))"

definition parent_of :: "(string \<rightharpoonup> nat) \<Rightarrow> llm_event \<Rightarrow> nat option" where
  "parent_of owner e = (case ev_parent_span_id e of None \<Rightarrow> None | Some p \<Rightarrow> owner p)"

fun link_spans :: "(string \<rightharpoonup> nat) \<Rightarrow> nat \<Rightarrow> (nat \<Rightarrow> nat list) \<Rightarrow> nat list \<Rightarrow> llm_event list
    \<Rightarrow> (nat \<Rightarrow> nat list) \<times> nat list" where
  "link_spans owner i children roots [] = (children, roots)"
| "link_spans owner i children roots (e # es) =
     (case parent_of owner e of
        Some p \<Rightarrow>
          if p \<noteq> i then link_spans owner (Suc i) (children(p := children p @ [i])) roots es
          else link_spans owner (Suc i) children (roots @ [i]) es
      | None \<Rightarrow> link_spans owner (Suc i) children (roots @ [i]) es)"

record forest_ctx =
  fc_children :: "nat \<Rightarrow> nat list"
  fc_duplicate :: "bool list"
  fc_trace_start :: instant

definition slot :: "llm_event option list \<Rightarrow> nat \<Rightarrow> llm_event option" where
  "slot s i = (if i < length s then s ! i else None)"

definition span_node :: "forest_ctx \<Rightarrow> nat \<Rightarrow> llm_event \<Rightarrow> trace_span list \<Rightarrow> trace_span" where
  "span_node ctx i e kids = TraceSpan e (max (num_milliseconds (ev_ts e - fc_trace_start ctx)) 0) (ev_latency_ms e)
     (if i < length (fc_duplicate ctx) then fc_duplicate ctx ! i else False) kids"

definition left :: "llm_event option list \<Rightarrow> nat" where
  "left s = length (filter (\<lambda>x. x \<noteq> None) s)"

lemma left_take: "slot s i = Some e \<Longrightarrow> left (s[i := None]) < left s"
proof (induction s arbitrary: i)
  case (Cons x s)
  then show ?case by (cases i) (auto simp: slot_def left_def split: if_splits)
qed (simp add: slot_def)

text \<open>
  The loop over a list of indices, each taken with its subtree unless it was visited before or its
  slot is empty; \<open>take_subtree\<close> of one index is its first step.
\<close>

function (sequential) take_subtrees :: "forest_ctx \<Rightarrow> nat list \<Rightarrow> llm_event option list \<Rightarrow> nat set
    \<Rightarrow> trace_span list \<times> llm_event option list \<times> nat set" where
  "take_subtrees ctx [] s v = ([], s, v)"
| "take_subtrees ctx (i # is) s v =
     (if i \<in> v then take_subtrees ctx is s v
      else case slot s i of
        None \<Rightarrow> take_subtrees ctx is s (insert i v)
      | Some e \<Rightarrow>
          (let (kids, s, v) = take_subtrees ctx (fc_children ctx i) (s[i := None]) (insert i v);
               (rest, s, v) = take_subtrees ctx is s v
           in (span_node ctx i e kids # rest, s, v)))"
  by pat_completeness auto

termination
proof -
  have taken: "left s' \<le> left s"
    if "take_subtrees_dom (ctx, is, s, v)" "take_subtrees ctx is s v = (ns, s', v')" for ctx "is" s v ns s' v'
    using that
  proof (induction arbitrary: ns s' v' rule: take_subtrees.pinduct)
    case (1 ctx s v)
    then show ?case by (simp add: take_subtrees.psimps)
  next
    case (2 ctx i "is" s v)
    show ?case
    proof (cases "i \<in> v \<or> slot s i = None")
      case True
      then show ?thesis using 2 by (cases "i \<in> v") (simp_all add: take_subtrees.psimps)
    next
      case False
      then have new: "i \<notin> v" by simp
      obtain e where e: "slot s i = Some e" using False by auto
      obtain kids s1 v1 where k: "take_subtrees ctx (fc_children ctx i) (s[i := None]) (insert i v) = (kids, s1, v1)"
        by (metis prod_cases3)
      obtain rest s2 v2 where r: "take_subtrees ctx is s1 v1 = (rest, s2, v2)" by (metis prod_cases3)
      have "s' = s2" using 2(1,6) new e k r by (simp add: take_subtrees.psimps)
      moreover have "left s1 \<le> left (s[i := None])" using 2(4) [OF new e k] .
      moreover have "left s2 \<le> left s1" using 2(5) [OF new e k [symmetric] refl refl r] .
      ultimately show ?thesis using left_take [OF e] by simp
    qed
  qed
  show ?thesis
    by (relation "measures [\<lambda>(ctx, is, s, v). left s, \<lambda>(ctx, is, s, v). length is]")
       (auto dest!: taken left_take dest: sym)
qed

end
