(* ===== verification/TraceView.thy ===== *)
theory TraceView
  imports TraceForest "HOL-Library.Multiset"
begin

text \<open>
  The span forest of a trace and what is read off it (\<^verbatim>\<open>build_forest\<close>, \<^verbatim>\<open>Trace::from_events_bounded\<close>
  and the coverage of \<^verbatim>\<open>crates/core/src/trace.rs\<close>). A digest is modelled as its 64-bit number, its
  hexadecimal text is not; the text of a JSON payload is an argument.
\<close>

section \<open>Building the forest\<close>

fun promote :: "forest_ctx \<Rightarrow> nat list \<Rightarrow> llm_event option list \<Rightarrow> nat set \<Rightarrow> trace_span list" where
  "promote ctx [] s v = []"
| "promote ctx (i # is) s v =
     (if slot s i \<noteq> None
      then (let (ns, s, v) = take_subtrees ctx [i] s v in ns @ promote ctx is s v)
      else promote ctx is s v)"

definition span_owners :: "llm_event list \<Rightarrow> (string \<rightharpoonup> nat) \<times> bool list" where
  "span_owners es = claim_ids 0 Map.empty (replicate (length es) False) es"

definition forest_links_of :: "llm_event list \<Rightarrow> (nat \<Rightarrow> nat list) \<times> nat list" where
  "forest_links_of es = link_spans (fst (span_owners es)) 0 (\<lambda>_. []) [] es"

definition forest_ctx_of :: "llm_event list \<Rightarrow> instant \<Rightarrow> forest_ctx" where
  "forest_ctx_of es start = \<lparr>fc_children = fst (forest_links_of es), fc_duplicate = snd (span_owners es),
     fc_trace_start = start\<rparr>"

definition build_forest :: "llm_event list \<Rightarrow> instant \<Rightarrow> trace_span list" where
  "build_forest es start =
     (let ctx = forest_ctx_of es start;
          (ns, s, v) = take_subtrees ctx (snd (forest_links_of es)) (map Some es) {}
      in ns @ promote ctx [0..<length es] s v)"

fun span_events :: "trace_span \<Rightarrow> llm_event list" where
  "span_events (TraceSpan e off lat dup kids) = e # concat (map span_events kids)"

definition forest_events :: "trace_span list \<Rightarrow> llm_event list" where
  "forest_events ns = concat (map span_events ns)"

section \<open>Nothing is lost and nothing is doubled\<close>

definition remaining :: "llm_event option list \<Rightarrow> llm_event multiset" where
  "remaining s = image_mset the (filter_mset (\<lambda>x. x \<noteq> None) (mset s))"

lemma remaining_simps [simp]:
  "remaining [] = {#}"
  "remaining (x # s) = (case x of None \<Rightarrow> remaining s | Some e \<Rightarrow> add_mset e (remaining s))"
  by (auto simp: remaining_def split: option.splits)

lemma remaining_take: "slot s i = Some e \<Longrightarrow> remaining s = add_mset e (remaining (s[i := None]))"
proof (induction s arbitrary: i)
  case (Cons x s)
  then show ?case by (cases i) (auto simp: slot_def split: if_splits option.splits)
qed (simp add: slot_def)

lemma forest_events_simps [simp]:
  "forest_events [] = []" "forest_events (n # ns) = span_events n @ forest_events ns"
  "forest_events (ns @ ms) = forest_events ns @ forest_events ms"
  "span_events (span_node ctx i e kids) = e # forest_events kids"
  by (simp_all add: forest_events_def span_node_def)

lemma take_subtrees_events:
  "take_subtrees ctx is s v = (ns, s', v') \<Longrightarrow> mset (forest_events ns) + remaining s' = remaining s"
proof (induction ctx "is" s v arbitrary: ns s' v' rule: take_subtrees.induct)
  case (2 ctx i "is" s v)
  show ?case
  proof (cases "i \<in> v \<or> slot s i = None")
    case True
    then show ?thesis using 2(1,2,5) by (cases "i \<in> v") auto
  next
    case False
    then obtain e where e: "i \<notin> v" "slot s i = Some e" by auto
    obtain kids s1 v1 where k: "take_subtrees ctx (fc_children ctx i) (s[i := None]) (insert i v) = (kids, s1, v1)"
      by (metis prod_cases3)
    obtain rest s2 v2 where r: "take_subtrees ctx is s1 v1 = (rest, s2, v2)" by (metis prod_cases3)
    have "ns = span_node ctx i e kids # rest" "s' = s2" using 2(5) e k r by auto
    moreover have "mset (forest_events kids) + remaining s1 = remaining (s[i := None])" using 2(3) [OF e k] .
    moreover have "mset (forest_events rest) + remaining s2 = remaining s1"
      using 2(4) [OF e k [symmetric] refl refl r] .
    ultimately show ?thesis using remaining_take [OF e(2)] by (simp add: add.assoc)
  qed
qed simp

text \<open>A visited index is one whose slot is empty, and an index taken up has an empty slot afterwards.\<close>

definition visits :: "llm_event option list \<Rightarrow> nat set \<Rightarrow> bool" where
  "visits s v \<longleftrightarrow> (\<forall>i \<in> v. slot s i = None)"

lemma slot_update: "slot (s[i := None]) j = (if i = j then None else slot s j)"
  by (auto simp: slot_def)

lemma take_subtrees_slots:
  assumes "take_subtrees ctx is s v = (ns, s', v')" and "visits s v"
  shows "visits s' v' \<and> length s' = length s \<and> (\<forall>i \<in> set is. slot s' i = None)
    \<and> (\<forall>j. slot s' j = None \<or> slot s' j = slot s j)"
  using assms
proof (induction ctx "is" s v arbitrary: ns s' v' rule: take_subtrees.induct)
  case (2 ctx i "is" s v)
  show ?case
  proof (cases "i \<in> v \<or> slot s i = None")
    case True
    then have none: "slot s i = None" using 2(6) by (auto simp: visits_def)
    show ?thesis
    proof (cases "i \<in> v")
      case True
      then show ?thesis using 2(1,5,6) none by auto
    next
      case False
      then have "visits s (insert i v)" using 2(6) none by (simp add: visits_def)
      then show ?thesis using 2(2) [OF False none] 2(5) none False by auto
    qed
  next
    case False
    then obtain e where e: "i \<notin> v" "slot s i = Some e" by auto
    obtain kids s1 v1 where k: "take_subtrees ctx (fc_children ctx i) (s[i := None]) (insert i v) = (kids, s1, v1)"
      by (metis prod_cases3)
    obtain rest s2 v2 where r: "take_subtrees ctx is s1 v1 = (rest, s2, v2)" by (metis prod_cases3)
    have out: "s' = s2" "v' = v2" using 2(5) e k r by auto
    have "visits (s[i := None]) (insert i v)" using 2(6) by (auto simp: visits_def slot_update)
    with 2(3) [OF e k] have one: "visits s1 v1" "length s1 = length s"
      "\<forall>j. slot s1 j = None \<or> slot s1 j = slot (s[i := None]) j" by auto
    have two: "visits s2 v2" "length s2 = length s1" "\<forall>j \<in> set is. slot s2 j = None"
      "\<forall>j. slot s2 j = None \<or> slot s2 j = slot s1 j"
      using 2(4) [OF e k [symmetric] refl refl r one(1)] by auto
    have "slot s2 j = None \<or> slot s2 j = slot s j" for j
      using one(3) two(4) by (metis slot_update)
    moreover have "slot s2 i = None" using one(3) two(4) by (metis slot_update)
    ultimately show ?thesis using out one(2) two(1-3) by simp
  qed
qed simp

lemma promote_events:
  assumes "visits s v" and "\<forall>i < length s. i \<notin> set is \<longrightarrow> slot s i = None"
  shows "mset (forest_events (promote ctx is s v)) = remaining s"
  using assms
proof (induction "is" arbitrary: s v)
  case Nil
  then have "x = None" if "x \<in> set s" for x using that by (auto simp: slot_def in_set_conv_nth)
  then show ?case by (auto simp: remaining_def filter_mset_eq_conv)
next
  case (Cons i "is")
  obtain ns s1 v1 where t: "take_subtrees ctx [i] s v = (ns, s1, v1)" by (metis prod_cases3)
  have st: "visits s1 v1" "length s1 = length s" "slot s1 i = None"
    "\<forall>j. slot s1 j = None \<or> slot s1 j = slot s j"
    using take_subtrees_slots [OF t Cons.prems(1)] by auto
  have "mset (forest_events (promote ctx is s1 v1)) = remaining s1"
    by (rule Cons.IH [OF st(1)]) (use st(2-4) Cons.prems(2) in \<open>metis set_ConsD\<close>)
  moreover have "mset (forest_events (promote ctx is s v)) = remaining s" if "slot s i = None"
    using that Cons by auto
  ultimately show ?case using take_subtrees_events [OF t] t by (auto simp: Let_def)
qed

text \<open>
  C12: nothing is lost and nothing is doubled. However malformed the parent links of a trace (dangling
  or repeated ids, self-parents, cycles), every event is in its forest exactly once.
\<close>

theorem forest_keeps_every_span:
  "mset (forest_events (build_forest es start)) = mset es"
proof -
  let ?ctx = "forest_ctx_of es start" and ?roots = "snd (forest_links_of es)"
  obtain ns s v where t: "take_subtrees ?ctx ?roots (map Some es) {} = (ns, s, v)" by (metis prod_cases3)
  have st: "visits s v" "length s = length es"
    using take_subtrees_slots [OF t] by (auto simp: visits_def)
  have "mset (forest_events (promote ?ctx [0..<length es] s v)) = remaining s"
    by (rule promote_events [OF st(1)]) (simp add: st(2))
  moreover have "remaining (map Some es) = mset es"
    by (induction es) (auto simp: remaining_def)
  ultimately show ?thesis
    using take_subtrees_events [OF t] t by (simp add: build_forest_def Let_def)
qed

section \<open>Who is nested under whom\<close>

text \<open>The owner of a span id, and the events that repeat an id already reported.\<close>

definition owns :: "llm_event list \<Rightarrow> string \<Rightarrow> nat \<Rightarrow> bool" where
  "owns es p i \<longleftrightarrow> i < length es \<and> ev_span_id (es ! i) = Some p \<and> (\<forall>j < i. ev_span_id (es ! j) \<noteq> Some p)"

definition repeats :: "llm_event list \<Rightarrow> nat \<Rightarrow> bool" where
  "repeats es i \<longleftrightarrow> (\<exists>p. ev_span_id (es ! i) = Some p \<and> (\<exists>j < i. ev_span_id (es ! j) = Some p))"

lemma owns_snoc: "owns (es @ [e]) p i \<longleftrightarrow>
    owns es p i \<or> i = length es \<and> ev_span_id e = Some p \<and> (\<forall>j < length es. ev_span_id (es ! j) \<noteq> Some p)"
  by (auto simp: owns_def nth_append less_Suc_eq)

lemma first_owner: "(\<exists>j < length es. ev_span_id (es ! j) = Some p) \<longleftrightarrow> (\<exists>i. owns es p i)"
proof
  assume "\<exists>j < length es. ev_span_id (es ! j) = Some p"
  then obtain i where i: "i < length es \<and> ev_span_id (es ! i) = Some p"
    and least: "\<And>j. j < i \<Longrightarrow> \<not> (j < length es \<and> ev_span_id (es ! j) = Some p)"
    using exists_least_iff [of "\<lambda>j. j < length es \<and> ev_span_id (es ! j) = Some p"] by blast
  then have "owns es p i" by (auto simp: owns_def dest: order.strict_trans)
  then show "\<exists>i. owns es p i" by blast
qed (auto simp: owns_def)

lemma repeats_snoc:
  "i < length es \<Longrightarrow> repeats (es @ [e]) i = repeats es i"
  "repeats (es @ [e]) (length es) \<longleftrightarrow> (\<exists>p. ev_span_id e = Some p \<and> (\<exists>i. owns es p i))"
proof -
  show "repeats (es @ [e]) i = repeats es i" if "i < length es"
  proof -
    have "(es @ [e]) ! j = es ! j" if "j \<le> i" for j using that \<open>i < length es\<close> by (simp add: nth_append)
    then show ?thesis unfolding repeats_def by (metis less_imp_le_nat order_refl)
  qed
  show "repeats (es @ [e]) (length es) \<longleftrightarrow> (\<exists>p. ev_span_id e = Some p \<and> (\<exists>i. owns es p i))"
    unfolding first_owner [symmetric] by (auto simp: repeats_def nth_append)
qed

lemma owns_unique: "owns es p i \<Longrightarrow> owns es p j \<Longrightarrow> i = j"
  by (auto simp: owns_def) (metis linorder_neqE_nat)

lemma claim_ids_spec:
  assumes "claim_ids (length pre) owner dup es = (owner', dup')"
    and "\<And>p i. owner p = Some i \<longleftrightarrow> owns pre p i"
    and "length dup = length pre + length es"
    and "\<And>i. i < length dup \<Longrightarrow> dup ! i \<longleftrightarrow> i < length pre \<and> repeats pre i"
  shows "(\<forall>p i. owner' p = Some i \<longleftrightarrow> owns (pre @ es) p i) \<and> length dup' = length (pre @ es)
    \<and> (\<forall>i < length (pre @ es). dup' ! i \<longleftrightarrow> repeats (pre @ es) i)"
  using assms
proof (induction es arbitrary: pre owner dup)
  case Nil
  then show ?case by simp
next
  case (Cons e es)
  have app: "pre @ e # es = (pre @ [e]) @ es" by simp
  define owner1 where "owner1 = (case ev_span_id e of Some p \<Rightarrow>
      (case owner p of None \<Rightarrow> owner(p \<mapsto> length pre) | Some _ \<Rightarrow> owner) | None \<Rightarrow> owner)"
  define dup1 where "dup1 = (case ev_span_id e of Some p \<Rightarrow>
      (case owner p of None \<Rightarrow> dup | Some _ \<Rightarrow> dup[length pre := True]) | None \<Rightarrow> dup)"
  have step: "claim_ids (length (pre @ [e])) owner1 dup1 es = (owner', dup')"
    using Cons.prems(1) by (auto simp: owner1_def dup1_def split: option.splits)
  have none: "owner p = None \<longleftrightarrow> (\<forall>j < length pre. ev_span_id (pre ! j) \<noteq> Some p)" for p
  proof -
    have "owner p = None \<longleftrightarrow> (\<nexists>i. owns pre p i)" using Cons.prems(2) [of p] by (metis option.exhaust option.distinct(1))
    then show ?thesis using first_owner [of pre p] by blast
  qed
  have own: "owner1 p = Some i \<longleftrightarrow> owns (pre @ [e]) p i" for p i
  proof (cases "ev_span_id e")
    case None
    then show ?thesis using Cons.prems(2) by (simp add: owner1_def owns_snoc)
  next
    case (Some q)
    show ?thesis
    proof (cases "owner q")
      case None
      then have "\<not> owns pre q i" using Cons.prems(2) [of q i] by simp
      with None Some Cons.prems(2) [of p i] none [of q] show ?thesis
        by (cases "p = q") (auto simp: owner1_def owns_snoc)
    next
      case (Some x)
      then have "\<not> (\<forall>j < length pre. ev_span_id (pre ! j) \<noteq> Some q)" using none [of q] by simp
      with Some \<open>ev_span_id e = Some q\<close> Cons.prems(2) [of p i] show ?thesis
        by (cases "p = q") (auto simp: owner1_def owns_snoc)
    qed
  qed
  have rep: "dup1 ! i \<longleftrightarrow> i < length (pre @ [e]) \<and> repeats (pre @ [e]) i" if "i < length dup1" for i
  proof -
    have len: "length dup1 = length dup" by (simp add: dup1_def split: option.splits)
    have "repeats (pre @ [e]) (length pre) \<longleftrightarrow> (\<exists>p. ev_span_id e = Some p \<and> owner p \<noteq> None)"
      unfolding repeats_snoc using Cons.prems(2) by (metis option.distinct(1) option.exhaust)
    then show ?thesis
      using Cons.prems(4) [of i] that len Cons.prems(3)
      by (cases "i = length pre") (auto simp: dup1_def repeats_snoc split: option.splits)
  qed
  have "length dup1 = length (pre @ [e]) + length es"
    using Cons.prems(3) by (simp add: dup1_def split: option.splits)
  from Cons.IH [OF step own this rep] show ?case unfolding app .
qed

lemma span_owners_spec:
  "fst (span_owners es) p = Some i \<longleftrightarrow> owns es p i"
  "length (snd (span_owners es)) = length es"
  "i < length es \<Longrightarrow> snd (span_owners es) ! i \<longleftrightarrow> repeats es i"
proof -
  obtain owner dup where o: "span_owners es = (owner, dup)" by (cases "span_owners es")
  have "(\<forall>p i. owner p = Some i \<longleftrightarrow> owns ([] @ es) p i) \<and> length dup = length ([] @ es)
    \<and> (\<forall>i < length ([] @ es). dup ! i \<longleftrightarrow> repeats ([] @ es) i)"
    by (rule claim_ids_spec [where owner = Map.empty and dup = "replicate (length es) False"])
       (use o in \<open>auto simp: span_owners_def owns_def\<close>)
  then show "fst (span_owners es) p = Some i \<longleftrightarrow> owns es p i"
    "length (snd (span_owners es)) = length es"
    "i < length es \<Longrightarrow> snd (span_owners es) ! i \<longleftrightarrow> repeats es i"
    using o by auto
qed

text \<open>The event an event is nested under: the owner of its parent id, where that is another event.\<close>

definition nested_under :: "llm_event list \<Rightarrow> nat \<Rightarrow> nat option" where
  "nested_under es i = (case parent_of (fst (span_owners es)) (es ! i) of
     Some p \<Rightarrow> if p \<noteq> i then Some p else None | None \<Rightarrow> None)"

lemma link_spans_spec:
  assumes "link_spans (fst (span_owners es)) k ch rt (drop k es) = (ch', rt')" and "k \<le> length es"
  shows "ch' p = ch p @ filter (\<lambda>i. nested_under es i = Some p) [k..<length es]
    \<and> rt' = rt @ filter (\<lambda>i. nested_under es i = None) [k..<length es]"
  using assms
proof (induction "length es - k" arbitrary: k ch rt)
  case 0
  then show ?case by simp
next
  case (Suc d)
  then have k: "k < length es" by simp
  have dr: "drop k es = es ! k # drop (Suc k) es" using k by (simp add: Cons_nth_drop_Suc)
  have up: "[k..<length es] = k # [Suc k..<length es]" using k by (simp add: upt_conv_Cons)
  have d: "d = length es - Suc k" "Suc k \<le> length es" using Suc(2) k by auto
  show ?case
  proof (cases "nested_under es k")
    case None
    then have "link_spans (fst (span_owners es)) (Suc k) ch (rt @ [k]) (drop (Suc k) es) = (ch', rt')"
      using Suc.prems(1) dr by (auto simp: nested_under_def split: option.splits if_splits)
    from Suc.hyps(1) [OF d(1) this d(2)] show ?thesis using None up by simp
  next
    case (Some q)
    then have "link_spans (fst (span_owners es)) (Suc k) (ch(q := ch q @ [k])) rt (drop (Suc k) es) = (ch', rt')"
      using Suc.prems(1) dr by (auto simp: nested_under_def split: option.splits if_splits)
    from Suc.hyps(1) [OF d(1) this d(2)] show ?thesis using Some up by auto
  qed
qed

lemma forest_links_spec:
  "fst (forest_links_of es) p = filter (\<lambda>i. nested_under es i = Some p) [0..<length es]"
  "snd (forest_links_of es) = filter (\<lambda>i. nested_under es i = None) [0..<length es]"
proof -
  obtain ch rt where l: "forest_links_of es = (ch, rt)" by (cases "forest_links_of es")
  show "fst (forest_links_of es) p = filter (\<lambda>i. nested_under es i = Some p) [0..<length es]"
    "snd (forest_links_of es) = filter (\<lambda>i. nested_under es i = None) [0..<length es]"
    using link_spans_spec [of es 0 "\<lambda>_. []" "[]" ch rt] l by (auto simp: forest_links_of_def)
qed

lemma nested_under_link:
  assumes "nested_under es i = Some p" and "i < length es"
  shows "p < length es" "\<not> repeats es p"
    "ev_parent_span_id (es ! i) = ev_span_id (es ! p)" "ev_span_id (es ! p) \<noteq> None"
proof -
  obtain q where q: "ev_parent_span_id (es ! i) = Some q" "owns es q p"
    using assms(1) by (auto simp: nested_under_def parent_of_def span_owners_spec split: option.splits if_splits)
  then show "p < length es" "\<not> repeats es p"
    "ev_parent_span_id (es ! i) = ev_span_id (es ! p)" "ev_span_id (es ! p) \<noteq> None"
    by (auto simp: owns_def repeats_def)
qed

text \<open>Every node of a forest, at any depth.\<close>

fun all_nodes :: "trace_span \<Rightarrow> trace_span list" where
  "all_nodes (TraceSpan e off lat dup kids) = TraceSpan e off lat dup kids # concat (map all_nodes kids)"

definition node_linked :: "llm_event list \<Rightarrow> instant \<Rightarrow> trace_span \<Rightarrow> bool" where
  "node_linked es start n \<longleftrightarrow>
     (\<exists>i < length es. ts_event n = es ! i \<and> ts_duplicate n = repeats es i)
   \<and> ts_offset_ms n = max (num_milliseconds (ev_ts (ts_event n) - start)) 0 \<and> ts_latency_ms n = ev_latency_ms (ts_event n)
   \<and> (\<forall>c \<in> set (ts_children n). ev_parent_span_id (ts_event c) = ev_span_id (ts_event n)
        \<and> ev_span_id (ts_event n) \<noteq> None \<and> \<not> ts_duplicate n)"

definition slots_of :: "llm_event list \<Rightarrow> llm_event option list \<Rightarrow> bool" where
  "slots_of es s \<longleftrightarrow> (\<forall>i. slot s i = None \<or> i < length es \<and> slot s i = Some (es ! i))"

lemma slots_of_take: "slots_of es s \<Longrightarrow> slots_of es (s[i := None])"
  by (simp add: slots_of_def slot_update)

lemma take_subtrees_linked:
  assumes "take_subtrees (forest_ctx_of es start) is s v = (ns, s', v')" and "slots_of es s"
  shows "slots_of es s' \<and> (\<forall>n \<in> set ns. (\<exists>i \<in> set is. i < length es \<and> ts_event n = es ! i)
      \<and> (\<forall>m \<in> set (all_nodes n). node_linked es start m))"
  using assms
proof (induction "forest_ctx_of es start" "is" s v arbitrary: ns s' v' rule: take_subtrees.induct)
  case (1 s v)
  then show ?case by simp
next
  case (2 i "is" s v)
  let ?ctx = "forest_ctx_of es start"
  show ?case
  proof (cases "i \<in> v \<or> slot s i = None")
    case True
    then show ?thesis using 2(1,2,5,6) by (cases "i \<in> v") auto
  next
    case False
    then obtain e where e: "i \<notin> v" "slot s i = Some e" by auto
    with 2(6) have i: "i < length es" "e = es ! i" unfolding slots_of_def by (metis option.distinct(1) option.inject)+
    obtain kids s1 v1 where k: "take_subtrees ?ctx (fc_children ?ctx i) (s[i := None]) (insert i v) = (kids, s1, v1)"
      by (metis prod_cases3)
    obtain rest s2 v2 where r: "take_subtrees ?ctx is s1 v1 = (rest, s2, v2)" by (metis prod_cases3)
    have out: "ns = span_node ?ctx i e kids # rest" "s' = s2" using 2(5) e k r by auto
    have one: "slots_of es s1" "\<forall>n \<in> set kids. (\<exists>j \<in> set (fc_children ?ctx i). j < length es \<and> ts_event n = es ! j)
        \<and> (\<forall>m \<in> set (all_nodes n). node_linked es start m)"
      using 2(3) [OF e k slots_of_take [OF 2(6)]] by auto
    have two: "slots_of es s2" "\<forall>n \<in> set rest. (\<exists>j \<in> set is. j < length es \<and> ts_event n = es ! j)
        \<and> (\<forall>m \<in> set (all_nodes n). node_linked es start m)"
      using 2(4) [OF e k [symmetric] refl refl r one(1)] by auto
    have kid: "ev_parent_span_id (ts_event c) = ev_span_id e \<and> ev_span_id e \<noteq> None \<and> \<not> repeats es i" if "c \<in> set kids" for c
    proof -
      have "\<exists>j \<in> set (fc_children ?ctx i). j < length es \<and> ts_event c = es ! j" using one(2) that by blast
      then obtain j where "nested_under es j = Some i" "j < length es" "ts_event c = es ! j"
        by (auto simp: forest_ctx_of_def forest_links_spec)
      then show ?thesis using nested_under_link i by metis
    qed
    have dup: "(if i < length (fc_duplicate ?ctx) then fc_duplicate ?ctx ! i else False) = repeats es i"
      using i by (simp add: forest_ctx_of_def span_owners_spec)
    have "node_linked es start (span_node ?ctx i e kids)"
      using kid i dup by (auto simp: node_linked_def span_node_def forest_ctx_of_def)
    then show ?thesis using out one two i by (auto simp: span_node_def)
  qed
qed

lemma promote_linked:
  assumes "slots_of es s"
  shows "\<forall>n \<in> set (promote (forest_ctx_of es start) is s v). \<forall>m \<in> set (all_nodes n). node_linked es start m"
  using assms
proof (induction "is" arbitrary: s v)
  case (Cons i "is")
  obtain ns s1 v1 where t: "take_subtrees (forest_ctx_of es start) [i] s v = (ns, s1, v1)" by (metis prod_cases3)
  from take_subtrees_linked [OF t Cons.prems] Cons.IH [of s1 v1] Cons.IH [OF Cons.prems, of v] show ?case
    using t by (auto simp: Let_def simp del: take_subtrees.simps)
qed simp

text \<open>
  Spans are nested by their links. Every node of the forest, at any depth, carries its event's own
  latency and its offset from the trace's start (never negative); it is flagged exactly when an earlier
  event reported the same span id, and a child is nested only under an unflagged event whose span id
  the child names as its parent.
\<close>

theorem forest_nests_by_parent:
  "\<forall>n \<in> set (build_forest es start). \<forall>m \<in> set (all_nodes n). node_linked es start m"
proof -
  let ?ctx = "forest_ctx_of es start" and ?roots = "snd (forest_links_of es)"
  obtain ns s v where t: "take_subtrees ?ctx ?roots (map Some es) {} = (ns, s, v)" by (metis prod_cases3)
  have "slots_of es (map Some es)" by (auto simp: slots_of_def slot_def)
  from take_subtrees_linked [OF t this] promote_linked [of es s start "[0..<length es]" v] t show ?thesis
    by (auto simp: build_forest_def Let_def)
qed

section \<open>The roots of a trace without cycles\<close>

definition nesting :: "llm_event list \<Rightarrow> (nat \<times> nat) set" where
  "nesting es = {(p, i). i < length es \<and> nested_under es i = Some p}"

text \<open>What a pass over a list of indices takes: those indices, and then the children of what it took.\<close>

lemma take_subtrees_closed:
  assumes "take_subtrees ctx is s v = (ns, s', v')" and "visits s v" and "slot s i \<noteq> None" and "slot s' i = None"
  shows "(\<forall>c \<in> set (fc_children ctx i). slot s' c = None) \<and> (i \<in> set is \<or> (\<exists>j. i \<in> set (fc_children ctx j)))"
  using assms
proof (induction ctx "is" s v arbitrary: ns s' v' rule: take_subtrees.induct)
  case (1 ctx s v)
  then show ?case by simp
next
  case (2 ctx k "is" s v)
  show ?case
  proof (cases "k \<in> v \<or> slot s k = None")
    case True
    then have none: "slot s k = None" using 2(6) by (auto simp: visits_def)
    show ?thesis
    proof (cases "k \<in> v")
      case True
      then show ?thesis using 2(1,5-8) by auto
    next
      case False
      then have "visits s (insert k v)" using 2(6) none by (simp add: visits_def)
      then show ?thesis using 2(2) [OF False none] 2(5,7,8) none False by auto
    qed
  next
    case False
    then obtain e where e: "k \<notin> v" "slot s k = Some e" by auto
    obtain kids s1 v1 where t: "take_subtrees ctx (fc_children ctx k) (s[k := None]) (insert k v) = (kids, s1, v1)"
      by (metis prod_cases3)
    obtain rest s2 v2 where r: "take_subtrees ctx is s1 v1 = (rest, s2, v2)" by (metis prod_cases3)
    have out: "s' = s2" using 2(5) e t r by auto
    have vis: "visits (s[k := None]) (insert k v)" using 2(6) by (auto simp: visits_def slot_update)
    note one = take_subtrees_slots [OF t vis]
    have two: "\<forall>j. slot s2 j = None \<or> slot s2 j = slot s1 j" using take_subtrees_slots [OF r] one by auto
    have kept: "slot s2 j = None" if "slot s1 j = None" for j using two that by metis
    consider "i = k" | "i \<noteq> k" "slot s1 i = None" | "slot s1 i \<noteq> None" by blast
    then show ?thesis
    proof cases
      case 1
      then show ?thesis using one kept out by auto
    next
      case 2
      then have "slot (s[k := None]) i \<noteq> None" using "2.prems"(3) by (simp add: slot_update)
      from "2.IH"(3) [OF e t vis this 2(2)] show ?thesis using kept out by auto
    next
      case 3
      from "2.IH"(4) [OF e t [symmetric] refl refl r _ 3] show ?thesis using one out "2.prems"(4) by auto
    qed
  qed
qed

lemma take_subtrees_roots:
  assumes "take_subtrees ctx is s v = (ns, s', v')" and "visits s v" and "distinct is"
    and "\<forall>i \<in> set is. slot s i = Some (es ! i) \<and> (\<forall>j. i \<notin> set (fc_children ctx j))"
  shows "map ts_event ns = map ((!) es) is"
  using assms
proof (induction "is" arbitrary: s v ns)
  case Nil
  then show ?case by simp
next
  case (Cons i "is")
  have i: "slot s i = Some (es ! i)" "i \<notin> v" using Cons.prems(2,4) by (auto simp: visits_def)
  obtain kids s1 v1 where t: "take_subtrees ctx (fc_children ctx i) (s[i := None]) (insert i v) = (kids, s1, v1)"
    by (metis prod_cases3)
  obtain rest s2 v2 where r: "take_subtrees ctx is s1 v1 = (rest, s2, v2)" by (metis prod_cases3)
  have out: "ns = span_node ctx i (es ! i) kids # rest" "s' = s2" "v' = v2" using Cons.prems(1) i t r by auto
  have vis: "visits (s[i := None]) (insert i v)" using Cons.prems(2) by (auto simp: visits_def slot_update)
  have one: "visits s1 v1" using take_subtrees_slots [OF t vis] by simp
  have "slot s1 j = Some (es ! j)" if j: "j \<in> set is" for j
  proof -
    have "slot (s[i := None]) j = Some (es ! j)" using Cons.prems(3,4) j by (auto simp: slot_update)
    moreover have "slot s1 j \<noteq> None"
      using take_subtrees_closed [OF t vis, of j] calculation Cons.prems(4) j by auto
    ultimately show ?thesis using take_subtrees_slots [OF t vis] by metis
  qed
  then have "map ts_event rest = map ((!) es) is"
    using Cons.IH [of s1 v1 rest] r one Cons.prems(3,4) out by auto
  then show ?case using out by (simp add: span_node_def)
qed

lemma promote_none: "\<forall>i \<in> set is. slot s i = None \<Longrightarrow> promote ctx is s v = []"
  by (induction "is") auto

text \<open>
  The roots of a trace. Where following parents never runs into a cycle, the top of the forest is
  exactly the events whose parent is not in the trace (or is themselves), in their order.
\<close>

theorem forest_roots:
  assumes "acyclic (nesting es)"
  shows "map ts_event (build_forest es start)
    = map ((!) es) (filter (\<lambda>i. nested_under es i = None) [0..<length es])"
proof -
  let ?ctx = "forest_ctx_of es start" and ?roots = "filter (\<lambda>i. nested_under es i = None) [0..<length es]"
  obtain ns s v where t: "take_subtrees ?ctx ?roots (map Some es) {} = (ns, s, v)" by (metis prod_cases3)
  have vis: "visits (map Some es) {}" by (simp add: visits_def)
  have kids: "set (fc_children ?ctx p) = {i. i < length es \<and> nested_under es i = Some p}" for p
    by (auto simp: forest_ctx_of_def forest_links_spec)
  have all: "slot (map Some es) i = Some (es ! i)" if "i < length es" for i using that by (simp add: slot_def)
  have ns: "map ts_event ns = map ((!) es) ?roots"
    by (rule take_subtrees_roots [OF t vis]) (auto simp: kids all)
  have "nesting es \<subseteq> {..<length es} \<times> {..<length es}"
    using nested_under_link(1) by (auto simp: nesting_def)
  then have wf: "wf (nesting es)"
    using assms finite_subset by (blast intro: finite_acyclic_wf)
  have taken: "i < length es \<longrightarrow> slot s i = None" for i
  proof (induction i rule: wf_induct_rule [OF wf])
    case (1 i)
    show ?case
    proof (cases "i < length es")
      case True
      show ?thesis
      proof (cases "nested_under es i")
        case None
        then show ?thesis using take_subtrees_slots [OF t vis] True by auto
      next
        case (Some p)
        then have p: "p < length es" "(p, i) \<in> nesting es"
          using nested_under_link(1) True by (auto simp: nesting_def)
        then have "slot s p = None" using 1 by blast
        with take_subtrees_closed [OF t vis, of p] all [OF p(1)] have "\<forall>c \<in> set (fc_children ?ctx p). slot s c = None"
          by simp
        then show ?thesis using kids Some True by blast
      qed
    qed simp
  qed
  have "promote ?ctx [0..<length es] s v = []"
    by (rule promote_none) (use taken in auto)
  then show ?thesis using t ns by (simp add: build_forest_def forest_links_spec Let_def)
qed

section \<open>The trace and its coverage\<close>

record trace =
  tr_trace_id :: string
  tr_project_id :: string
  tr_started_at :: instant
  tr_ended_at :: instant
  tr_duration_ms :: int
  tr_status :: string
  tr_totals :: trace_totals
  tr_models :: "string list"
  tr_spans_total :: nat
  tr_spans_logged :: nat
  tr_spans_truncated :: bool
  tr_spans :: "trace_span list"

definition trace_from_events_bounded :: "llm_event list \<Rightarrow> nat \<Rightarrow> trace option rust" where
  "trace_from_events_bounded events spans_total =
     (if events = [] then Done None
      else (let es = sort_key ev_ts events in
        case shape_of_events es of
          Panic \<Rightarrow> Panic
        | Done None \<Rightarrow> Done None
        | Done (Some shape) \<Rightarrow> Done (Some \<lparr>
            tr_trace_id = (case List.find (\<lambda>e. ev_trace_id e \<noteq> None) es of
               Some e \<Rightarrow> the (ev_trace_id e) | None \<Rightarrow> []),
            tr_project_id = ev_project (hd es), tr_started_at = sh_started_at shape,
            tr_ended_at = Max (set (map ev_ts es)), tr_duration_ms = shape_duration_ms shape,
            tr_status = shape_status shape, tr_totals = totals_of es, tr_models = distinct_models [] es,
            tr_spans_total = max spans_total (length es), tr_spans_logged = length es,
            tr_spans_truncated = (length es < spans_total),
            tr_spans = build_forest es (sh_started_at shape)\<rparr>)))"

definition trace_from_events :: "llm_event list \<Rightarrow> trace option rust" where
  "trace_from_events events = trace_from_events_bounded events (length events)"

definition trace_root_event_id :: "trace \<Rightarrow> string option" where
  "trace_root_event_id t = (case tr_spans t of [] \<Rightarrow> None | n # _ \<Rightarrow> Some (ev_id (ts_event n)))"

text \<open>FNV-1a over the bytes of the parts, with a unit separator between them.\<close>

definition fnv_mix :: "u64 \<Rightarrow> string \<Rightarrow> u64" where
  "fnv_mix h bs = foldl (\<lambda>h b. (h XOR word_of_nat (of_char b)) * 0x100000001b3) h bs"

fun fnv_parts :: "u64 \<Rightarrow> string list \<Rightarrow> u64" where
  "fnv_parts h [] = h"
| "fnv_parts h [p] = fnv_mix h p"
| "fnv_parts h (p # q # ps) = fnv_parts (fnv_mix (fnv_mix h p) [CHR 0x1F]) (q # ps)"

definition fingerprint :: "string list \<Rightarrow> u64" where
  "fingerprint parts = fnv_parts 0xcbf29ce484222325 parts"

text \<open>A digest is kept as its number, \<open>None\<close> for the empty text; \<open>json\<close> is the text of a JSON value.\<close>

record trace_coverage =
  tc_spans :: nat
  tc_root_event_id :: string
  tc_digest :: "u64 option"
  tc_truncated :: bool

definition payload_text :: "(meta_value \<Rightarrow> string) \<Rightarrow> meta_value option \<Rightarrow> string" where
  "payload_text json v = (case v of Some x \<Rightarrow> if x \<noteq> MvNull then json x else [] | None \<Rightarrow> [])"

definition trace_coverage_of :: "(meta_value \<Rightarrow> string) \<Rightarrow> trace \<Rightarrow> trace_coverage" where
  "trace_coverage_of json t =
     (let root = (case tr_spans t of [] \<Rightarrow> None | n # _ \<Rightarrow> Some (ts_event n));
          rid = (case root of Some e \<Rightarrow> ev_id e | None \<Rightarrow> [])
      in \<lparr>tc_spans = tr_spans_total t, tc_root_event_id = rid,
          tc_digest = Some (fingerprint [rid,
            payload_text json (Option.bind root ev_prompt), payload_text json (Option.bind root ev_completion)]),
          tc_truncated = tr_spans_truncated t\<rparr>)"

datatype trace_drift = DriftNone | DriftGrown | DriftChanged

definition coverage_drift :: "trace_coverage \<Rightarrow> trace_coverage \<Rightarrow> trace_drift" where
  "coverage_drift judged current =
     (if tc_digest judged \<noteq> None \<and> tc_digest judged \<noteq> tc_digest current then DriftChanged
      else if tc_spans judged \<noteq> tc_spans current then DriftGrown
      else DriftNone)"

fun drift_reason :: "trace_drift \<Rightarrow> string option" where
  "drift_reason DriftNone = None"
| "drift_reason DriftGrown = Some ''grown''"
| "drift_reason DriftChanged = Some ''changed''"

section \<open>When a trace cannot be read\<close>

lemma sort_key_empty [simp]: "sort_key f xs = [] \<longleftrightarrow> xs = []"
  by (metis length_0_conv length_sort)

lemma finishes_None: "finishes es = None \<longleftrightarrow> (\<exists>e \<in> set es. finish_of e = None)"
  by (induction es) (auto split: option.splits)

lemma trace_read_iff:
  "trace_from_events_bounded events n = Panic \<longleftrightarrow> (\<exists>e \<in> set events. finish_of e = None)"
  "(\<exists>t. trace_from_events_bounded events n = Done (Some t))
     \<longleftrightarrow> events \<noteq> [] \<and> (\<forall>e \<in> set events. finish_of e \<noteq> None)"
  using finishes_None [of "sort_key ev_ts events"]
  by (auto simp: trace_from_events_bounded_def shape_of_events_def Let_def split: option.splits)

text \<open>
  C40: one event can make its trace unreadable. Rolling up a trace panics exactly where some event of
  it reports a latency that carries its finish out of the range of timestamps; otherwise a trace with
  an event in it is read.
\<close>

theorem trace_panics_iff:
  "(trace_from_events_bounded events n = Panic \<longleftrightarrow> (\<exists>e \<in> set events. finish_of e = None))
   \<and> ((\<exists>t. trace_from_events_bounded events n = Done (Some t))
        \<longleftrightarrow> events \<noteq> [] \<and> (\<forall>e \<in> set events. \<exists>f. finish_of e = Some f))"
  using trace_read_iff [of events n] by auto

section \<open>A clipped read\<close>

lemma first_root:
  assumes "es \<noteq> []" and "nested_under es 0 = None"
  shows "\<exists>n ns. build_forest es start = n # ns \<and> ts_event n = es ! 0"
proof -
  have "[0..<length es] = 0 # [1..<length es]" using assms(1) by (simp add: upt_conv_Cons)
  then have roots: "snd (forest_links_of es) = 0 # filter (\<lambda>i. nested_under es i = None) [1..<length es]"
    using assms(2) by (simp add: forest_links_spec)
  have "slot (map Some es) 0 = Some (es ! 0)" using assms(1) by (simp add: slot_def)
  then show ?thesis
    by (auto simp: build_forest_def roots Let_def span_node_def split: prod.splits)
qed

lemma nested_under_prefix:
  assumes "nested_under es 0 = None" and "0 < n" and "es \<noteq> []"
  shows "nested_under (take n es) 0 = None"
proof (rule ccontr)
  assume "nested_under (take n es) 0 \<noteq> None"
  then obtain p where p: "nested_under (take n es) 0 = Some p" by auto
  then obtain q where q: "ev_parent_span_id (take n es ! 0) = Some q" "owns (take n es) q p" "p \<noteq> 0"
    by (auto simp: nested_under_def parent_of_def span_owners_spec split: option.splits if_splits)
  then have "owns es q p" by (auto simp: owns_def)
  then have "fst (span_owners es) q = Some p" by (simp add: span_owners_spec)
  then show False
    using assms q(1,3) by (simp add: nested_under_def parent_of_def)
qed

lemma trace_read:
  assumes "trace_from_events_bounded events n = Done (Some t)"
  shows "events \<noteq> []" and "\<exists>start. tr_spans t = build_forest (sort_key ev_ts events) start"
    and "tr_spans_total t = max n (length events)"
  using assms
  by (auto simp: trace_from_events_bounded_def Let_def split: if_splits rust.splits option.splits)

text \<open>
  A clipped trace is not a changed one, where its oldest event has no parent in the trace: the
  verdict over a read of the oldest spans and one over the whole trace cover the same exchange and
  the same number of spans, and neither is stale for the other.
\<close>

theorem clipped_trace_not_changed:
  assumes "trace_from_events events = Done (Some t)"
    and "trace_from_events_bounded (take n (sort_key ev_ts events)) (length events) = Done (Some c)"
    and "nested_under (sort_key ev_ts events) 0 = None"
  shows "coverage_drift (trace_coverage_of json c) (trace_coverage_of json t) = DriftNone
    \<and> coverage_drift (trace_coverage_of json t) (trace_coverage_of json c) = DriftNone"
proof -
  let ?es = "sort_key ev_ts events"
  have ne: "?es \<noteq> []" using trace_read(1) [OF assms(1) [unfolded trace_from_events_def]] by simp
  have n: "0 < n" using trace_read(1) [OF assms(2)] by (cases n) auto
  have same: "sort_key ev_ts (take n ?es) = take n ?es"
    by (rule sort_key_id_if_sorted) (simp add: take_map [symmetric] sorted_wrt_take)
  obtain s1 where "tr_spans t = build_forest ?es s1"
    using trace_read(2) [OF assms(1) [unfolded trace_from_events_def]] by auto
  with first_root [OF ne assms(3)] obtain x xs where x: "tr_spans t = x # xs" "ts_event x = ?es ! 0" by metis
  obtain s2 where "tr_spans c = build_forest (take n ?es) s2"
    using trace_read(2) [OF assms(2)] same by auto
  moreover have "take n ?es \<noteq> []" using n ne by simp
  ultimately obtain y ys where y: "tr_spans c = y # ys" "ts_event y = ?es ! 0"
    using first_root [OF _ nested_under_prefix [OF assms(3) n ne]] n by (metis nth_take)
  have "tr_spans_total t = length events" "tr_spans_total c = length events"
    using trace_read(3) [OF assms(1) [unfolded trace_from_events_def]] trace_read(3) [OF assms(2)] by auto
  then show ?thesis using x y by (simp add: trace_coverage_of_def coverage_drift_def Let_def)
qed

section \<open>Witnesses\<close>

definition span_at :: "string \<Rightarrow> int \<Rightarrow> string option \<Rightarrow> string option \<Rightarrow> llm_event" where
  "span_at i ts own parent = sample_event\<lparr>ev_id := i, ev_ts := ts, ev_span_id := own, ev_parent_span_id := parent\<rparr>"

lemma forest_roots_witness:
  "map ts_event (build_forest [span_at ''e0'' 0 (Some ''a'') None, span_at ''e1'' 1 (Some ''b'') (Some ''a'')] 0)
   = [span_at ''e0'' 0 (Some ''a'') None]"
proof -
  let ?es = "[span_at ''e0'' 0 (Some ''a'') None, span_at ''e1'' 1 (Some ''b'') (Some ''a'')]"
  have nest: "nested_under ?es 0 = None" "nested_under ?es 1 = Some 0"
    by (simp_all add: nested_under_def span_owners_def parent_of_def span_at_def)
  have "nesting ?es \<subseteq> {(0, 1)}"
  proof
    fix x assume "x \<in> nesting ?es"
    then obtain p i where x: "x = (p, i)" "i < 2" "nested_under ?es i = Some p"
      by (auto simp: nesting_def numeral_2_eq_2)
    then have "i = 0 \<or> i = 1" by auto
    then show "x \<in> {(0, 1)}" using x nest by auto
  qed
  moreover have "acyclic {(0 :: nat, 1 :: nat)}" by (rule acyclicI) (auto elim: trancl.cases)
  ultimately have "acyclic (nesting ?es)" by (rule acyclic_subset [rotated])
  from forest_roots [OF this, of 0] show ?thesis using nest by simp
qed

text \<open>A child that started before its parent: clipping the parent away reads as a changed exchange.\<close>

definition early_child :: "llm_event list" where
  "early_child = [span_at ''e0'' 0 (Some ''a'') (Some ''b''), span_at ''e1'' 1 (Some ''b'') None]"

lemma early_child_forests:
  "build_forest early_child 0 = [TraceSpan (early_child ! 1) 0 None False [TraceSpan (early_child ! 0) 0 None False []]]"
  "build_forest [early_child ! 0] 0 = [TraceSpan (early_child ! 0) 0 None False []]"
proof -
  show "build_forest early_child 0 = [TraceSpan (early_child ! 1) 0 None False [TraceSpan (early_child ! 0) 0 None False []]]"
    by (simp add: early_child_def span_at_def sample_event_def build_forest_def forest_ctx_of_def forest_links_of_def
        span_owners_def parent_of_def slot_def span_node_def num_milliseconds_def upt_rec Let_def)
  show "build_forest [early_child ! 0] 0 = [TraceSpan (early_child ! 0) 0 None False []]"
    by (simp add: early_child_def span_at_def sample_event_def build_forest_def forest_ctx_of_def forest_links_of_def
        span_owners_def parent_of_def slot_def span_node_def num_milliseconds_def upt_rec Let_def)
qed

lemma early_child_traces:
  "\<exists>t. trace_from_events early_child = Done (Some t) \<and> tr_spans t = build_forest early_child 0"
  "\<exists>c. trace_from_events_bounded [early_child ! 0] 2 = Done (Some c) \<and> tr_spans c = build_forest [early_child ! 0] 0"
  by (simp_all add: trace_from_events_def trace_from_events_bounded_def shape_of_events_def finish_of_def
      DATETIME_MIN_def DATETIME_MAX_def early_child_def span_at_def sample_event_def Let_def)

lemma clipped_child_changes:
  "\<exists>t c. trace_from_events early_child = Done (Some t)
    \<and> trace_from_events_bounded [early_child ! 0] 2 = Done (Some c)
    \<and> coverage_drift (trace_coverage_of (\<lambda>_. []) c) (trace_coverage_of (\<lambda>_. []) t) = DriftChanged"
proof -
  obtain t c where t: "trace_from_events early_child = Done (Some t)" "tr_spans t = build_forest early_child 0"
    and c: "trace_from_events_bounded [early_child ! 0] 2 = Done (Some c)" "tr_spans c = build_forest [early_child ! 0] 0"
    using early_child_traces by blast
  have digest: "tc_digest (trace_coverage_of (\<lambda>_. []) x) = Some (fingerprint [ev_id (ts_event n), [], []])"
    if "tr_spans x = n # ns" for x n ns
    using that by (simp add: trace_coverage_of_def payload_text_def Let_def split: option.splits)
  have "tc_digest (trace_coverage_of (\<lambda>_. []) c) = Some (fingerprint [ev_id (early_child ! 0), [], []])"
    "tc_digest (trace_coverage_of (\<lambda>_. []) t) = Some (fingerprint [ev_id (early_child ! 1), [], []])"
    using digest [of c "TraceSpan (early_child ! 0) 0 None False []"] t(2) c(2)
      digest [of t "TraceSpan (early_child ! 1) 0 None False [TraceSpan (early_child ! 0) 0 None False []]"]
    by (simp_all only: early_child_forests trace_span.sel)
  then have "tc_digest (trace_coverage_of (\<lambda>_. []) c) = Some (fingerprint [''e0'', [], []])"
    "tc_digest (trace_coverage_of (\<lambda>_. []) t) = Some (fingerprint [''e1'', [], []])"
    by (simp_all add: early_child_def span_at_def)
  moreover have "fingerprint [''e0'', [], []] \<noteq> fingerprint [''e1'', [], []]"
    by (simp add: fingerprint_def fnv_mix_def)
  ultimately show ?thesis using t(1) c(1) by (auto simp: coverage_drift_def)
qed

lemma clipped_trace_not_changed_witness:
  "\<exists>t c. trace_from_events [span_at ''e0'' 0 None None, span_at ''e1'' 1 None None] = Done (Some t)
    \<and> trace_from_events_bounded [span_at ''e0'' 0 None None] 2 = Done (Some c)
    \<and> coverage_drift (trace_coverage_of (\<lambda>_. []) c) (trace_coverage_of (\<lambda>_. []) t) = DriftNone"
proof -
  let ?es = "[span_at ''e0'' 0 None None, span_at ''e1'' 1 None None]"
  have read: "finish_of (span_at ''e0'' 0 None None) \<noteq> None" "finish_of (span_at ''e1'' 1 None None) \<noteq> None"
    by (simp_all add: finish_of_def span_at_def sample_event_def DATETIME_MIN_def DATETIME_MAX_def)
  have sorted: "sort_key ev_ts ?es = ?es" by (simp add: span_at_def)
  obtain t where t: "trace_from_events ?es = Done (Some t)"
    using trace_read_iff(2) [of ?es "length ?es"] read unfolding trace_from_events_def by auto
  obtain c where c: "trace_from_events_bounded [span_at ''e0'' 0 None None] 2 = Done (Some c)"
    using trace_read_iff(2) [of "[span_at ''e0'' 0 None None]" 2] read by auto
  have "nested_under (sort_key ev_ts ?es) 0 = None"
    by (simp add: nested_under_def parent_of_def span_at_def)
  moreover have "trace_from_events_bounded (take 1 (sort_key ev_ts ?es)) (length ?es) = Done (Some c)"
    unfolding sorted using c by (simp add: numeral_2_eq_2)
  ultimately show ?thesis using clipped_trace_not_changed [OF t] c t by blast
qed

lemma forest_nests_by_parent_witness:
  "\<exists>n. build_forest early_child 0 = [n] \<and> ts_event n = early_child ! 1
     \<and> node_linked early_child 0 n \<and> (\<exists>c. ts_children n = [c] \<and> node_linked early_child 0 c)"
proof -
  let ?c = "TraceSpan (early_child ! 0) 0 None False []"
  have "\<forall>n \<in> set (build_forest early_child 0). \<forall>m \<in> set (all_nodes n). node_linked early_child 0 m"
    by (rule forest_nests_by_parent)
  then show ?thesis unfolding early_child_forests by simp
qed

text \<open>A latency of 300 million years: the trace it reports on is never read again.\<close>

definition endless_call :: llm_event where
  "endless_call = (span_at ''e0'' 0 None None)\<lparr>ev_latency_ms := Some 9223372036854775807\<rparr>"

lemma endless_call_panics: "finish_of endless_call = None"
  by (simp add: finish_of_def endless_call_def span_at_def sample_event_def DATETIME_MAX_def DATETIME_MIN_def Let_def)

lemma trace_panics_iff_witness:
  "trace_from_events_bounded [span_at ''e1'' 1 None None, endless_call] 2 = Panic
   \<and> (\<exists>t. trace_from_events_bounded [span_at ''e1'' 1 None None] 1 = Done (Some t))"
proof -
  have "finish_of (span_at ''e1'' 1 None None) \<noteq> None"
    by (simp add: finish_of_def span_at_def sample_event_def DATETIME_MIN_def DATETIME_MAX_def)
  then show ?thesis
    using trace_panics_iff [of "[span_at ''e1'' 1 None None, endless_call]" 2] endless_call_panics
      trace_panics_iff [of "[span_at ''e1'' 1 None None]" 1] by auto
qed

end
