(* ===== verification/AuthThrottle.thy ===== *)
theory AuthThrottle
  imports LT_Prelude "HOL-Library.Word"
begin

text \<open>
  The failure counter of \<^verbatim>\<open>crates/api/src/auth_throttle/budget.rs\<close>: how many rejected credentials a
  source may present per fixed window. Each method is one critical section and takes the reading of
  the monotonic clock it makes. The order in which a hash map lists its keys is unspecified: the
  choice of the first one is the argument \<open>pick\<close>. Log lines are not modelled.
\<close>

section \<open>The counter\<close>

type_synonym u32 = "32 word"

record auth_throttle =
  at_max_failures :: u32
  at_window :: duration
  at_max_sources :: nat
  at_tracked :: nat
  at_started :: instant
  at_counts :: "(string \<times> u32) list"
  at_evicted :: nat

definition throttle_new :: "u32 \<Rightarrow> duration \<Rightarrow> nat \<Rightarrow> instant \<Rightarrow> auth_throttle" where
  "throttle_new max_failures window max_sources now =
     \<lparr>at_max_failures = max_failures, at_window = max window 1000000, at_max_sources = max max_sources 1,
      at_tracked = 0, at_started = now, at_counts = [], at_evicted = 0\<rparr>"

definition throttle_enabled :: "auth_throttle \<Rightarrow> bool" where
  "throttle_enabled t \<longleftrightarrow> 0 < at_max_failures t"

definition throttle_roll :: "auth_throttle \<Rightarrow> instant \<Rightarrow> auth_throttle" where
  "throttle_roll t now =
     (if at_window t \<le> duration_since now (at_started t)
      then t\<lparr>at_counts := [], at_evicted := 0, at_started := now, at_tracked := 0\<rparr>
      else t)"

definition failures_of :: "auth_throttle \<Rightarrow> string \<Rightarrow> u32" where
  "failures_of t source = (case map_of (at_counts t) source of Some n \<Rightarrow> n | None \<Rightarrow> 0)"

text \<open>\<open>Some retry\<close> is the refusal with its \<^verbatim>\<open>Retry-After\<close>, in seconds.\<close>

definition throttle_check :: "auth_throttle \<Rightarrow> instant \<Rightarrow> string \<Rightarrow> auth_throttle \<times> nat option" where
  "throttle_check t now source =
     (if \<not> throttle_enabled t \<or> at_tracked t = 0 then (t, None)
      else (let t = throttle_roll t now in
        if failures_of t source < at_max_failures t then (t, None)
        else (t, Some (as_secs (at_window t - duration_since now (at_started t)) + 1))))"

definition throttle_success :: "auth_throttle \<Rightarrow> string \<Rightarrow> auth_throttle" where
  "throttle_success t source =
     (if \<not> throttle_enabled t \<or> at_tracked t = 0 then t
      else if map_of (at_counts t) source = None then t
      else (let counts = AList.delete source (at_counts t)
            in t\<lparr>at_counts := counts, at_tracked := length counts\<rparr>))"

definition u32_saturating_succ :: "u32 \<Rightarrow> u32" where
  "u32_saturating_succ n = (if n = - 1 then n else n + 1)"

definition evict_one :: "((string \<times> u32) list \<Rightarrow> string) \<Rightarrow> auth_throttle \<Rightarrow> auth_throttle" where
  "evict_one pick t =
     (if at_counts t = [] then t
      else t\<lparr>at_counts := AList.delete (pick (at_counts t)) (at_counts t), at_evicted := at_evicted t + 1\<rparr>)"

definition throttle_failure :: "((string \<times> u32) list \<Rightarrow> string) \<Rightarrow> auth_throttle \<Rightarrow> instant \<Rightarrow> string \<Rightarrow> auth_throttle" where
  "throttle_failure pick t now source =
     (if \<not> throttle_enabled t then t
      else (let t = throttle_roll t now in
        case map_of (at_counts t) source of
          Some n \<Rightarrow> t\<lparr>at_counts := AList.update source (u32_saturating_succ n) (at_counts t)\<rparr>
        | None \<Rightarrow>
            (let t = (if at_max_sources t \<le> length (at_counts t) then evict_one pick t else t);
                 counts = AList.update source 1 (at_counts t)
             in t\<lparr>at_counts := counts, at_tracked := length counts\<rparr>)))"

section \<open>The memory it may cost\<close>

definition throttle_wf :: "auth_throttle \<Rightarrow> bool" where
  "throttle_wf t \<longleftrightarrow> hm_wf (at_counts t) \<and> at_tracked t = length (at_counts t)
     \<and> length (at_counts t) \<le> at_max_sources t \<and> 0 < at_max_sources t \<and> 0 < at_window t
     \<and> 0 \<notin> snd ` set (at_counts t)"

text \<open>What a hash map promises of its first key: that it is one of them.\<close>

definition picks_a_key :: "((string \<times> u32) list \<Rightarrow> string) \<Rightarrow> bool" where
  "picks_a_key pick \<longleftrightarrow> (\<forall>m. m \<noteq> [] \<longrightarrow> pick m \<in> fst ` set m)"

lemma throttle_wf_new: "throttle_wf (throttle_new m w s now)"
  by (simp add: throttle_wf_def throttle_new_def less_max_iff_disj)

lemma throttle_wf_roll: "throttle_wf t \<Longrightarrow> throttle_wf (throttle_roll t now)"
  by (simp add: throttle_wf_def throttle_roll_def)

lemma throttle_wf_check: "throttle_wf t \<Longrightarrow> throttle_wf (fst (throttle_check t now s))"
  using throttle_wf_roll [of t now] by (auto simp: throttle_check_def Let_def)

lemma delete_values: "snd ` set (AList.delete k m) \<subseteq> snd ` set m"
  by (induction m) auto

lemma update_values: "snd ` set (AList.update k v m) \<subseteq> insert v (snd ` set m)"
  by (induction m) auto

lemma length_delete_le: "length (AList.delete k m) \<le> length m"
  by (induction m) auto

lemma throttle_wf_success: "throttle_wf t \<Longrightarrow> throttle_wf (throttle_success t s)"
  using delete_values [of s "at_counts t"] length_delete_le [of s "at_counts t"]
  by (auto simp: throttle_wf_def throttle_success_def Let_def)

lemma saturating_succ_pos: "u32_saturating_succ n \<noteq> 0"
  by (auto simp: u32_saturating_succ_def eq_neg_iff_add_eq_0)

lemma throttle_wf_failure:
  assumes "throttle_wf t" and "picks_a_key pick"
  shows "throttle_wf (throttle_failure pick t now s)"
proof -
  let ?r = "throttle_roll t now"
  have r: "throttle_wf ?r" using assms(1) by (rule throttle_wf_roll)
  show ?thesis
  proof (cases "map_of (at_counts ?r) s")
    case (Some n)
    then have "throttle_wf (?r\<lparr>at_counts := AList.update s (u32_saturating_succ n) (at_counts ?r)\<rparr>)"
      using r update_values [of s "u32_saturating_succ n" "at_counts ?r"] saturating_succ_pos [of n]
        map_of_dom [of "at_counts ?r" s]
      by (auto simp: throttle_wf_def length_update)
    then show ?thesis using Some assms(1) by (simp add: throttle_failure_def Let_def)
  next
    case None
    define e where "e = (if at_max_sources ?r \<le> length (at_counts ?r) then evict_one pick ?r else ?r)"
    have "length (at_counts e) < at_max_sources ?r \<and> hm_wf (at_counts e) \<and> map_of (at_counts e) s = None
      \<and> 0 \<notin> snd ` set (at_counts e) \<and> at_max_sources e = at_max_sources ?r \<and> at_window e = at_window ?r"
    proof (cases "at_max_sources ?r \<le> length (at_counts ?r)")
      case True
      then have "at_counts ?r \<noteq> []" using r by (auto simp: throttle_wf_def)
      moreover from this have "pick (at_counts ?r) \<in> fst ` set (at_counts ?r)"
        using assms(2) by (simp add: picks_a_key_def)
      ultimately show ?thesis
        using True r None length_delete [of "at_counts ?r" "pick (at_counts ?r)"]
          delete_values [of "pick (at_counts ?r)" "at_counts ?r"]
        by (auto simp: e_def evict_one_def throttle_wf_def delete_conv)
    next
      case False
      then show ?thesis using r None by (simp add: e_def throttle_wf_def)
    qed
    then have "throttle_wf (e\<lparr>at_counts := AList.update s 1 (at_counts e), at_tracked := length (AList.update s 1 (at_counts e))\<rparr>)"
      using r update_values [of s 1 "at_counts e"] by (auto simp: throttle_wf_def length_update)
    then show ?thesis using None assms(1) by (simp add: throttle_failure_def e_def Let_def)
  qed
qed

section \<open>Sequences of operations\<close>

text \<open>
  Requests run concurrently, and the critical sections of their checks, failures and successes
  interleave in any order: a history is the list of those sections with their clock readings.
\<close>

datatype throttle_op = ThCheck string | ThSuccess string | ThFailure string

fun throttle_step :: "((string \<times> u32) list \<Rightarrow> string) \<Rightarrow> instant \<Rightarrow> throttle_op \<Rightarrow> auth_throttle \<Rightarrow> auth_throttle" where
  "throttle_step pick now (ThCheck s) t = fst (throttle_check t now s)"
| "throttle_step pick now (ThSuccess s) t = throttle_success t s"
| "throttle_step pick now (ThFailure s) t = throttle_failure pick t now s"

fun throttle_run :: "((string \<times> u32) list \<Rightarrow> string) \<Rightarrow> auth_throttle \<Rightarrow> (instant \<times> throttle_op) list \<Rightarrow> auth_throttle" where
  "throttle_run pick t [] = t"
| "throttle_run pick t ((now, op) # ops) = throttle_run pick (throttle_step pick now op t) ops"

lemma throttle_run_append: "throttle_run pick t (xs @ ys) = throttle_run pick (throttle_run pick t xs) ys"
  by (induction pick t xs rule: throttle_run.induct) simp_all

definition failed :: "string \<Rightarrow> (instant \<times> throttle_op) list \<Rightarrow> nat" where
  "failed s ops = length (filter (\<lambda>(now, op). op = ThFailure s) ops)"

lemma failed_simps [simp]:
  "failed s [] = 0" "failed s ((now, op) # ops) = (if op = ThFailure s then Suc (failed s ops) else failed s ops)"
  by (simp_all add: failed_def)

lemma throttle_wf_step:
  "throttle_wf t \<Longrightarrow> picks_a_key pick \<Longrightarrow> throttle_wf (throttle_step pick now op t)"
  by (cases op) (simp_all add: throttle_wf_check throttle_wf_success throttle_wf_failure)

lemma throttle_wf_run: "throttle_wf t \<Longrightarrow> picks_a_key pick \<Longrightarrow> throttle_wf (throttle_run pick t ops)"
  by (induction pick t ops rule: throttle_run.induct) (simp_all add: throttle_wf_step)

lemma unat_saturating_succ: "unat (u32_saturating_succ n) = (if n = - 1 then unat n else Suc (unat n))"
proof -
  have "1 + n \<noteq> 0 \<longleftrightarrow> n \<noteq> - 1" by (metis add.commute eq_neg_iff_add_eq_0)
  then show ?thesis by (simp add: u32_saturating_succ_def add.commute [of n] unatSuc)
qed

lemma failures_of_roll: "failures_of (throttle_roll t now) s = failures_of t s \<or> failures_of (throttle_roll t now) s = 0"
  by (simp add: throttle_roll_def failures_of_def)

lemma roll_fields [simp]:
  "at_max_failures (throttle_roll t now) = at_max_failures t" "at_window (throttle_roll t now) = at_window t"
  "at_max_sources (throttle_roll t now) = at_max_sources t"
  by (simp_all add: throttle_roll_def)

lemma failures_of_update:
  "failures_of (t\<lparr>at_counts := AList.update x v (at_counts t)\<rparr>) s = (if s = x then v else failures_of t s)"
  "failures_of (t\<lparr>at_counts := AList.update x v (at_counts t), at_tracked := n\<rparr>) s = (if s = x then v else failures_of t s)"
  "failures_of (t\<lparr>at_counts := AList.delete x (at_counts t), at_tracked := n\<rparr>) s = (if s = x then 0 else failures_of t s)"
  by (simp_all add: failures_of_def)

lemma failures_of_evict: "failures_of (evict_one pick t) s \<le> failures_of t s"
  by (simp add: evict_one_def failures_of_def)

text \<open>A source's count grows only by its own failures.\<close>

lemma failures_of_failure:
  "unat (failures_of (throttle_failure pick t now x) s) \<le> unat (failures_of t s) + (if x = s then 1 else 0)"
proof (cases "throttle_enabled t")
  case True
  let ?r = "throttle_roll t now"
  let ?e = "if at_max_sources ?r \<le> length (at_counts ?r) then evict_one pick ?r else ?r"
  have roll: "unat (failures_of ?r s) \<le> unat (failures_of t s)" using failures_of_roll [of t now s] by auto
  show ?thesis
  proof (cases "map_of (at_counts ?r) x")
    case (Some n)
    then have n: "failures_of ?r x = n" by (simp add: failures_of_def)
    have "failures_of (throttle_failure pick t now x) s = (if s = x then u32_saturating_succ n else failures_of ?r s)"
      using Some True by (simp add: throttle_failure_def Let_def failures_of_update)
    then show ?thesis using roll n by (auto simp: unat_saturating_succ)
  next
    case None
    have "failures_of (throttle_failure pick t now x) s = (if s = x then 1 else failures_of ?e s)"
      using None True by (simp add: throttle_failure_def Let_def failures_of_update)
    moreover have "failures_of ?e s \<le> failures_of ?r s" using failures_of_evict [of pick ?r s] by simp
    ultimately show ?thesis using roll by (auto simp: word_le_nat_alt)
  qed
qed (simp add: throttle_failure_def)

lemma failures_of_step:
  "unat (failures_of (throttle_step pick now op t) s) \<le> unat (failures_of t s) + (if op = ThFailure s then 1 else 0)"
proof (cases op)
  case (ThCheck x)
  then show ?thesis using failures_of_roll [of t now s] by (auto simp: throttle_check_def Let_def)
next
  case (ThSuccess x)
  then show ?thesis by (simp add: throttle_success_def Let_def failures_of_update)
next
  case (ThFailure x)
  then show ?thesis using failures_of_failure [of pick t now x s] by simp
qed

lemma failures_of_run:
  "unat (failures_of (throttle_run pick t ops) s) \<le> unat (failures_of t s) + failed s ops"
proof (induction pick t ops rule: throttle_run.induct)
  case (2 pick t now op ops)
  then show ?case using failures_of_step [of pick now op t s] by (auto split: if_splits)
qed simp

lemma throttle_fields:
  "at_max_failures (throttle_step pick now op t) = at_max_failures t"
  "at_window (throttle_step pick now op t) = at_window t"
  "at_max_sources (throttle_step pick now op t) = at_max_sources t"
  by (cases op; simp add: throttle_check_def throttle_success_def throttle_failure_def throttle_roll_def
      evict_one_def Let_def split: option.splits)+

lemma throttle_run_fields:
  "at_max_failures (throttle_run pick t ops) = at_max_failures t"
  "at_window (throttle_run pick t ops) = at_window t"
  "at_max_sources (throttle_run pick t ops) = at_max_sources t"
  by (induction pick t ops rule: throttle_run.induct) (simp_all add: throttle_fields)

text \<open>
  Nobody is locked out by somebody else. Whatever other sources do, however the critical sections
  interleave and whichever entry is evicted, a source with budget left after its own failures is let
  through.
\<close>

theorem throttle_is_per_source:
  assumes "unat (failures_of t s) + failed s ops < unat (at_max_failures t)"
  shows "snd (throttle_check (throttle_run pick t ops) now s) = None"
proof -
  let ?t = "throttle_run pick t ops"
  have "unat (failures_of ?t s) < unat (at_max_failures t)" using assms failures_of_run [of pick t ops s] by simp
  moreover have "unat (failures_of (throttle_roll ?t now) s) \<le> unat (failures_of ?t s)"
    using failures_of_roll [of ?t now s] by auto
  ultimately have "failures_of (throttle_roll ?t now) s < at_max_failures (throttle_roll ?t now)"
    by (simp add: word_less_nat_alt throttle_run_fields)
  then show ?thesis by (simp add: throttle_check_def Let_def)
qed

section \<open>A spent budget\<close>

definition in_window :: "auth_throttle \<Rightarrow> instant \<Rightarrow> bool" where
  "in_window t now \<longleftrightarrow> duration_since now (at_started t) < at_window t"

lemma roll_in_window [simp]: "in_window t now \<Longrightarrow> throttle_roll t now = t"
  by (simp add: in_window_def throttle_roll_def)

definition sources_of :: "auth_throttle \<Rightarrow> (instant \<times> throttle_op) list \<Rightarrow> string set" where
  "sources_of t ops = fst ` set (at_counts t) \<union> {x. \<exists>now. (now, ThFailure x) \<in> set ops}"

lemma finite_sources: "finite (sources_of t ops)"
proof -
  have "{x. \<exists>now. (now, ThFailure x) \<in> set ops} \<subseteq> (\<lambda>(now, op). case op of ThFailure x \<Rightarrow> x | ThCheck x \<Rightarrow> x | ThSuccess x \<Rightarrow> x) ` set ops"
    by force
  then show ?thesis unfolding sources_of_def by (meson finite_UnI finite_imageI finite_set finite_subset)
qed

lemma no_eviction:
  assumes "throttle_wf t" and "x \<notin> fst ` set (at_counts t)" and "card (insert x (fst ` set (at_counts t))) \<le> at_max_sources t"
  shows "length (at_counts t) < at_max_sources t"
proof -
  have "card (fst ` set (at_counts t)) = length (at_counts t)"
    using assms(1) by (metis throttle_wf_def distinct_card list.set_map length_map)
  then show ?thesis using assms(2,3) by simp
qed

lemma step_in_window:
  assumes "throttle_wf t" and "throttle_enabled t" and "in_window t now" and "op \<noteq> ThSuccess s"
    and "card (sources_of t ((now, op) # ops)) \<le> at_max_sources t"
  shows "unat (failures_of (throttle_step pick now op t) s)
      = (if op = ThFailure s then (if failures_of t s = - 1 then unat (failures_of t s) else Suc (unat (failures_of t s)))
         else unat (failures_of t s))"
    and "sources_of (throttle_step pick now op t) ops \<subseteq> sources_of t ((now, op) # ops)"
    and "at_started (throttle_step pick now op t) = at_started t"
proof -
  have room: "map_of (at_counts t) x = None \<longrightarrow> length (at_counts t) < at_max_sources t" if "op = ThFailure x" for x
  proof
    assume "map_of (at_counts t) x = None"
    moreover have "insert x (fst ` set (at_counts t)) \<subseteq> sources_of t ((now, op) # ops)"
      using that by (auto simp: sources_of_def)
    then have "card (insert x (fst ` set (at_counts t))) \<le> at_max_sources t"
      by (rule le_trans [OF card_mono [OF finite_sources] assms(5)])
    ultimately show "length (at_counts t) < at_max_sources t"
      using no_eviction [OF assms(1)] by (metis map_of_dom)
  qed
  show "unat (failures_of (throttle_step pick now op t) s)
      = (if op = ThFailure s then (if failures_of t s = - 1 then unat (failures_of t s) else Suc (unat (failures_of t s)))
         else unat (failures_of t s))"
  proof (cases op)
    case (ThCheck x)
    then show ?thesis using assms(3) by (simp add: throttle_check_def Let_def)
  next
    case (ThSuccess x)
    then have "x \<noteq> s" using assms(4) by simp
    then show ?thesis using ThSuccess by (simp add: throttle_success_def Let_def failures_of_update)
  next
    case (ThFailure x)
    show ?thesis
    proof (cases "map_of (at_counts t) x")
      case None
      then have "failures_of t x = 0" by (simp add: failures_of_def)
      then show ?thesis
        using ThFailure None room assms(2,3) by (auto simp: throttle_failure_def Let_def failures_of_update)
    next
      case (Some n)
      then have "failures_of t x = n" by (simp add: failures_of_def)
      then show ?thesis using ThFailure Some assms(2,3)
        by (auto simp: throttle_failure_def Let_def failures_of_update unat_saturating_succ)
    qed
  qed
  show "sources_of (throttle_step pick now op t) ops \<subseteq> sources_of t ((now, op) # ops)"
  proof (cases op)
    case (ThFailure x)
    then show ?thesis using room [OF ThFailure] assms(2,3)
      by (auto simp: throttle_failure_def Let_def sources_of_def dom_update split: option.splits)
  next
    case (ThSuccess x)
    have "fst ` set (AList.delete x (at_counts t)) \<subseteq> fst ` set (at_counts t)" by (auto simp: AList.delete_eq)
    then show ?thesis using ThSuccess by (auto simp: throttle_success_def Let_def sources_of_def)
  qed (use assms in \<open>auto simp: throttle_check_def Let_def sources_of_def\<close>)
  show "at_started (throttle_step pick now op t) = at_started t"
    using assms(3) room by (cases op) (auto simp: throttle_check_def throttle_success_def throttle_failure_def Let_def
      split: option.splits)
qed

lemma unat_max_u32: "unat (- 1 :: u32) = 2 ^ 32 - 1"
  by (simp add: unsigned_minus_1_eq_mask mask_eq_exp_minus_1)

lemma failures_in_window:
  assumes "throttle_wf t" and "throttle_enabled t" and "picks_a_key pick"
    and "\<forall>(now, op) \<in> set ops. in_window t now \<and> op \<noteq> ThSuccess s"
    and "card (sources_of t ops) \<le> at_max_sources t" and "n < 2 ^ 32"
    and "n \<le> unat (failures_of t s) + failed s ops"
  shows "n \<le> unat (failures_of (throttle_run pick t ops) s) \<and> at_started (throttle_run pick t ops) = at_started t"
  using assms
proof (induction pick t ops rule: throttle_run.induct)
  case (2 pick t now op ops)
  let ?u = "throttle_step pick now op t"
  have "in_window t now" "op \<noteq> ThSuccess s" using 2(5) by auto
  note step = step_in_window [OF 2(2,3) this 2(6), of pick]
  have "card (sources_of ?u ops) \<le> at_max_sources ?u"
    using 2(6) card_mono [OF finite_sources step(2)] by (simp add: throttle_fields)
  moreover have "\<forall>(now', op') \<in> set ops. in_window ?u now' \<and> op' \<noteq> ThSuccess s"
    using 2(5) step(3) by (auto simp: in_window_def throttle_fields)
  moreover have "n \<le> unat (failures_of ?u s) + failed s ops"
    using 2(7,8) step(1) unat_max_u32 by (cases "failures_of t s = - 1") (auto split: if_splits)
  ultimately show ?case
    using 2(1) throttle_wf_step [OF 2(2,4)] 2(3,4,7) step(3) by (simp add: throttle_enabled_def throttle_fields)
qed simp

lemma retry_exact:
  assumes "at_started t \<le> now" and "in_window t now"
    and "retry = as_secs (at_window t - duration_since now (at_started t)) + 1"
  shows "at_started t + int (at_window t) < now + int retry * 1000000000"
    and "now + int retry * 1000000000 \<le> at_started t + int (at_window t) + 1000000000"
proof -
  let ?left = "at_window t - duration_since now (at_started t)"
  have e: "int ?left = at_started t + int (at_window t) - now"
    using assms(1,2) by (simp add: in_window_def duration_since_def of_nat_diff)
  have "?left < retry * 1000000000 \<and> retry * 1000000000 \<le> ?left + 1000000000"
    using assms(3) div_mult_mod_eq [of ?left 1000000000] by (simp add: as_secs_def)
  then have "int ?left < int retry * 1000000000 \<and> int retry * 1000000000 \<le> int ?left + 1000000000"
    by linarith
  with e show "at_started t + int (at_window t) < now + int retry * 1000000000"
    and "now + int retry * 1000000000 \<le> at_started t + int (at_window t) + 1000000000" by simp_all
qed

text \<open>
  A spent budget is refused until the window ends. However the critical sections of a window
  interleave, once a source has failed as often as its budget allows and has not authenticated, every
  check of it is refused and changes nothing, provided the failing sources of the window fit the
  table; the stated wait ends after the window does, by at most a second.
\<close>

lemma spent_budget_refused:
  assumes "throttle_wf t" and "throttle_enabled t" and "picks_a_key pick"
    and "\<forall>(now, op) \<in> set ops. in_window t now \<and> op \<noteq> ThSuccess s"
    and "card (sources_of t ops) \<le> at_max_sources t"
    and "unat (at_max_failures t) \<le> unat (failures_of t s) + failed s ops"
    and "in_window t now" and "at_started t \<le> now"
  shows "\<exists>retry. throttle_check (throttle_run pick t ops) now s = (throttle_run pick t ops, Some retry)
    \<and> at_started t + int (at_window t) < now + int retry * 1000000000
    \<and> now + int retry * 1000000000 \<le> at_started t + int (at_window t) + 1000000000"
proof -
  let ?t = "throttle_run pick t ops"
  have full: "unat (at_max_failures t) \<le> unat (failures_of ?t s)" and start: "at_started ?t = at_started t"
    using failures_in_window [OF assms(1-5) _ assms(6)] unsigned_less [of "at_max_failures t"] by auto
  then have win: "in_window ?t now" using assms(7) by (simp add: in_window_def throttle_run_fields)
  have "0 < unat (failures_of ?t s)" using full assms(2) by (simp add: throttle_enabled_def word_less_nat_alt)
  then have "at_counts ?t \<noteq> []" by (auto simp: failures_of_def)
  then have "at_tracked ?t \<noteq> 0" using throttle_wf_run [OF assms(1,3)] by (simp add: throttle_wf_def)
  moreover have "\<not> failures_of ?t s < at_max_failures ?t"
    using full by (simp add: throttle_run_fields word_less_nat_alt)
  moreover have "throttle_enabled ?t" using assms(2) by (simp add: throttle_enabled_def throttle_run_fields)
  ultimately have "throttle_check ?t now s = (?t, Some (as_secs (at_window ?t - duration_since now (at_started ?t)) + 1))"
    using win by (simp add: throttle_check_def Let_def)
  then show ?thesis
    using retry_exact [OF assms(8,7) refl] start by (auto simp: throttle_run_fields)
qed

section \<open>Witnesses\<close>

definition two_a_minute :: auth_throttle where
  "two_a_minute = throttle_new 2 (duration_of_secs 60) 16 0"

definition first_key :: "(string \<times> u32) list \<Rightarrow> string" where
  "first_key m = fst (hd m)"

lemma picks_first_key: "picks_a_key first_key"
  by (simp add: picks_a_key_def first_key_def)

definition guesses :: "(instant \<times> throttle_op) list" where
  "guesses = [(1, ThFailure ''a''), (2, ThFailure ''b''), (3, ThFailure ''a'')]"

lemma throttle_is_per_source_witness:
  "snd (throttle_check (throttle_run first_key two_a_minute guesses) 4 ''b'') = None"
  by (rule throttle_is_per_source)
     (simp add: guesses_def two_a_minute_def throttle_new_def failures_of_def)

lemma two_a_minute_open:
  "throttle_wf two_a_minute" "throttle_enabled two_a_minute" "in_window two_a_minute 4"
  "\<forall>(now, op) \<in> set guesses. in_window two_a_minute now \<and> op \<noteq> ThSuccess ''a''"
  "card (sources_of two_a_minute guesses) \<le> at_max_sources two_a_minute"
proof -
  show "throttle_wf two_a_minute" by (simp add: two_a_minute_def throttle_wf_new)
  show "throttle_enabled two_a_minute" "in_window two_a_minute 4"
    "\<forall>(now, op) \<in> set guesses. in_window two_a_minute now \<and> op \<noteq> ThSuccess ''a''"
    by (simp_all add: two_a_minute_def throttle_new_def throttle_enabled_def in_window_def duration_since_def
        duration_of_secs_def guesses_def)
  have "sources_of two_a_minute guesses \<subseteq> {''a'', ''b''}"
    by (auto simp: sources_of_def guesses_def two_a_minute_def throttle_new_def)
  then have "card (sources_of two_a_minute guesses) \<le> card {''a'', ''b''}" by (rule card_mono [rotated]) simp
  then show "card (sources_of two_a_minute guesses) \<le> at_max_sources two_a_minute"
    by (simp add: two_a_minute_def throttle_new_def)
qed

lemma spent_budget_refused_witness:
  "\<exists>retry. snd (throttle_check (throttle_run first_key two_a_minute guesses) 4 ''a'') = Some retry
     \<and> 60000000000 < 4 + int retry * 1000000000"
proof -
  have "unat (at_max_failures two_a_minute) \<le> unat (failures_of two_a_minute ''a'') + failed ''a'' guesses"
    "at_started two_a_minute \<le> 4" "at_started two_a_minute + int (at_window two_a_minute) = 60000000000"
    by (simp_all add: guesses_def two_a_minute_def throttle_new_def duration_of_secs_def)
  with spent_budget_refused [OF two_a_minute_open(1,2) picks_first_key two_a_minute_open(4,5) _ two_a_minute_open(3)]
  show ?thesis by (metis snd_conv)
qed

text \<open>
  A request that passed its check before the budget was spent can still succeed after it, and then
  lifts the refusal.
\<close>

lemma late_success_lifts_block:
  "snd (throttle_check (throttle_run first_key two_a_minute (guesses @ [(4, ThSuccess ''a'')])) 5 ''a'') = None"
  by (simp add: two_a_minute_def guesses_def throttle_new_def throttle_failure_def throttle_enabled_def
      throttle_success_def throttle_check_def throttle_roll_def duration_since_def duration_of_secs_def
      failures_of_def u32_saturating_succ_def Let_def)

end
