(* ===== verification/Credentials.thy ===== *)
theory Credentials
  imports IngestDoor AuthThrottle
begin

text \<open>
  Who a request speaks for: keys and their digests (\<^verbatim>\<open>crates/api/src/auth.rs\<close>,
  \<^verbatim>\<open>crates/core/src/project.rs\<close>), their life (\<^verbatim>\<open>projects_keys.rs\<close> over
  \<^verbatim>\<open>crates/store/src/sqlite/projects.rs\<close>), and \<open>authenticate\<close> of \<^verbatim>\<open>guards.rs\<close> with the throttle in
  front of it and the policy cache of \<^verbatim>\<open>state.rs\<close> behind it. The SHA-256 function and the UUIDs of
  new keys are arguments; the detached stamping of \<open>last_used_at\<close>, log lines and message texts are
  not modelled.
\<close>

section \<open>Scopes of a key\<close>

fun key_scope_as_str :: "key_scope \<Rightarrow> string" where
  "key_scope_as_str KsIngest = ''ingest''"
| "key_scope_as_str KsRead = ''read''"
| "key_scope_as_str KsManage = ''manage''"

definition ALL_SCOPES :: "key_scope list" where
  "ALL_SCOPES = [KsIngest, KsRead, KsManage]"

definition key_scope_parse :: "string \<Rightarrow> key_scope option" where
  "key_scope_parse s = wire_search ALL_SCOPES key_scope_as_str (to_ascii_lowercase (str_trim s))"

definition default_scopes :: "key_scope list" where
  "default_scopes = [KsIngest, KsRead]"

definition encode_scopes :: "(string list \<Rightarrow> string) \<Rightarrow> key_scope list \<Rightarrow> string" where
  "encode_scopes to_json scopes = to_json (map key_scope_as_str scopes)"

definition decode_scopes :: "(string \<Rightarrow> string list option) \<Rightarrow> string option \<Rightarrow> key_scope list" where
  "decode_scopes from_json raw =
     (let raw = (case map_option str_trim raw of Some r \<Rightarrow> if r = [] then None else Some r | None \<Rightarrow> None) in
      case raw of
        None \<Rightarrow> default_scopes
      | Some r \<Rightarrow> (let parsed = List.map_filter key_scope_parse (case from_json r of Some xs \<Rightarrow> xs | None \<Rightarrow> [])
          in if parsed = [] then default_scopes else parsed))"

fun collect_scopes :: "key_scope list \<Rightarrow> string list \<Rightarrow> error_code + key_scope list" where
  "collect_scopes out [] = Inr out"
| "collect_scopes out (s # ss) = (case key_scope_parse s of
     None \<Rightarrow> Inl EcBadRequest
   | Some p \<Rightarrow> if p \<in> set out then collect_scopes out ss else collect_scopes (out @ [p]) ss)"

definition parse_scopes :: "string list option \<Rightarrow> error_code + key_scope list" where
  "parse_scopes raw = (case raw of
     None \<Rightarrow> Inr default_scopes
   | Some r \<Rightarrow> if r = [] then Inl EcBadRequest else collect_scopes [] r)"

section \<open>Keys and digests\<close>

record api_key =
  ak_id :: string
  ak_project :: string
  ak_name :: string
  ak_prefix :: string
  ak_hash :: string
  ak_created_at :: instant
  ak_last_used_at :: "instant option"
  ak_revoked :: bool
  ak_scopes :: "key_scope list"
  ak_expires_at :: "instant option"

definition is_expired :: "api_key \<Rightarrow> instant \<Rightarrow> bool" where
  "is_expired k now \<longleftrightarrow> (case ak_expires_at k of None \<Rightarrow> False | Some e \<Rightarrow> e \<le> now)"

text \<open>Two secrets compare by their digests, so never byte by byte.\<close>

definition secret_eq :: "(string \<Rightarrow> string) \<Rightarrow> string \<Rightarrow> string \<Rightarrow> bool" where
  "secret_eq sha presented expected \<longleftrightarrow> sha presented = sha expected"

definition hex_digit :: "nat \<Rightarrow> char" where
  "hex_digit n = char_of (if n < 10 then 48 + n else 87 + n)"

definition sha256_hex :: "(string \<Rightarrow> string) \<Rightarrow> string \<Rightarrow> string" where
  "sha256_hex sha s = concat (map (\<lambda>c. [hex_digit (of_char c div 16), hex_digit (of_char c mod 16)]) (sha s))"

definition hash_with_salt :: "(string \<Rightarrow> string) \<Rightarrow> string \<Rightarrow> string \<Rightarrow> string" where
  "hash_with_salt sha salt full_key = sha256_hex sha (salt @ '':'' @ full_key)"

definition without_dashes :: "string \<Rightarrow> string" where
  "without_dashes s = filter (\<lambda>c. c \<noteq> CHR ''-'') s"

definition stored_hash :: "(string \<Rightarrow> string) \<Rightarrow> string \<Rightarrow> string \<Rightarrow> string" where
  "stored_hash sha salt_id full_key =
     (let salt = without_dashes salt_id in salt @ '':'' @ hash_with_salt sha salt full_key)"

definition verify_key :: "(string \<Rightarrow> string) \<Rightarrow> string \<Rightarrow> string \<Rightarrow> bool" where
  "verify_key sha stored full_key = (case split_once CHR '':'' stored of
     Some (salt, digest) \<Rightarrow> secret_eq sha (hash_with_salt sha salt full_key) digest
   | None \<Rightarrow> False)"

definition KEY_SCHEME :: string where
  "KEY_SCHEME = ''lt''"

definition DEVICE_KEY_SCHEME :: string where
  "DEVICE_KEY_SCHEME = ''ltd''"

record generated_key =
  gk_prefix :: string
  gk_full_key :: string
  gk_key_hash :: string

text \<open>The four UUIDs of one call, in the order they are drawn.\<close>

type_synonym key_ids = "string \<times> string \<times> string \<times> string"

fun generate_scheme :: "(string \<Rightarrow> string) \<Rightarrow> string \<Rightarrow> key_ids \<Rightarrow> generated_key" where
  "generate_scheme sha scheme (i1, i2, i3, i4) =
     (let prefix = take 8 (without_dashes i1);
          secret = without_dashes i2 @ without_dashes i3;
          full_key = scheme @ ''_'' @ prefix @ ''_'' @ secret
      in \<lparr>gk_prefix = prefix, gk_full_key = full_key, gk_key_hash = stored_hash sha i4 full_key\<rparr>)"

definition generate_key :: "(string \<Rightarrow> string) \<Rightarrow> key_ids \<Rightarrow> generated_key" where
  "generate_key sha ids = generate_scheme sha KEY_SCHEME ids"

definition generate_device_key :: "(string \<Rightarrow> string) \<Rightarrow> key_ids \<Rightarrow> generated_key" where
  "generate_device_key sha ids = generate_scheme sha DEVICE_KEY_SCHEME ids"

definition scheme_prefix_of :: "string \<Rightarrow> string \<Rightarrow> string option" where
  "scheme_prefix_of scheme full_key = (case split_once CHR ''_'' full_key of
     None \<Rightarrow> None
   | Some (s, tail) \<Rightarrow> (case split_once CHR ''_'' tail of
       None \<Rightarrow> None
     | Some (prefix, secret) \<Rightarrow> if s = scheme \<and> prefix \<noteq> [] then Some prefix else None))"

definition prefix_of :: "string \<Rightarrow> string option" where
  "prefix_of full_key = scheme_prefix_of KEY_SCHEME full_key"

definition device_prefix_of :: "string \<Rightarrow> string option" where
  "device_prefix_of full_key = scheme_prefix_of DEVICE_KEY_SCHEME full_key"

section \<open>The policy cache\<close>

type_synonym policy_cache = "(string \<times> (project_policy \<times> instant)) list"

definition default_policy :: project_policy where
  "default_policy = \<lparr>po_enabled = True, po_redaction = RedactNone\<rparr>"

definition get_fresh :: "duration \<Rightarrow> policy_cache \<Rightarrow> instant \<Rightarrow> string \<Rightarrow> project_policy option" where
  "get_fresh ttl c now pid =
     (if ttl = 0 then None
      else case map_of c pid of
        None \<Rightarrow> None
      | Some (policy, since) \<Rightarrow> if duration_since now since < ttl then Some policy else None)"

definition policy_put :: "policy_cache \<Rightarrow> instant \<Rightarrow> string \<Rightarrow> project_policy \<Rightarrow> policy_cache" where
  "policy_put c now pid policy = AList.update pid (policy, now) c"

definition policy_invalidate :: "policy_cache \<Rightarrow> string \<Rightarrow> policy_cache" where
  "policy_invalidate c pid = AList.delete pid c"

section \<open>Resolving a principal\<close>

datatype auth_mode = Dev | Enforced

definition auth_mode_from_env :: "string \<Rightarrow> auth_mode" where
  "auth_mode_from_env s =
     (if to_ascii_lowercase s \<in> {''enforced'', ''enforce'', ''prod''} then Enforced else Dev)"

record auth_config =
  ac_mode :: auth_mode
  ac_admin_key :: "string option"
  ac_policy_ttl :: duration
  ac_sha :: "string \<Rightarrow> string"
  ac_pick :: "(string \<times> u32) list \<Rightarrow> string"

record auth_state =
  as_throttle :: auth_throttle
  as_keys :: "api_key list"
  as_projects :: "(string \<times> project_policy) list"
  as_policies :: policy_cache

text \<open>A header value is text only where it is visible ASCII.\<close>

definition header_to_str :: "string \<Rightarrow> string option" where
  "header_to_str h = (if list_all (\<lambda>c. ((32::nat) \<le> of_char c \<and> of_char c < (127::nat)) \<or> of_char c = (9::nat)) h
     then Some h else None)"

definition after_prefix :: "string \<Rightarrow> string \<Rightarrow> string option" where
  "after_prefix p s = (if take (length p) s = p then Some (drop (length p) s) else None)"

definition bearer :: "string option \<Rightarrow> string option" where
  "bearer authorization = (case Option.bind authorization header_to_str of
     None \<Rightarrow> None
   | Some h \<Rightarrow> map_option str_trim
       (case after_prefix ''Bearer '' h of Some r \<Rightarrow> Some r | None \<Rightarrow> after_prefix ''bearer '' h))"

fun store_error_code :: "store_error \<Rightarrow> error_code" where
  "store_error_code (SeConflict m) = EcConflict"
| "store_error_code (SeUnsupported m) = EcUnsupported"
| "store_error_code _ = EcInternal"

definition find_key_by_prefix :: "api_key list \<Rightarrow> string \<Rightarrow> api_key option" where
  "find_key_by_prefix keys prefix = find (\<lambda>k. ak_prefix k = prefix) keys"

text \<open>The faults of a call are the failures of its reads of the store, where they fail.\<close>

definition project_policy_for :: "auth_config \<Rightarrow> auth_state \<Rightarrow> instant \<Rightarrow> store_error option \<Rightarrow> string
    \<Rightarrow> auth_state \<times> (error_code + project_policy)" where
  "project_policy_for cfg st now fault pid =
     (case get_fresh (ac_policy_ttl cfg) (as_policies st) now pid of
        Some p \<Rightarrow> (st, Inr p)
      | None \<Rightarrow> (case fault of
          Some e \<Rightarrow> (st, Inl (store_error_code e))
        | None \<Rightarrow> (let p = (case map_of (as_projects st) pid of Some p \<Rightarrow> p | None \<Rightarrow> default_policy)
            in (st\<lparr>as_policies := policy_put (as_policies st) now pid p\<rparr>, Inr p))))"

record auth_request =
  rq_source :: "string option"
  rq_authorization :: "string option"
  rq_now :: instant
  rq_utc :: instant
  rq_key_fault :: "store_error option"
  rq_policy_fault :: "store_error option"

definition no_principal :: "auth_config \<Rightarrow> error_code + principal" where
  "no_principal cfg = (case ac_mode cfg of Dev \<Rightarrow> Inr PrDev | Enforced \<Rightarrow> Inl EcUnauthorized)"

definition resolve_key :: "auth_config \<Rightarrow> auth_state \<Rightarrow> auth_request \<Rightarrow> string \<Rightarrow> api_key
    \<Rightarrow> auth_state \<times> (error_code + principal)" where
  "resolve_key cfg st rq token k =
     (if is_expired k (rq_utc rq) then (st, Inl EcKeyExpired)
      else (case project_policy_for cfg st (rq_now rq) (rq_policy_fault rq) (ak_project k) of
          (st, Inl e) \<Rightarrow> (st, Inl e)
        | (st, Inr policy) \<Rightarrow>
            if \<not> po_enabled policy then (st, Inl EcProjectDisabled)
            else (st, Inr (PrProject (ak_project k) (ak_id k) (ak_scopes k)))))"

definition resolve_principal :: "auth_config \<Rightarrow> auth_state \<Rightarrow> auth_request
    \<Rightarrow> auth_state \<times> (error_code + principal)" where
  "resolve_principal cfg st rq =
     (case bearer (rq_authorization rq) of
        None \<Rightarrow> (st, no_principal cfg)
      | Some token \<Rightarrow>
          if (case ac_admin_key cfg of Some admin \<Rightarrow> secret_eq (ac_sha cfg) token admin | None \<Rightarrow> False)
          then (st, Inr PrAdmin)
          else (case prefix_of token of
              None \<Rightarrow> (st, no_principal cfg)
            | Some prefix \<Rightarrow> (case rq_key_fault rq of
                Some e \<Rightarrow> (st, Inl (store_error_code e))
              | None \<Rightarrow> (case find_key_by_prefix (as_keys st) prefix of
                  None \<Rightarrow> (st, no_principal cfg)
                | Some k \<Rightarrow>
                    if \<not> ak_revoked k \<and> verify_key (ac_sha cfg) (ak_hash k) token
                    then resolve_key cfg st rq token k
                    else (st, no_principal cfg)))))"

text \<open>The throttle keys on the source; a request with none is not throttled.\<close>

definition guard_source :: "auth_state \<Rightarrow> auth_request \<Rightarrow> auth_state \<times> bool" where
  "guard_source st rq = (case rq_source rq of
     None \<Rightarrow> (st, True)
   | Some s \<Rightarrow> (let (t, refused) = throttle_check (as_throttle st) (rq_now rq) s
       in (st\<lparr>as_throttle := t\<rparr>, refused = None)))"

definition record_success :: "auth_state \<Rightarrow> auth_request \<Rightarrow> auth_state" where
  "record_success st rq = (case rq_source rq of
     None \<Rightarrow> st | Some s \<Rightarrow> st\<lparr>as_throttle := throttle_success (as_throttle st) s\<rparr>)"

definition record_failure :: "auth_config \<Rightarrow> auth_state \<Rightarrow> auth_request \<Rightarrow> auth_state" where
  "record_failure cfg st rq = (case rq_source rq of
     None \<Rightarrow> st
   | Some s \<Rightarrow> st\<lparr>as_throttle := throttle_failure (ac_pick cfg) (as_throttle st) (rq_now rq) s\<rparr>)"

definition authenticate :: "auth_config \<Rightarrow> auth_state \<Rightarrow> auth_request \<Rightarrow> auth_state \<times> (error_code + principal)" where
  "authenticate cfg st rq =
     (let (st, open_source) = guard_source st rq in
      if \<not> open_source then (st, Inl EcRateLimited)
      else (let (st, r) = resolve_principal cfg st rq in
        case r of
          Inr p \<Rightarrow> (record_success st rq, Inr p)
        | Inl e \<Rightarrow> if e = EcUnauthorized then (record_failure cfg st rq, Inl e) else (st, Inl e)))"

section \<open>The life of a key\<close>

fun ensure_can_admin :: "principal \<Rightarrow> error_code + unit" where
  "ensure_can_admin (PrProject project key scopes) = Inl EcForbidden"
| "ensure_can_admin _ = Inr ()"

definition mint :: "auth_config \<Rightarrow> auth_state \<Rightarrow> string \<Rightarrow> string \<Rightarrow> key_scope list \<Rightarrow> instant option
    \<Rightarrow> key_ids \<Rightarrow> string \<Rightarrow> instant \<Rightarrow> auth_state \<times> string" where
  "mint cfg st pid name scopes expires_at ids new_id now =
     (let g = generate_key (ac_sha cfg) ids;
          k = \<lparr>ak_id = new_id, ak_project = pid, ak_name = name, ak_prefix = gk_prefix g, ak_hash = gk_key_hash g,
            ak_created_at = now, ak_last_used_at = None, ak_revoked = False, ak_scopes = scopes,
            ak_expires_at = expires_at\<rparr>
      in (st\<lparr>as_keys := as_keys st @ [k]\<rparr>, gk_full_key g))"

definition create_key :: "auth_config \<Rightarrow> auth_state \<Rightarrow> principal \<Rightarrow> string \<Rightarrow> string \<Rightarrow> string list option
    \<Rightarrow> instant option \<Rightarrow> key_ids \<Rightarrow> string \<Rightarrow> instant \<Rightarrow> auth_state \<times> (error_code + string)" where
  "create_key cfg st who pid name scopes expires_at ids new_id now =
     (case ensure_can_admin who of
        Inl e \<Rightarrow> (st, Inl e)
      | Inr _ \<Rightarrow>
          if map_of (as_projects st) pid = None then (st, Inl EcNotFound)
          else (case parse_scopes scopes of
              Inl e \<Rightarrow> (st, Inl e)
            | Inr sc \<Rightarrow>
                if (case expires_at of Some e \<Rightarrow> e \<le> now | None \<Rightarrow> False) then (st, Inl EcBadRequest)
                else (let (st', full) = mint cfg st pid name sc expires_at ids new_id now in (st', Inr full))))"

definition load_key :: "auth_state \<Rightarrow> string \<Rightarrow> string \<Rightarrow> error_code + api_key" where
  "load_key st pid kid =
     (case find (\<lambda>k. ak_id k = kid) (filter (\<lambda>k. ak_project k = pid) (as_keys st)) of
        Some k \<Rightarrow> Inr k | None \<Rightarrow> Inl EcNotFound)"

definition set_key_revoked :: "auth_state \<Rightarrow> string \<Rightarrow> auth_state" where
  "set_key_revoked st kid = st\<lparr>as_keys := update_where (\<lambda>k. ak_id k = kid) (ak_revoked_update (\<lambda>_. True)) (as_keys st)\<rparr>"

definition set_key_expiry :: "auth_state \<Rightarrow> string \<Rightarrow> instant \<Rightarrow> auth_state" where
  "set_key_expiry st kid d = st\<lparr>as_keys := update_where (\<lambda>k. ak_id k = kid) (ak_expires_at_update (\<lambda>_. Some d)) (as_keys st)\<rparr>"

definition revoke_key :: "auth_state \<Rightarrow> principal \<Rightarrow> string \<Rightarrow> string \<Rightarrow> auth_state \<times> (error_code + api_key)" where
  "revoke_key st who pid kid =
     (case ensure_can_admin who of
        Inl e \<Rightarrow> (st, Inl e)
      | Inr _ \<Rightarrow> (case load_key st pid kid of
          Inl e \<Rightarrow> (st, Inl e)
        | Inr k \<Rightarrow> (set_key_revoked st kid, Inr (k\<lparr>ak_revoked := True\<rparr>))))"

definition DEFAULT_GRACE_SECS :: int where
  "DEFAULT_GRACE_SECS = 3600"

definition MAX_GRACE_SECS :: int where
  "MAX_GRACE_SECS = 7 * 24 * 3600"

datatype retirement = Revoke | ExpireAt instant

definition retirement_for :: "instant option \<Rightarrow> int \<Rightarrow> instant \<Rightarrow> retirement" where
  "retirement_for old_expiry grace now =
     (if grace \<le> 0 then Revoke
      else (let deadline = now + chrono_secs grace;
                deadline = (case old_expiry of Some e \<Rightarrow> min e deadline | None \<Rightarrow> deadline)
            in if deadline \<le> now then Revoke else ExpireAt deadline))"

definition rotate_key :: "auth_config \<Rightarrow> auth_state \<Rightarrow> principal \<Rightarrow> string \<Rightarrow> string \<Rightarrow> int option \<Rightarrow> key_ids
    \<Rightarrow> string \<Rightarrow> instant \<Rightarrow> auth_state \<times> (error_code + string \<times> api_key)" where
  "rotate_key cfg st who pid kid grace_secs ids new_id now =
     (case ensure_can_admin who of
        Inl e \<Rightarrow> (st, Inl e)
      | Inr _ \<Rightarrow> (case load_key st pid kid of
          Inl e \<Rightarrow> (st, Inl e)
        | Inr old \<Rightarrow>
            if ak_revoked old then (st, Inl EcConflict)
            else (let grace = (case grace_secs of Some g \<Rightarrow> g | None \<Rightarrow> DEFAULT_GRACE_SECS) in
              if \<not> (0 \<le> grace \<and> grace \<le> MAX_GRACE_SECS) then (st, Inl EcBadRequest)
              else (let (st, full) = mint cfg st pid (ak_name old) (ak_scopes old) (ak_expires_at old) ids new_id now
                in case retirement_for (ak_expires_at old) grace now of
                     Revoke \<Rightarrow> (set_key_revoked st kid, Inr (full, old\<lparr>ak_revoked := True\<rparr>))
                   | ExpireAt d \<Rightarrow> (set_key_expiry st kid d, Inr (full, old\<lparr>ak_revoked := False, ak_expires_at := Some d\<rparr>))))))"

section \<open>Scopes are a closed vocabulary\<close>

interpretation scopes: closed_vocabulary ALL_SCOPES key_scope_as_str "wire_search ALL_SCOPES key_scope_as_str"
proof unfold_locales
  show "v \<in> set ALL_SCOPES" for v by (cases v) (simp_all add: ALL_SCOPES_def)
  show "distinct (map key_scope_as_str ALL_SCOPES)" by (simp add: ALL_SCOPES_def)
qed rule

lemma key_scope_parse_as_str: "key_scope_parse (key_scope_as_str s) = Some s"
proof -
  have "to_ascii_lowercase (str_trim (key_scope_as_str s)) = key_scope_as_str s"
    by (cases s) (simp_all add: to_ascii_lowercase_def lower_char_def str_trim_def is_space_def)
  then show ?thesis by (simp only: key_scope_parse_def scopes.parse_literal)
qed

lemma map_filter_parse: "List.map_filter key_scope_parse (map key_scope_as_str xs) = xs"
  by (induction xs) (simp_all add: List.map_filter_def key_scope_parse_as_str)

text \<open>
  The scopes of a key survive the store, provided the JSON text of their names reads back as those
  names: what is decoded is what was encoded, except that a key with no scope at all reads as one
  with the default scopes.
\<close>

theorem scopes_roundtrip:
  assumes "from_json (str_trim (to_json (map key_scope_as_str scopes))) = Some (map key_scope_as_str scopes)"
    and "str_trim (to_json (map key_scope_as_str scopes)) \<noteq> []"
  shows "decode_scopes from_json (Some (encode_scopes to_json scopes))
    = (if scopes = [] then default_scopes else scopes)"
  using assms by (simp add: decode_scopes_def encode_scopes_def Let_def map_filter_parse)

text \<open>A minted key always has a scope, each once.\<close>

lemma collect_scopes_distinct: "collect_scopes out ss = Inr sc \<Longrightarrow> distinct out \<Longrightarrow> distinct sc \<and> set out \<subseteq> set sc"
  by (induction out ss rule: collect_scopes.induct) (auto split: option.splits if_splits)

lemma parse_scopes_wf: "parse_scopes raw = Inr sc \<Longrightarrow> distinct sc \<and> sc \<noteq> []"
proof (cases raw)
  case (Some r)
  moreover assume "parse_scopes raw = Inr sc"
  ultimately have c: "collect_scopes [] r = Inr sc" "r \<noteq> []" by (auto simp: parse_scopes_def split: if_splits)
  then obtain s ss where r: "r = s # ss" by (cases r) auto
  then have "sc \<noteq> []" using c(1) collect_scopes_distinct [of "[the (key_scope_parse s)]" ss sc] by (auto split: option.splits)
  then show ?thesis using collect_scopes_distinct [OF c(1)] by simp
qed (auto simp: parse_scopes_def default_scopes_def)

section \<open>Who is let in\<close>

text \<open>What makes a row of the key table open a door for a token.\<close>

definition opens :: "auth_config \<Rightarrow> instant \<Rightarrow> string \<Rightarrow> api_key \<Rightarrow> bool" where
  "opens cfg utc token k \<longleftrightarrow> prefix_of token = Some (ak_prefix k) \<and> \<not> ak_revoked k
     \<and> verify_key (ac_sha cfg) (ak_hash k) token \<and> \<not> is_expired k utc"

lemma project_policy_for_keys:
  "as_keys (fst (project_policy_for cfg st now fault pid)) = as_keys st"
  "as_throttle (fst (project_policy_for cfg st now fault pid)) = as_throttle st"
  "as_projects (fst (project_policy_for cfg st now fault pid)) = as_projects st"
  by (auto simp: project_policy_for_def Let_def split: option.splits)

lemma resolve_principal_keys:
  "as_keys (fst (resolve_principal cfg st rq)) = as_keys st"
  "as_throttle (fst (resolve_principal cfg st rq)) = as_throttle st"
  "as_projects (fst (resolve_principal cfg st rq)) = as_projects st"
  using project_policy_for_keys [of cfg st "rq_now rq" "rq_policy_fault rq"]
  by (auto simp: resolve_principal_def resolve_key_def split: option.splits prod.splits sum.splits) (metis fst_conv)+

lemma find_key_Some: "find_key_by_prefix keys p = Some k \<Longrightarrow> k \<in> set keys \<and> ak_prefix k = p"
  by (auto simp: find_key_by_prefix_def find_Some_iff)

lemma resolve_principal_sound:
  assumes "resolve_principal cfg st rq = (st', Inr p)"
  shows "(p = PrDev \<and> ac_mode cfg = Dev)
    \<or> (p = PrAdmin \<and> (\<exists>token admin. bearer (rq_authorization rq) = Some token \<and> ac_admin_key cfg = Some admin
          \<and> ac_sha cfg token = ac_sha cfg admin))
    \<or> (\<exists>token k. bearer (rq_authorization rq) = Some token \<and> k \<in> set (as_keys st) \<and> opens cfg (rq_utc rq) token k
          \<and> p = PrProject (ak_project k) (ak_id k) (ak_scopes k)
          \<and> (\<exists>st'' policy. project_policy_for cfg st (rq_now rq) (rq_policy_fault rq) (ak_project k) = (st'', Inr policy)
               \<and> po_enabled policy))"
proof (cases "bearer (rq_authorization rq)")
  case None
  then show ?thesis using assms by (auto simp: resolve_principal_def no_principal_def split: auth_mode.splits)
next
  case (Some token)
  note token = Some
  show ?thesis
  proof (cases "case ac_admin_key cfg of Some admin \<Rightarrow> secret_eq (ac_sha cfg) token admin | None \<Rightarrow> False")
    case True
    then show ?thesis using assms token
      by (auto simp: resolve_principal_def secret_eq_def split: option.splits)
  next
    case False
    show ?thesis
    proof (cases "p = PrDev \<and> ac_mode cfg = Dev")
      case nodev: False
      then obtain prefix k where k: "prefix_of token = Some prefix" "find_key_by_prefix (as_keys st) prefix = Some k"
        "\<not> ak_revoked k" "verify_key (ac_sha cfg) (ak_hash k) token" "resolve_key cfg st rq token k = (st', Inr p)"
        using assms token False
        by (auto simp: resolve_principal_def no_principal_def split: option.splits if_splits auth_mode.splits)
      then have "opens cfg (rq_utc rq) token k \<and> k \<in> set (as_keys st)"
        using find_key_Some [OF k(2)] by (auto simp: opens_def resolve_key_def split: if_splits)
      moreover have "p = PrProject (ak_project k) (ak_id k) (ak_scopes k)
          \<and> (\<exists>st'' policy. project_policy_for cfg st (rq_now rq) (rq_policy_fault rq) (ak_project k) = (st'', Inr policy)
               \<and> po_enabled policy)"
        using k(5) by (auto simp: resolve_key_def split: if_splits prod.splits sum.splits)
      ultimately show ?thesis using token by blast
    qed simp
  qed
qed

text \<open>
  C2: who is let in. In enforced mode a request is let in only as the administrator, on the
  administrator's secret, or for a project, on a key of that project that is not revoked, not expired,
  matches its stored digest and belongs to a project that is enabled; then it carries exactly that
  key's project, id and scopes. A source whose budget is spent is never let in.
\<close>

theorem enforced_lets_in:
  assumes "authenticate cfg st rq = (st', Inr p)" and "ac_mode cfg = Enforced"
  shows "snd (guard_source st rq)
    \<and> (\<exists>token. bearer (rq_authorization rq) = Some token
      \<and> (case p of PrDev \<Rightarrow> False
         | PrAdmin \<Rightarrow> \<exists>admin. ac_admin_key cfg = Some admin \<and> ac_sha cfg token = ac_sha cfg admin
         | PrProject pid kid scopes \<Rightarrow>
             (\<exists>k \<in> set (as_keys st). opens cfg (rq_utc rq) token k \<and> pid = ak_project k \<and> kid = ak_id k \<and> scopes = ak_scopes k)
           \<and> (\<exists>st'' policy. project_policy_for cfg st (rq_now rq) (rq_policy_fault rq) pid = (st'', Inr policy)
               \<and> po_enabled policy)))"
proof -
  obtain st1 where g: "guard_source st rq = (st1, True)"
    using assms(1) by (auto simp: authenticate_def split: prod.splits if_splits)
  then have st1: "as_keys st1 = as_keys st" "as_projects st1 = as_projects st" "as_policies st1 = as_policies st"
    by (auto simp: guard_source_def split: option.splits prod.splits)
  then have policy: "project_policy_for cfg st1 n f i = (st2, Inr policy) \<Longrightarrow> \<exists>st3. project_policy_for cfg st n f i = (st3, Inr policy)"
    for n f i st2 policy
    by (auto simp: project_policy_for_def Let_def split: option.splits)
  obtain st2 where r: "resolve_principal cfg st1 rq = (st2, Inr p)"
    using assms(1) g by (auto simp: authenticate_def split: prod.splits sum.splits if_splits)
  from resolve_principal_sound [OF r] show ?thesis
    using g assms(2) st1 policy by (auto, blast+)
qed

section \<open>A minted key opens its own door\<close>

lemma scheme_prefix_of_key:
  "CHR ''_'' \<notin> set scheme \<Longrightarrow> CHR ''_'' \<notin> set p \<Longrightarrow> p \<noteq> []
    \<Longrightarrow> scheme_prefix_of scheme (scheme @ CHR ''_'' # p @ CHR ''_'' # secret) = Some p"
  by (simp add: scheme_prefix_of_def split_once_append)

text \<open>A project key is never taken for a device key, nor the other way round.\<close>

lemma schemes_apart: "prefix_of key = Some p \<Longrightarrow> device_prefix_of key = None"
  by (auto simp: prefix_of_def device_prefix_of_def scheme_prefix_of_def KEY_SCHEME_def DEVICE_KEY_SCHEME_def
      split: option.splits if_splits)

lemma without_dashes_clean: "c \<notin> set s \<Longrightarrow> c \<notin> set (without_dashes s)"
  by (simp add: without_dashes_def)

lemma verify_generated:
  assumes "CHR '':'' \<notin> set salt_id"
  shows "verify_key sha (stored_hash sha salt_id key) token
    \<longleftrightarrow> sha (hash_with_salt sha (without_dashes salt_id) token) = sha (hash_with_salt sha (without_dashes salt_id) key)"
  using split_once_append [OF without_dashes_clean [OF assms], of "hash_with_salt sha (without_dashes salt_id) key"]
  by (simp add: verify_key_def stored_hash_def secret_eq_def Let_def)

text \<open>What the UUIDs of a call are relied on for: eight characters of a prefix and no separators.\<close>

fun plain_ids :: "key_ids \<Rightarrow> bool" where
  "plain_ids (i1, i2, i3, i4) \<longleftrightarrow> without_dashes i1 \<noteq> [] \<and> CHR ''_'' \<notin> set i1 \<and> CHR '':'' \<notin> set i4"

lemma generated_prefix:
  assumes "plain_ids ids"
  shows "prefix_of (gk_full_key (generate_key sha ids)) = Some (gk_prefix (generate_key sha ids))"
    and "verify_key sha (gk_key_hash (generate_key sha ids)) (gk_full_key (generate_key sha ids))"
proof -
  obtain i1 i2 i3 i4 where ids: "ids = (i1, i2, i3, i4)" by (cases ids)
  have "CHR ''_'' \<notin> set (take 8 (without_dashes i1))"
    using assms ids without_dashes_clean [of "CHR ''_''" i1] by (auto dest: in_set_takeD)
  then show "prefix_of (gk_full_key (generate_key sha ids)) = Some (gk_prefix (generate_key sha ids))"
    using assms ids scheme_prefix_of_key [of KEY_SCHEME "take 8 (without_dashes i1)"]
    by (simp add: prefix_of_def generate_key_def Let_def KEY_SCHEME_def)
  show "verify_key sha (gk_key_hash (generate_key sha ids)) (gk_full_key (generate_key sha ids))"
    using assms ids by (simp add: generate_key_def verify_generated Let_def)
qed

lemma find_appended: "find P xs = None \<Longrightarrow> find P (xs @ [k]) = (if P k then Some k else None)"
  by (induction xs) (auto split: if_splits)

text \<open>
  C28: a minted key opens its own door. The secret shown once by a successful minting, presented as a
  bearer token before the key expires, speaks for that project with the scopes asked for, provided no
  earlier key has the same prefix, it is not the administrator's secret, the store answers and the
  project is enabled.
\<close>

theorem minted_key_opens:
  assumes "create_key cfg st who pid name scopes expires_at ids new_id now = (st', Inr token)"
    and "plain_ids ids" and "parse_scopes scopes = Inr sc"
    and "\<forall>k \<in> set (as_keys st). ak_prefix k \<noteq> gk_prefix (generate_key (ac_sha cfg) ids)"
    and "\<forall>admin. ac_admin_key cfg = Some admin \<longrightarrow> ac_sha cfg token \<noteq> ac_sha cfg admin"
    and "bearer (rq_authorization rq) = Some token" and "rq_key_fault rq = None"
    and "\<forall>e. expires_at = Some e \<longrightarrow> rq_utc rq < e"
    and "project_policy_for cfg st' (rq_now rq) (rq_policy_fault rq) pid = (st'', Inr policy)" and "po_enabled policy"
  shows "resolve_principal cfg st' rq = (st'', Inr (PrProject pid new_id sc))"
proof -
  let ?g = "generate_key (ac_sha cfg) ids"
  let ?k = "\<lparr>ak_id = new_id, ak_project = pid, ak_name = name, ak_prefix = gk_prefix ?g, ak_hash = gk_key_hash ?g,
    ak_created_at = now, ak_last_used_at = None, ak_revoked = False, ak_scopes = sc, ak_expires_at = expires_at\<rparr>"
  have st': "st' = st\<lparr>as_keys := as_keys st @ [?k]\<rparr>" and token: "token = gk_full_key ?g"
    using assms(1,3) by (auto simp: create_key_def mint_def Let_def split: sum.splits if_splits)
  have "find_key_by_prefix (as_keys st') (gk_prefix ?g) = Some ?k"
  proof -
    have "find (\<lambda>k. ak_prefix k = gk_prefix ?g) (as_keys st) = None" using assms(4) by (auto simp: find_None_iff)
    then show ?thesis by (simp add: st' find_key_by_prefix_def find_appended)
  qed
  moreover have "\<not> (case ac_admin_key cfg of Some admin \<Rightarrow> secret_eq (ac_sha cfg) token admin | None \<Rightarrow> False)"
    using assms(5) by (auto simp: secret_eq_def split: option.splits)
  moreover have "\<not> is_expired ?k (rq_utc rq)"
    using assms(8) by (auto simp: is_expired_def split: option.splits)
  ultimately show ?thesis
    using assms(6,7,9,10) generated_prefix [OF assms(2), of "ac_sha cfg", folded token]
    by (simp add: resolve_principal_def resolve_key_def)
qed

section \<open>A retired key opens nothing\<close>

definition live_row :: "auth_state \<Rightarrow> instant \<Rightarrow> string \<Rightarrow> bool" where
  "live_row st utc kid \<longleftrightarrow> (\<exists>k \<in> set (as_keys st). ak_id k = kid \<and> \<not> ak_revoked k \<and> \<not> is_expired k utc)"

lemma resolved_row_live:
  "resolve_principal cfg st rq = (st', Inr (PrProject pid kid scopes)) \<Longrightarrow> live_row st (rq_utc rq) kid"
  by (drule resolve_principal_sound) (auto simp: live_row_def opens_def)

lemma authenticated_row_live:
  assumes "authenticate cfg st rq = (st', Inr (PrProject pid kid scopes))"
  shows "live_row st (rq_utc rq) kid"
proof -
  obtain st1 where g: "guard_source st rq = (st1, True)" "as_keys st1 = as_keys st"
    using assms by (auto simp: authenticate_def guard_source_def split: prod.splits if_splits option.splits)
  then obtain st2 where "resolve_principal cfg st1 rq = (st2, Inr (PrProject pid kid scopes))"
    using assms by (auto simp: authenticate_def split: prod.splits sum.splits if_splits)
  from resolved_row_live [OF this] show ?thesis using g(2) by (simp add: live_row_def)
qed

lemma updated_row: "k \<in> set (update_where P f t) \<Longrightarrow> \<exists>r \<in> set t. k = (if P r then f r else r)"
  unfolding update_where_def by (simp only: set_map image_iff)

lemma revoked_row:
  assumes "k \<in> set (as_keys (set_key_revoked st kid))" and "ak_id k = kid"
  shows "ak_revoked k"
proof -
  obtain r where r: "k = (if ak_id r = kid then r\<lparr>ak_revoked := True\<rparr> else r)"
    using updated_row [of k "\<lambda>k. ak_id k = kid" "ak_revoked_update (\<lambda>_. True)" "as_keys st"] assms(1)
    by (auto simp: set_key_revoked_def)
  then show ?thesis using assms(2) by (cases "ak_id r = kid") simp_all
qed

lemma expiring_row:
  assumes "k \<in> set (as_keys (set_key_expiry st kid d))" and "ak_id k = kid"
  shows "ak_expires_at k = Some d"
proof -
  obtain r where r: "k = (if ak_id r = kid then r\<lparr>ak_expires_at := Some d\<rparr> else r)"
    using updated_row [of k "\<lambda>k. ak_id k = kid" "ak_expires_at_update (\<lambda>_. Some d)" "as_keys st"] assms(1)
    by (auto simp: set_key_expiry_def)
  then show ?thesis using assms(2) by (cases "ak_id r = kid") simp_all
qed

text \<open>
  A revoked key opens nothing. Once a revocation has been answered, no request is ever resolved to
  that key again, whatever it presents and whatever the clock says.
\<close>

theorem revoked_key_opens_nothing:
  assumes "revoke_key st who pid kid = (st', Inr k)"
  shows "snd (authenticate cfg st' rq) \<noteq> Inr (PrProject pid' kid scopes)"
proof
  assume "snd (authenticate cfg st' rq) = Inr (PrProject pid' kid scopes)"
  then have "live_row st' (rq_utc rq) kid"
    using authenticated_row_live [of cfg st' rq "fst (authenticate cfg st' rq)"] by (metis prod.collapse)
  moreover have "st' = set_key_revoked st kid"
    using assms by (auto simp: revoke_key_def split: sum.splits)
  ultimately show False using revoked_row by (auto simp: live_row_def)
qed

text \<open>A rotation in one step: the successor is appended, then the predecessor is retired.\<close>

lemma rotate_key_cases:
  assumes "rotate_key cfg st who pid kid grace ids new_id now = (st', Inr (token, info))"
  obtains old m where "load_key st pid kid = Inr old"
    and "mint cfg st pid (ak_name old) (ak_scopes old) (ak_expires_at old) ids new_id now = (m, token)"
    and "st' = (case retirement_for (ak_expires_at old) (case grace of Some g \<Rightarrow> g | None \<Rightarrow> DEFAULT_GRACE_SECS) now of
        Revoke \<Rightarrow> set_key_revoked m kid | ExpireAt d \<Rightarrow> set_key_expiry m kid d)"
  using assms
  by (auto simp: rotate_key_def Let_def split: sum.splits if_splits prod.splits retirement.splits)

lemma retirement_deadline:
  assumes "retirement_for old grace now = ExpireAt d"
  shows "d \<le> now + chrono_secs grace" and "old = Some e \<Longrightarrow> d \<le> e" and "now < d"
  using assms by (auto simp: retirement_for_def Let_def split: if_splits option.splits)

text \<open>
  C22: a rotation closes itself. From the end of the grace window on, and from the end of the key's own
  life if that is sooner, no request is ever resolved to the predecessor: nothing has to run in
  between, and a rotation never lengthens the life of a key.
\<close>

theorem rotated_key_dies:
  assumes "rotate_key cfg st who pid kid grace ids new_id now = (st', Inr (token, info))"
    and "load_key st pid kid = Inr old"
    and "now + chrono_secs (case grace of Some g \<Rightarrow> g | None \<Rightarrow> DEFAULT_GRACE_SECS) \<le> rq_utc rq
      \<or> (\<exists>e. ak_expires_at old = Some e \<and> e \<le> rq_utc rq)"
  shows "snd (authenticate cfg st' rq) \<noteq> Inr (PrProject pid' kid scopes)"
proof
  let ?g = "case grace of Some g \<Rightarrow> g | None \<Rightarrow> DEFAULT_GRACE_SECS"
  assume "snd (authenticate cfg st' rq) = Inr (PrProject pid' kid scopes)"
  then have live: "live_row st' (rq_utc rq) kid"
    using authenticated_row_live [of cfg st' rq "fst (authenticate cfg st' rq)"] by (metis prod.collapse)
  from assms(1) show False
  proof (rule rotate_key_cases)
    fix old' m
    assume old': "load_key st pid kid = Inr old'"
      and st': "st' = (case retirement_for (ak_expires_at old') ?g now of
        Revoke \<Rightarrow> set_key_revoked m kid | ExpireAt d \<Rightarrow> set_key_expiry m kid d)"
    then have "old' = old" using assms(2) by simp
    show False
    proof (cases "retirement_for (ak_expires_at old) ?g now")
      case Revoke
      then show False using live st' \<open>old' = old\<close> revoked_row by (auto simp: live_row_def)
    next
      case (ExpireAt d)
      then have "d \<le> rq_utc rq" using assms(3) retirement_deadline [OF ExpireAt] by fastforce
      then show False using live st' \<open>old' = old\<close> ExpireAt expiring_row by (fastforce simp: live_row_def is_expired_def)
    qed
  qed
qed

text \<open>The answer to an expired key names the remedy; the remedy mints a key that has expired too.\<close>

lemma set_key_other:
  "ak_id k \<noteq> kid \<Longrightarrow> k \<in> set (as_keys (set_key_revoked st kid)) \<longleftrightarrow> k \<in> set (as_keys st)"
  "ak_id k \<noteq> kid \<Longrightarrow> k \<in> set (as_keys (set_key_expiry st kid d)) \<longleftrightarrow> k \<in> set (as_keys st)"
  by (force simp: set_key_revoked_def set_key_expiry_def update_where_def)+

lemma mint_row:
  "mint cfg st pid name scopes until ids new_id now = (m, token) \<Longrightarrow> k \<in> set (as_keys m)
    \<Longrightarrow> k \<in> set (as_keys st) \<or> ak_expires_at k = until"
  by (auto simp: mint_def Let_def)

lemma load_key_row: "load_key st pid kid = Inr k \<Longrightarrow> k \<in> set (as_keys st) \<and> ak_id k = kid"
  using nth_mem by (fastforce simp: load_key_def find_Some_iff split: option.splits)

lemma rotated_expired_key_is_dead:
  assumes "rotate_key cfg st who pid kid grace ids new_id now = (st', Inr (token, info))"
    and "load_key st pid kid = Inr old" and "is_expired old now"
    and "\<forall>k \<in> set (as_keys st). ak_id k \<noteq> new_id" and "now \<le> rq_utc rq"
  shows "snd (authenticate cfg st' rq) \<noteq> Inr (PrProject pid' new_id scopes)"
proof
  assume "snd (authenticate cfg st' rq) = Inr (PrProject pid' new_id scopes)"
  then have "live_row st' (rq_utc rq) new_id"
    using authenticated_row_live [of cfg st' rq "fst (authenticate cfg st' rq)"] by (metis prod.collapse)
  then obtain k where k: "k \<in> set (as_keys st')" "ak_id k = new_id" "\<not> is_expired k (rq_utc rq)"
    by (auto simp: live_row_def)
  have kid: "kid \<noteq> new_id" using assms(4) load_key_row [OF assms(2)] by auto
  from assms(1) show False
  proof (rule rotate_key_cases)
    fix old' m
    assume old': "load_key st pid kid = Inr old'"
      and m: "mint cfg st pid (ak_name old') (ak_scopes old') (ak_expires_at old') ids new_id now = (m, token)"
      and st': "st' = (case retirement_for (ak_expires_at old') (case grace of Some g \<Rightarrow> g | None \<Rightarrow> DEFAULT_GRACE_SECS) now of
        Revoke \<Rightarrow> set_key_revoked m kid | ExpireAt d \<Rightarrow> set_key_expiry m kid d)"
    have "k \<in> set (as_keys m)" using k st' kid set_key_other by (auto split: retirement.splits)
    then have "ak_expires_at k = ak_expires_at old'" using mint_row [OF m] assms(4) k(2) by blast
    then show False using k(3) assms(2,3,5) old' by (auto simp: is_expired_def split: option.splits)
  qed
qed

section \<open>How much guessing a source may do\<close>

fun serve :: "auth_config \<Rightarrow> auth_state \<Rightarrow> auth_request list \<Rightarrow> auth_state \<times> (error_code + principal) list" where
  "serve cfg st [] = (st, [])"
| "serve cfg st (rq # rqs) =
     (let (st, r) = authenticate cfg st rq; (st, rs) = serve cfg st rqs in (st, r # rs))"

text \<open>The critical sections a request takes in the throttle.\<close>

definition throttle_ops :: "auth_request \<Rightarrow> error_code + principal \<Rightarrow> (instant \<times> throttle_op) list" where
  "throttle_ops rq r = (case rq_source rq of
     None \<Rightarrow> []
   | Some s \<Rightarrow> (rq_now rq, ThCheck s) # (case r of
       Inr p \<Rightarrow> [(rq_now rq, ThSuccess s)]
     | Inl e \<Rightarrow> if e = EcUnauthorized then [(rq_now rq, ThFailure s)] else []))"

lemma authenticate_throttle:
  "as_throttle (fst (authenticate cfg st rq))
    = throttle_run (ac_pick cfg) (as_throttle st) (throttle_ops rq (snd (authenticate cfg st rq)))"
proof (cases "rq_source rq")
  case None
  then show ?thesis using resolve_principal_keys(2) [of cfg st rq]
    by (auto simp: authenticate_def guard_source_def throttle_ops_def record_success_def record_failure_def
        split: prod.splits sum.splits)
next
  case (Some s)
  obtain t refused where c: "throttle_check (as_throttle st) (rq_now rq) s = (t, refused)" by fastforce
  obtain st2 r where r: "resolve_principal cfg (st\<lparr>as_throttle := t\<rparr>) rq = (st2, r)" by fastforce
  then have "as_throttle st2 = t" using resolve_principal_keys(2) [of cfg "st\<lparr>as_throttle := t\<rparr>" rq] by simp
  then show ?thesis using Some c r
    by (auto simp: authenticate_def guard_source_def throttle_ops_def record_success_def record_failure_def
        split: sum.splits)
qed

lemma rejected_had_budget:
  assumes "authenticate cfg st rq = (st', Inl EcUnauthorized)" and "rq_source rq = Some s"
  shows "snd (throttle_check (as_throttle st) (rq_now rq) s) = None"
  using assms by (auto simp: authenticate_def guard_source_def split: prod.splits if_splits)

definition rejections :: "string \<Rightarrow> auth_request list \<Rightarrow> (error_code + principal) list \<Rightarrow> nat" where
  "rejections s rqs rs = length (filter (\<lambda>(rq, r). rq_source rq = Some s \<and> r = Inl EcUnauthorized) (zip rqs rs))"

definition all_ops :: "auth_request list \<Rightarrow> (error_code + principal) list \<Rightarrow> (instant \<times> throttle_op) list" where
  "all_ops rqs rs = concat (map (\<lambda>(rq, r). throttle_ops rq r) (zip rqs rs))"

lemma failed_append: "failed s (xs @ ys) = failed s xs + failed s ys"
  by (simp add: failed_def)

lemma failed_throttle_ops:
  "failed s (throttle_ops rq r) = (if rq_source rq = Some s \<and> r = Inl EcUnauthorized then 1 else 0)"
  by (auto simp: throttle_ops_def split: option.splits sum.splits)

lemma throttle_ops_sources:
  "sources_of t (throttle_ops rq r) \<subseteq> fst ` set (at_counts t) \<union> set_option (rq_source rq)"
  by (cases "rq_source rq") (auto simp: throttle_ops_def sources_of_def split: sum.splits if_splits)

lemma serve_throttle:
  "serve cfg st rqs = (st', rs) \<Longrightarrow>
     as_throttle st' = throttle_run (ac_pick cfg) (as_throttle st) (all_ops rqs rs) \<and> length rs = length rqs"
proof (induction rqs arbitrary: st rs st')
  case (Cons rq rqs)
  obtain st1 r where a: "authenticate cfg st rq = (st1, r)" by fastforce
  obtain st2 rs2 where b: "serve cfg st1 rqs = (st2, rs2)" by fastforce
  have "st' = st2" "rs = r # rs2" using Cons.prems a b by auto
  then show ?case
    using Cons.IH [OF b] authenticate_throttle [of cfg st rq] a by (simp add: all_ops_def throttle_run_append)
qed (simp add: all_ops_def)

lemma all_ops_sources: "sources_of t (all_ops rqs rs) \<subseteq> fst ` set (at_counts t) \<union> (\<Union>rq \<in> set rqs. set_option (rq_source rq))"
proof -
  have "(now, ThFailure x) \<in> set (throttle_ops rq r) \<Longrightarrow> rq_source rq = Some x" for now x rq r
    by (cases "rq_source rq") (auto simp: throttle_ops_def split: sum.splits if_splits)
  then have "\<exists>rq \<in> set rqs. rq_source rq = Some x" if "(now, ThFailure x) \<in> set (all_ops rqs rs)" for now x
    using that unfolding all_ops_def by (auto dest!: set_zip_leftD) blast
  then show ?thesis by (fastforce simp: sources_of_def)
qed

lemma failed_all_ops: "failed s (all_ops rqs rs) = rejections s rqs rs"
  unfolding all_ops_def rejections_def
proof (induction rqs arbitrary: rs)
  case (Cons rq rqs)
  then show ?case by (cases rs) (auto simp: failed_append failed_throttle_ops)
qed simp

lemma serve_snoc:
  assumes "serve cfg st (rqs @ [rq]) = (st', rs')"
  obtains st1 rs r where "serve cfg st rqs = (st1, rs)" "authenticate cfg st1 rq = (st', r)" "rs' = rs @ [r]"
proof -
  have "\<exists>st1 rs r. serve cfg st rqs = (st1, rs) \<and> authenticate cfg st1 rq = (st', r) \<and> rs' = rs @ [r]"
    using assms
  proof (induction rqs arbitrary: st rs')
    case (Cons x rqs)
    then show ?case by (fastforce split: prod.splits)
  qed (auto split: prod.splits)
  then show ?thesis using that by blast
qed

lemma unanswered_ops:
  assumes "\<forall>(rq, r) \<in> set (zip rqs rs). rq_source rq = Some s \<longrightarrow> (\<forall>p. r \<noteq> Inr p)"
    and "\<forall>rq \<in> set rqs. in_window t (rq_now rq)"
  shows "\<forall>(now, op) \<in> set (all_ops rqs rs). in_window t now \<and> op \<noteq> ThSuccess s"
proof -
  have "(now, op) \<in> set (throttle_ops rq r) \<Longrightarrow> now = rq_now rq \<and> (op = ThSuccess s \<longrightarrow> rq_source rq = Some s \<and> (\<exists>p. r = Inr p))"
    for now op rq r
    by (cases "rq_source rq") (auto simp: throttle_ops_def split: sum.splits if_splits)
  then show ?thesis using assms by (fastforce simp: all_ops_def dest: set_zip_leftD)
qed


section \<open>A policy tightened during a read\<close>

text \<open>
  An update of a project writes its row and then drops the cached policy; a request that missed the
  cache reads the row and then stores what it read. Between the two, the other can happen.
\<close>

datatype policy_step = ReadRow | UpdateRow project_policy | Invalidate | PutRead

fun policy_race :: "instant \<Rightarrow> string \<Rightarrow> policy_step list \<Rightarrow> project_policy \<times> project_policy \<times> policy_cache
    \<Rightarrow> project_policy \<times> project_policy \<times> policy_cache" where
  "policy_race now pid [] s = s"
| "policy_race now pid (ReadRow # ps) (row, seen, c) = policy_race now pid ps (row, row, c)"
| "policy_race now pid (UpdateRow p # ps) (row, seen, c) = policy_race now pid ps (p, seen, c)"
| "policy_race now pid (Invalidate # ps) (row, seen, c) = policy_race now pid ps (row, seen, policy_invalidate c pid)"
| "policy_race now pid (PutRead # ps) (row, seen, c) = policy_race now pid ps (row, seen, policy_put c now pid seen)"

text \<open>
  The update is answered, its invalidation has run, and for a whole lifetime of the entry the policy
  that is served is still the old one.
\<close>

lemma tightening_lost:
  assumes "0 < ttl"
  shows "\<exists>row seen c. policy_race 0 pid [ReadRow, UpdateRow new, Invalidate, PutRead] (old, p0, []) = (row, seen, c)
    \<and> row = new \<and> (\<forall>t. duration_since t 0 < ttl \<longrightarrow> get_fresh ttl c t pid = Some old)"
  using assms by (simp add: policy_invalidate_def policy_put_def get_fresh_def)

section \<open>Witnesses\<close>

definition door_cfg :: auth_config where
  "door_cfg = \<lparr>ac_mode = Enforced, ac_admin_key = None, ac_policy_ttl = duration_of_secs 60, ac_sha = (\<lambda>s. s),
     ac_pick = first_key\<rparr>"

definition door_state :: auth_state where
  "door_state = \<lparr>as_throttle = two_a_minute, as_keys = [], as_projects = [(''p'', default_policy)], as_policies = []\<rparr>"

definition door_ids :: key_ids where
  "door_ids = (''aaaaaaaa'', ''b'', ''c'', ''d'')"

definition door_key :: api_key where
  "door_key = \<lparr>ak_id = ''k1'', ak_project = ''p'', ak_name = ''k'', ak_prefix = ''aaaaaaaa'',
     ak_hash = stored_hash (\<lambda>s. s) ''d'' ''lt_aaaaaaaa_bc'', ak_created_at = 0, ak_last_used_at = None,
     ak_revoked = False, ak_scopes = default_scopes, ak_expires_at = None\<rparr>"

definition open_door :: auth_state where
  "open_door = door_state\<lparr>as_keys := [door_key]\<rparr>"

definition a_request :: auth_request where
  "a_request = \<lparr>rq_source = Some ''a'', rq_authorization = Some ''Bearer lt_aaaaaaaa_bc'', rq_now = 1, rq_utc = 1,
     rq_key_fault = None, rq_policy_fault = None\<rparr>"

lemma door_ids_prefix: "gk_prefix (generate_key sha door_ids) = ''aaaaaaaa''"
  "gk_full_key (generate_key sha door_ids) = ''lt_aaaaaaaa_bc''"
  "gk_key_hash (generate_key sha door_ids) = stored_hash sha ''d'' ''lt_aaaaaaaa_bc''"
  by (simp_all add: generate_key_def door_ids_def KEY_SCHEME_def without_dashes_def Let_def)

lemma door_created:
  "create_key door_cfg door_state PrAdmin ''p'' ''k'' None None door_ids ''k1'' 0 = (open_door, Inr ''lt_aaaaaaaa_bc'')"
  by (simp add: create_key_def door_state_def parse_scopes_def mint_def door_ids_prefix open_door_def door_key_def
      door_cfg_def Let_def)

lemma a_request_bearer: "bearer (rq_authorization a_request) = Some ''lt_aaaaaaaa_bc''"
  by (simp add: a_request_def bearer_def header_to_str_def after_prefix_def str_trim_def is_space_def)

definition served_door :: auth_state where
  "served_door = open_door\<lparr>as_policies := [(''p'', (default_policy, 1))]\<rparr>"

lemma door_policy: "project_policy_for door_cfg open_door (rq_now a_request) (rq_policy_fault a_request) ''p'' = (served_door, Inr default_policy)"
  by (simp add: project_policy_for_def get_fresh_def policy_put_def open_door_def door_state_def served_door_def a_request_def)

lemma enabled_by_default: "po_enabled default_policy"
  by (simp add: default_policy_def)

lemma minted_key_opens_witness:
  "resolve_principal door_cfg open_door a_request = (served_door, Inr (PrProject ''p'' ''k1'' default_scopes))"
  by (rule minted_key_opens [OF door_created _ _ _ _ a_request_bearer _ _ door_policy enabled_by_default])
     (simp_all add: door_ids_def without_dashes_def parse_scopes_def door_state_def door_cfg_def a_request_def)

lemma door_key_prefix: "prefix_of ''lt_aaaaaaaa_bc'' = Some ''aaaaaaaa''"
  by (simp add: prefix_of_def KEY_SCHEME_def scheme_prefix_of_def)

lemma door_opened: "resolve_principal door_cfg open_door a_request = (served_door, Inr (PrProject ''p'' ''k1'' default_scopes))"
proof -
  have "verify_key (\<lambda>s. s) (ak_hash door_key) ''lt_aaaaaaaa_bc''"
    by (simp add: door_key_def verify_generated)
  moreover have "find_key_by_prefix (as_keys open_door) ''aaaaaaaa'' = Some door_key"
    by (simp add: find_key_by_prefix_def open_door_def door_key_def)
  moreover have "resolve_key door_cfg open_door a_request ''lt_aaaaaaaa_bc'' door_key
      = (served_door, Inr (PrProject ''p'' ''k1'' default_scopes))"
    using door_policy enabled_by_default by (simp add: resolve_key_def door_key_def is_expired_def)
  ultimately show ?thesis
    by (simp add: resolve_principal_def a_request_bearer door_key_prefix)
       (simp add: door_cfg_def door_key_def a_request_def)
qed

lemma door_authenticated:
  "authenticate door_cfg open_door a_request = (served_door, Inr (PrProject ''p'' ''k1'' default_scopes))"
proof -
  have "guard_source open_door a_request = (open_door, True)"
    by (simp add: guard_source_def open_door_def door_state_def a_request_def two_a_minute_def throttle_new_def throttle_check_def)
  moreover have "record_success served_door a_request = served_door"
    by (simp add: record_success_def a_request_def served_door_def open_door_def door_state_def two_a_minute_def
        throttle_new_def throttle_success_def)
  ultimately show ?thesis using door_opened by (simp add: authenticate_def)
qed

lemma enforced_lets_in_witness:
  "\<exists>k \<in> set (as_keys open_door). opens door_cfg 1 ''lt_aaaaaaaa_bc'' k"
proof -
  have "ac_mode door_cfg = Enforced" "rq_utc a_request = 1" by (simp_all add: door_cfg_def a_request_def)
  with enforced_lets_in [OF door_authenticated] show ?thesis by (auto simp: a_request_bearer)
qed

lemma door_key_loaded: "load_key open_door ''p'' ''k1'' = Inr door_key"
  by (simp add: load_key_def open_door_def door_key_def)

lemma revoked_key_opens_nothing_witness:
  "\<exists>st k. revoke_key open_door PrAdmin ''p'' ''k1'' = (st, Inr k)
     \<and> snd (authenticate door_cfg st a_request) \<noteq> Inr (PrProject ''p'' ''k1'' default_scopes)"
proof -
  have r: "revoke_key open_door PrAdmin ''p'' ''k1'' = (set_key_revoked open_door ''k1'', Inr (door_key\<lparr>ak_revoked := True\<rparr>))"
    by (simp add: revoke_key_def door_key_loaded)
  from revoked_key_opens_nothing [OF r] r show ?thesis by blast
qed

lemma rotated_key_dies_witness:
  "\<exists>st token info. rotate_key door_cfg open_door PrAdmin ''p'' ''k1'' (Some 60) door_ids ''k2'' 0 = (st, Inr (token, info))
     \<and> snd (authenticate door_cfg st (a_request\<lparr>rq_utc := 60000000000\<rparr>)) \<noteq> Inr (PrProject ''p'' ''k1'' default_scopes)"
proof -
  obtain m token where m: "mint door_cfg open_door ''p'' ''k'' default_scopes None door_ids ''k2'' 0 = (m, token)" by fastforce
  have "\<not> ak_revoked door_key" "ak_name door_key = ''k''" "ak_scopes door_key = default_scopes" "ak_expires_at door_key = None"
    by (simp_all add: door_key_def)
  then have r: "rotate_key door_cfg open_door PrAdmin ''p'' ''k1'' (Some 60) door_ids ''k2'' 0
      = (set_key_expiry m ''k1'' 60000000000, Inr (token, door_key\<lparr>ak_revoked := False, ak_expires_at := Some 60000000000\<rparr>))"
    using m by (simp add: rotate_key_def door_key_loaded MAX_GRACE_SECS_def retirement_for_def chrono_secs_def)
  have "0 + chrono_secs (case Some 60 of Some g \<Rightarrow> g | None \<Rightarrow> DEFAULT_GRACE_SECS) \<le> rq_utc (a_request\<lparr>rq_utc := 60000000000\<rparr>)"
    by (simp add: chrono_secs_def)
  from rotated_key_dies [OF r door_key_loaded disjI1 [OF this]] r show ?thesis by blast
qed

text \<open>A door with no key turns every caller away.\<close>

lemma closed_door:
  assumes "as_keys st = []" and "ac_mode cfg = Enforced" and "ac_admin_key cfg = None"
  shows "snd (authenticate cfg st rq) \<noteq> Inr p \<and> as_keys (fst (authenticate cfg st rq)) = []"
proof -
  have "as_keys (fst (guard_source st rq)) = []"
    using assms(1) by (simp add: guard_source_def split: option.splits prod.splits)
  then have "\<forall>st'. resolve_principal cfg (fst (guard_source st rq)) rq \<noteq> (st', Inr p)"
    and "as_keys (fst (resolve_principal cfg (fst (guard_source st rq)) rq)) = []"
    using resolve_principal_sound [of cfg "fst (guard_source st rq)" rq _ p] assms(2,3)
      resolve_principal_keys(1) [of cfg "fst (guard_source st rq)" rq] by auto
  then show ?thesis using \<open>as_keys (fst (guard_source st rq)) = []\<close>
    by (auto simp: authenticate_def record_failure_def record_success_def split: prod.splits sum.splits option.splits)
qed

lemma closed_door_serves_nobody:
  "serve cfg st rqs = (st', rs) \<Longrightarrow> as_keys st = [] \<Longrightarrow> ac_mode cfg = Enforced \<Longrightarrow> ac_admin_key cfg = None
    \<Longrightarrow> r \<in> set rs \<Longrightarrow> r \<noteq> Inr p"
proof (induction rqs arbitrary: st rs)
  case (Cons rq rqs)
  then show ?case using closed_door [of st cfg rq] by (fastforce split: prod.splits)
qed simp

definition guess_at :: "instant \<Rightarrow> auth_request" where
  "guess_at t = a_request\<lparr>rq_authorization := Some ''Bearer guess'', rq_now := t\<rparr>"


lemma scopes_roundtrip_witness:
  "decode_scopes (\<lambda>s. if s = ''manage'' then Some [''manage''] else None) (Some (encode_scopes concat [KsManage])) = [KsManage]"
  by (subst scopes_roundtrip) (simp_all add: str_trim_def is_space_def)

end
