(* ===== verification/AccessLayer.thy ===== *)
theory AccessLayer
  imports Credentials
begin

text \<open>
  The router layer of \<^verbatim>\<open>crates/api/src/access_layer.rs\<close>: the contract's row for a route decides who
  passes, before any handler runs. The table of rows is an argument; what lies behind the layer is not
  modelled. An authentication cut by the server's deadline is the flag \<open>timed_out\<close>: the throttle was
  consulted and nothing was recorded.
\<close>

section \<open>The layer\<close>

datatype contract_method = CmGet | CmPost | CmPut | CmDelete

datatype http_method = HtGet | HtHead | HtPost | HtPut | HtDelete | HtOther

fun contract_method_of :: "http_method \<Rightarrow> contract_method option" where
  "contract_method_of HtGet = Some CmGet"
| "contract_method_of HtHead = Some CmGet"
| "contract_method_of HtPost = Some CmPost"
| "contract_method_of HtPut = Some CmPut"
| "contract_method_of HtDelete = Some CmDelete"
| "contract_method_of HtOther = None"

datatype contract_scope = CsIngest | CsRead | CsManage

fun contract_scope_as_str :: "contract_scope \<Rightarrow> string" where
  "contract_scope_as_str CsIngest = ''ingest''"
| "contract_scope_as_str CsRead = ''read''"
| "contract_scope_as_str CsManage = ''manage''"

datatype endpoint_access = AcAdmin | AcKey contract_scope | AcUnauthenticated

text \<open>Of a row of the table, the fields the layer reads.\<close>

record endpoint =
  ep_id :: string
  ep_method :: contract_method
  ep_path :: string
  ep_access :: endpoint_access
  ep_machine :: bool

text \<open>What the layer does with a request: hand it on, with the principal it resolved, or refuse it.\<close>

datatype passage = Through "principal option" | Denied error_code

definition presents_device_credential :: "auth_config \<Rightarrow> string option \<Rightarrow> auth_request \<Rightarrow> bool" where
  "presents_device_credential cfg relay_device_key rq = (case bearer (rq_authorization rq) of
     None \<Rightarrow> False
   | Some token \<Rightarrow> device_prefix_of token \<noteq> None
       \<or> (case relay_device_key of Some expected \<Rightarrow> secret_eq (ac_sha cfg) token expected | None \<Rightarrow> False))"

definition authenticate_within_deadline :: "auth_config \<Rightarrow> auth_state \<Rightarrow> bool \<Rightarrow> auth_request
    \<Rightarrow> auth_state \<times> (error_code + principal)" where
  "authenticate_within_deadline cfg st timed_out rq =
     (let (st1, open_source) = guard_source st rq in
      if open_source \<and> timed_out then (st1, Inl EcTimeout) else authenticate cfg st rq)"

definition enforce :: "endpoint list \<Rightarrow> auth_config \<Rightarrow> string option \<Rightarrow> auth_state \<Rightarrow> bool \<Rightarrow> string option
    \<Rightarrow> http_method \<Rightarrow> auth_request \<Rightarrow> auth_state \<times> passage" where
  "enforce endpoints cfg relay_device_key st timed_out matched_path http rq =
     (case matched_path of
        None \<Rightarrow> (st, Through None)
      | Some template \<Rightarrow> (case contract_method_of http of
          None \<Rightarrow> (st, Through None)
        | Some meth \<Rightarrow> (case find (\<lambda>e. ep_path e = template \<and> ep_method e = meth) endpoints of
            None \<Rightarrow> if \<exists>e \<in> set endpoints. ep_path e = template then (st, Through None) else (st, Denied EcInternal)
          | Some row \<Rightarrow> (case ep_access row of
              AcUnauthenticated \<Rightarrow> (st, Through None)
            | AcAdmin \<Rightarrow>
                if ep_machine row \<and> presents_device_credential cfg relay_device_key rq then (st, Through None)
                else (case authenticate_within_deadline cfg st timed_out rq of
                    (st, Inl e) \<Rightarrow> (st, Denied e)
                  | (st, Inr p) \<Rightarrow> (case ensure_can_admin p of
                      Inl e \<Rightarrow> (st, Denied e) | Inr _ \<Rightarrow> (st, Through (Some p))))
            | AcKey k \<Rightarrow> (case find (\<lambda>s. key_scope_as_str s = contract_scope_as_str k) ALL_SCOPES of
                None \<Rightarrow> (st, Denied EcInternal)
              | Some want \<Rightarrow> (case authenticate_within_deadline cfg st timed_out rq of
                    (st, Inl e) \<Rightarrow> (st, Denied e)
                  | (st, Inr p) \<Rightarrow> (case ensure_scope p want of
                      Inl e \<Rightarrow> (st, Denied e) | Inr _ \<Rightarrow> (st, Through (Some p)))))))))"

text \<open>The handlers behind it ask which project a read may target.\<close>

fun resolve_read_project :: "principal \<Rightarrow> string option \<Rightarrow> error_code + string option" where
  "resolve_read_project (PrProject pid kid scopes) requested =
     (case ensure_scope (PrProject pid kid scopes) KsRead of
        Inl e \<Rightarrow> Inl e
      | Inr _ \<Rightarrow> (case requested of
          Some r \<Rightarrow> if r \<noteq> pid then Inl EcForbidden else Inr (Some pid)
        | None \<Rightarrow> Inr (Some pid)))"
| "resolve_read_project _ requested = Inr requested"

section \<open>Who passes\<close>

fun scope_of_contract :: "contract_scope \<Rightarrow> key_scope" where
  "scope_of_contract CsIngest = KsIngest"
| "scope_of_contract CsRead = KsRead"
| "scope_of_contract CsManage = KsManage"

text \<open>Every scope the contract can name is one: the internal error of that branch cannot happen.\<close>

lemma contract_scopes_map: "find (\<lambda>s. key_scope_as_str s = contract_scope_as_str k) ALL_SCOPES = Some (scope_of_contract k)"
  by (cases k) (simp_all add: ALL_SCOPES_def)

lemma within_deadline_authenticated:
  "authenticate_within_deadline cfg st timed_out rq = (st', Inr p) \<Longrightarrow> authenticate cfg st rq = (st', Inr p)"
  by (auto simp: authenticate_within_deadline_def split: prod.splits if_splits)

fun holds_scope :: "principal \<Rightarrow> key_scope \<Rightarrow> bool" where
  "holds_scope (PrProject pid kid scopes) want \<longleftrightarrow> want \<in> set scopes"
| "holds_scope _ want \<longleftrightarrow> True"

lemma ensure_scope_Inr: "ensure_scope p want = Inr u \<longleftrightarrow> holds_scope p want"
  by (cases p) auto

lemma ensure_can_admin_Inr: "ensure_can_admin p = Inr u \<longleftrightarrow> p = PrAdmin \<or> p = PrDev"
  by (cases p) auto

text \<open>
  C23: the declared access is enforced. A request to a declared endpoint is handed on only as its row
  says: on an administrator's row only for the administrator (or the unauthenticated development
  principal), or, where a machine calls it, for a device credential the handler judges itself; on a
  row with a scope only for a principal that was authenticated and holds that scope.
\<close>

theorem declared_access_enforced:
  assumes "enforce endpoints cfg device st timed_out (Some template) http rq = (st', Through po)"
    and "contract_method_of http = Some meth"
    and "find (\<lambda>e. ep_path e = template \<and> ep_method e = meth) endpoints = Some row"
  shows "case ep_access row of
      AcUnauthenticated \<Rightarrow> po = None \<and> st' = st
    | AcAdmin \<Rightarrow> (po = None \<and> st' = st \<and> ep_machine row \<and> presents_device_credential cfg device rq)
        \<or> (\<exists>p. po = Some p \<and> authenticate cfg st rq = (st', Inr p) \<and> (p = PrAdmin \<or> p = PrDev))
    | AcKey k \<Rightarrow> \<exists>p. po = Some p \<and> authenticate cfg st rq = (st', Inr p) \<and> holds_scope p (scope_of_contract k)"
  using assms within_deadline_authenticated [of cfg st timed_out rq]
  by (cases "ep_access row")
     (auto simp: enforce_def contract_scopes_map ensure_scope_Inr ensure_can_admin_Inr
       split: prod.splits sum.splits if_splits)

text \<open>
  A route nobody declared is refused. A matched route with no row under any method is answered
  with an internal error and changes nothing, whoever asks.
\<close>

theorem undeclared_route_refused:
  assumes "contract_method_of http \<noteq> None" and "\<forall>e \<in> set endpoints. ep_path e \<noteq> template"
  shows "enforce endpoints cfg device st timed_out (Some template) http rq = (st, Denied EcInternal)"
proof -
  have "find (\<lambda>e. ep_path e = template \<and> ep_method e = meth) endpoints = None" for meth
    using assms(2) by (auto simp: find_None_iff)
  then show ?thesis using assms by (auto simp: enforce_def)
qed

text \<open>
  A key stays in its project. Through every door, a principal resolved from a key reads and writes
  that key's project only, and only with the matching scope, whatever project the request names.
\<close>

theorem key_stays_in_project:
  "resolve_ingest_project (PrProject pid kid scopes) body
     = (if KsIngest \<in> set scopes then Inr pid else Inl EcForbidden)
   \<and> resolve_read_project (PrProject pid kid scopes) requested
     = (if KsRead \<in> set scopes \<and> requested \<in> {None, Some pid} then Inr (Some pid) else Inl EcForbidden)"
  by (auto split: option.splits)

section \<open>Witnesses\<close>

definition small_contract :: "endpoint list" where
  "small_contract =
    [\<lparr>ep_id = ''post_event'', ep_method = CmPost, ep_path = ''/v1/events'', ep_access = AcKey CsIngest, ep_machine = True\<rparr>,
     \<lparr>ep_id = ''create_project'', ep_method = CmPost, ep_path = ''/v1/projects'', ep_access = AcAdmin, ep_machine = False\<rparr>]"

lemma declared_access_enforced_witness:
  "\<exists>st' p. enforce small_contract door_cfg None open_door False (Some ''/v1/events'') HtPost a_request = (st', Through (Some p))
     \<and> holds_scope p KsIngest"
proof -
  have "authenticate_within_deadline door_cfg open_door False a_request
      = (served_door, Inr (PrProject ''p'' ''k1'' default_scopes))"
    using door_authenticated by (simp add: authenticate_within_deadline_def split: prod.splits)
  then have e: "enforce small_contract door_cfg None open_door False (Some ''/v1/events'') HtPost a_request
      = (served_door, Through (Some (PrProject ''p'' ''k1'' default_scopes)))"
    by (simp add: enforce_def small_contract_def contract_scopes_map [of CsIngest, simplified] default_scopes_def)
  from declared_access_enforced [OF e, of CmPost "hd small_contract"] e show ?thesis
    by (auto simp: small_contract_def)
qed

lemma undeclared_route_refused_witness:
  "enforce small_contract door_cfg None open_door False (Some ''/v1/other'') HtGet a_request = (open_door, Denied EcInternal)"
  by (rule undeclared_route_refused) (simp_all add: small_contract_def)

end
