(* ===== verification/Breaker.thy ===== *)
theory Breaker
  imports LT_Prelude "HOL-Library.Word" "HOL-Library.Multiset"
begin

text \<open>
  Admission to the responder's paid stages (\<^verbatim>\<open>crates/responder/src/breaker.rs\<close>). \<open>try_admit\<close> is the
  call as one thread runs it; the step relation \<open>adm\<close> lets the critical sections of concurrent calls
  interleave, down to the two halves of dropping a guard. The clock reading of a call is taken when it
  is entered. A poisoned lock and the texts of refusals are not modelled.
\<close>

section \<open>The breaker\<close>

type_synonym count = "32 word"

record breaker =
  br_last_act :: "(string \<times> instant) list"
  br_recent :: "instant list"
  br_inflight :: "string set"
  br_last_investigate :: "(string \<times> instant) list"
  br_investigate_recent :: "instant list"
  br_permits :: nat

definition HOUR :: duration where
  "HOUR = duration_of_secs 3600"

definition breaker_new :: "nat \<Rightarrow> breaker" where
  "breaker_new max_concurrent =
     \<lparr>br_last_act = [], br_recent = [], br_inflight = {}, br_last_investigate = [], br_investigate_recent = [],
      br_permits = max max_concurrent 1\<rparr>"

definition cooled_down :: "(string \<times> instant) list \<Rightarrow> instant \<Rightarrow> string \<Rightarrow> duration \<Rightarrow> bool" where
  "cooled_down stamps now project cooldown = (case map_of stamps project of
     Some t \<Rightarrow> \<not> duration_since now t < cooldown | None \<Rightarrow> True)"

definition last_hour :: "instant list \<Rightarrow> instant \<Rightarrow> instant list" where
  "last_hour ts now = filter (\<lambda>t. duration_since now t < HOUR) ts"

definition below_cap :: "instant list \<Rightarrow> instant \<Rightarrow> count \<Rightarrow> bool" where
  "below_cap ts now max_per_hour \<longleftrightarrow> \<not> max_per_hour \<le> word_of_nat (length (last_hour ts now))"

datatype refusal = CoolingDown | HourlyCap | InFlight | MaxConcurrent

text \<open>The sections of a call that write, in its order.\<close>

definition reserve :: "breaker \<Rightarrow> string \<Rightarrow> breaker" where
  "reserve b project = b\<lparr>br_inflight := insert project (br_inflight b)\<rparr>"

definition release :: "breaker \<Rightarrow> string \<Rightarrow> breaker" where
  "release b project = b\<lparr>br_inflight := br_inflight b - {project}\<rparr>"

definition take_permit :: "breaker \<Rightarrow> breaker" where
  "take_permit b = b\<lparr>br_permits := br_permits b - 1\<rparr>"

definition return_permit :: "breaker \<Rightarrow> breaker" where
  "return_permit b = b\<lparr>br_permits := br_permits b + 1\<rparr>"

definition stamp_investigated :: "breaker \<Rightarrow> instant \<Rightarrow> string \<Rightarrow> breaker" where
  "stamp_investigated b now project = b\<lparr>br_last_investigate := AList.update project now (br_last_investigate b)\<rparr>"

definition count_investigated :: "breaker \<Rightarrow> instant \<Rightarrow> breaker" where
  "count_investigated b now = b\<lparr>br_investigate_recent := last_hour (br_investigate_recent b) now @ [now]\<rparr>"

definition try_admit :: "breaker \<Rightarrow> instant \<Rightarrow> string \<Rightarrow> duration \<Rightarrow> count \<Rightarrow> breaker \<times> (refusal + string)" where
  "try_admit b now project cooldown max_per_hour =
     (if \<not> cooled_down (br_last_investigate b) now project cooldown then (b, Inl CoolingDown)
      else if \<not> below_cap (br_investigate_recent b) now max_per_hour then (b, Inl HourlyCap)
      else if project \<in> br_inflight b then (b, Inl InFlight)
      else (let b = reserve b project in
        if br_permits b = 0 then (release b project, Inl MaxConcurrent)
        else (count_investigated (stamp_investigated (take_permit b) now project) now, Inr project)))"

text \<open>Dropping the guard of an admitted investigation.\<close>

definition drop_guard :: "breaker \<Rightarrow> string \<Rightarrow> breaker" where
  "drop_guard b project = return_permit (release b project)"

definition act_allow :: "breaker \<Rightarrow> instant \<Rightarrow> string \<Rightarrow> duration \<Rightarrow> count \<Rightarrow> refusal + unit" where
  "act_allow b now project cooldown max_per_hour =
     (if \<not> below_cap (br_recent b) now max_per_hour then Inl HourlyCap
      else if \<not> cooled_down (br_last_act b) now project cooldown then Inl CoolingDown
      else Inr ())"

definition act_record :: "breaker \<Rightarrow> instant \<Rightarrow> string \<Rightarrow> breaker" where
  "act_record b now project = b\<lparr>br_last_act := AList.update project now (br_last_act b),
     br_recent := last_hour (br_recent b) now @ [now]\<rparr>"

section \<open>Concurrent calls\<close>

text \<open>Where a call stands, with its project and the time it was entered.\<close>

datatype call =
    Entered string instant | Cooled string instant | Counted string instant
  | Reserved string instant | Backing string | Permitted string instant | Dated string instant
  | Holding string | Letting string

inductive adm :: "duration \<Rightarrow> count \<Rightarrow> breaker \<times> call multiset \<Rightarrow> breaker \<times> call multiset \<Rightarrow> bool"
  for cooldown :: duration and cap :: count where
  enter: "adm cooldown cap (b, M) (b, add_mset (Entered p now) M)"
| cooled: "cooled_down (br_last_investigate b) now p cooldown
    \<Longrightarrow> adm cooldown cap (b, add_mset (Entered p now) M) (b, add_mset (Cooled p now) M)"
| cooling: "\<not> cooled_down (br_last_investigate b) now p cooldown
    \<Longrightarrow> adm cooldown cap (b, add_mset (Entered p now) M) (b, M)"
| counted: "below_cap (br_investigate_recent b) now cap
    \<Longrightarrow> adm cooldown cap (b, add_mset (Cooled p now) M) (b, add_mset (Counted p now) M)"
| capped: "\<not> below_cap (br_investigate_recent b) now cap
    \<Longrightarrow> adm cooldown cap (b, add_mset (Cooled p now) M) (b, M)"
| reserved: "p \<notin> br_inflight b
    \<Longrightarrow> adm cooldown cap (b, add_mset (Counted p now) M) (reserve b p, add_mset (Reserved p now) M)"
| in_flight: "p \<in> br_inflight b
    \<Longrightarrow> adm cooldown cap (b, add_mset (Counted p now) M) (b, M)"
| permitted: "br_permits b \<noteq> 0
    \<Longrightarrow> adm cooldown cap (b, add_mset (Reserved p now) M) (take_permit b, add_mset (Permitted p now) M)"
| no_permit: "br_permits b = 0
    \<Longrightarrow> adm cooldown cap (b, add_mset (Reserved p now) M) (b, add_mset (Backing p) M)"
| backed: "adm cooldown cap (b, add_mset (Backing p) M) (release b p, M)"
| dated: "adm cooldown cap (b, add_mset (Permitted p now) M) (stamp_investigated b now p, add_mset (Dated p now) M)"
| held: "adm cooldown cap (b, add_mset (Dated p now) M) (count_investigated b now, add_mset (Holding p) M)"
| letting: "adm cooldown cap (b, add_mset (Holding p) M) (release b p, add_mset (Letting p) M)"
| let_go: "adm cooldown cap (b, add_mset (Letting p) M) (return_permit b, M)"

definition adm_reaches :: "duration \<Rightarrow> count \<Rightarrow> nat \<Rightarrow> breaker \<times> call multiset \<Rightarrow> bool" where
  "adm_reaches cooldown cap n s \<longleftrightarrow> (adm cooldown cap)\<^sup>*\<^sup>* (breaker_new n, {#}) s"

section \<open>One run per project, and no more than the permits\<close>

text \<open>The project whose slot a call holds, and whether it holds a permit.\<close>

fun slot_of :: "call \<Rightarrow> string option" where
  "slot_of (Reserved p now) = Some p"
| "slot_of (Backing p) = Some p"
| "slot_of (Permitted p now) = Some p"
| "slot_of (Dated p now) = Some p"
| "slot_of (Holding p) = Some p"
| "slot_of _ = None"

fun has_permit :: "call \<Rightarrow> bool" where
  "has_permit (Permitted p now) \<longleftrightarrow> True"
| "has_permit (Dated p now) \<longleftrightarrow> True"
| "has_permit (Holding p) \<longleftrightarrow> True"
| "has_permit (Letting p) \<longleftrightarrow> True"
| "has_permit _ \<longleftrightarrow> False"

definition slots :: "call multiset \<Rightarrow> string multiset" where
  "slots M = image_mset (\<lambda>c. the (slot_of c)) (filter_mset (\<lambda>c. slot_of c \<noteq> None) M)"

definition adm_inv :: "nat \<Rightarrow> breaker \<times> call multiset \<Rightarrow> bool" where
  "adm_inv n s \<longleftrightarrow> (case s of (b, M) \<Rightarrow> finite (br_inflight b) \<and> slots M = mset_set (br_inflight b)
     \<and> size (filter_mset has_permit M) + br_permits b = max n 1)"

lemma slots_simps [simp]:
  "slots {#} = {#}"
  "slots (add_mset c M) = (case slot_of c of None \<Rightarrow> slots M | Some p \<Rightarrow> add_mset p (slots M))"
  by (auto simp: slots_def split: option.splits)

lemma mset_set_member:
  assumes "add_mset p X = mset_set A" and "finite A"
  shows "p \<in> A" and "X = mset_set (A - {p})"
proof -
  have "p \<in># mset_set A" unfolding assms(1) [symmetric] by simp
  then show p: "p \<in> A" using assms(2) by simp
  then show "X = mset_set (A - {p})" using assms by (metis add_mset_add_mset_same_iff mset_set.remove)
qed

lemma adm_inv_step: "adm cooldown cap s s' \<Longrightarrow> adm_inv n s \<Longrightarrow> adm_inv n s'"
proof (induction rule: adm.induct)
  case (backed b p M)
  then have s: "add_mset p (slots M) = mset_set (br_inflight b)" "finite (br_inflight b)" by (auto simp: adm_inv_def)
  show ?case using mset_set_member [OF s] backed by (simp add: adm_inv_def release_def)
next
  case (letting b p M)
  then have s: "add_mset p (slots M) = mset_set (br_inflight b)" "finite (br_inflight b)" by (auto simp: adm_inv_def)
  show ?case using mset_set_member [OF s] letting by (simp add: adm_inv_def release_def)
qed (auto simp: adm_inv_def reserve_def take_permit_def return_permit_def stamp_investigated_def count_investigated_def)

lemma adm_inv_reaches: "adm_reaches cooldown cap n s \<Longrightarrow> adm_inv n s"
proof -
  assume "adm_reaches cooldown cap n s"
  then have "(adm cooldown cap)\<^sup>*\<^sup>* (breaker_new n, {#}) s" by (simp add: adm_reaches_def)
  then show ?thesis
  proof (induction rule: rtranclp_induct)
    case base
    then show ?case by (simp add: adm_inv_def breaker_new_def)
  next
    case (step s s')
    then show ?case using adm_inv_step by blast
  qed
qed

text \<open>The projects being investigated.\<close>

definition running :: "call multiset \<Rightarrow> string multiset" where
  "running M = image_mset (\<lambda>c. the (slot_of c)) (filter_mset (\<lambda>c. \<exists>p. c = Holding p) M)"

text \<open>
  C13: the investigations in flight are bounded. However the critical sections of concurrent calls and
  of dropped guards interleave, no project is investigated twice at once and no more investigations run
  at once than there are permits; and when no call is under way, every slot and every permit is free.
\<close>

theorem one_run_per_project:
  assumes "adm_reaches cooldown cap n (b, M)"
  shows "(\<forall>p. count (running M) p \<le> 1) \<and> size (running M) \<le> max n 1
    \<and> (M = {#} \<longrightarrow> br_inflight b = {} \<and> br_permits b = max n 1)"
proof -
  have inv: "finite (br_inflight b)" "slots M = mset_set (br_inflight b)"
    "size (filter_mset has_permit M) + br_permits b = max n 1"
    using adm_inv_reaches [OF assms] by (auto simp: adm_inv_def)
  have "filter_mset (\<lambda>c. \<exists>p. c = Holding p) M \<subseteq># filter_mset (\<lambda>c. slot_of c \<noteq> None) M"
    by (rule filter_mset_mono_strong) auto
  then have "running M \<subseteq># slots M" unfolding running_def slots_def by (rule image_mset_subseteq_mono)
  then have "count (running M) p \<le> count (mset_set (br_inflight b)) p" for p
    using inv(2) by (metis mset_subset_eq_count)
  moreover have "count (mset_set (br_inflight b)) p \<le> 1" for p
    using inv(1) by (cases "p \<in> br_inflight b") auto
  ultimately have "count (running M) p \<le> 1" for p using le_trans by blast
  moreover have "size (running M) \<le> size (filter_mset has_permit M)"
    unfolding running_def size_image_mset by (intro size_mset_mono filter_mset_mono_strong) auto
  moreover have "M = {#} \<Longrightarrow> br_inflight b = {} \<and> br_permits b = max n 1"
    using inv by (auto simp: mset_set_empty_iff)
  ultimately show ?thesis using inv(3) by auto
qed

section \<open>One call is a path of its sections\<close>

lemma try_admit_path:
  assumes "try_admit b now p cooldown cap = (b', r)"
  shows "(adm cooldown cap)\<^sup>*\<^sup>* (b, add_mset (Entered p now) M)
    (b', (case r of Inr _ \<Rightarrow> add_mset (Holding p) M | Inl _ \<Rightarrow> M))"
proof -
  let ?R = "adm cooldown cap"
  consider "\<not> cooled_down (br_last_investigate b) now p cooldown"
    | "cooled_down (br_last_investigate b) now p cooldown" "\<not> below_cap (br_investigate_recent b) now cap"
    | "cooled_down (br_last_investigate b) now p cooldown" "below_cap (br_investigate_recent b) now cap" by blast
  then show ?thesis
  proof cases
    case 1
    then show ?thesis using assms adm.cooling [OF 1] by (auto simp: try_admit_def)
  next
    case 2
    then have "?R\<^sup>*\<^sup>* (b, add_mset (Entered p now) M) (b, M)"
      using adm.cooled [OF 2(1)] adm.capped [OF 2(2)] by (blast intro: rtranclp_trans converse_rtranclp_into_rtranclp)
    then show ?thesis using assms 2 by (auto simp: try_admit_def)
  next
    case 3
    then have start: "?R\<^sup>*\<^sup>* (b, add_mset (Entered p now) M) (b, add_mset (Counted p now) M)"
      using adm.cooled [OF 3(1)] adm.counted [OF 3(2)] by (blast intro: converse_rtranclp_into_rtranclp)
    show ?thesis
    proof (cases "p \<in> br_inflight b")
      case True
      have "?R\<^sup>*\<^sup>* (b, add_mset (Entered p now) M) (b, M)"
        using start adm.in_flight [OF True] by (rule rtranclp.rtrancl_into_rtrancl)
      then show ?thesis using assms 3 True by (auto simp: try_admit_def)
    next
      case False
      have res: "?R\<^sup>*\<^sup>* (b, add_mset (Entered p now) M) (reserve b p, add_mset (Reserved p now) M)"
        using start adm.reserved [OF False] by (rule rtranclp.rtrancl_into_rtrancl)
      show ?thesis
      proof (cases "br_permits b = 0")
        case True
        then have z: "br_permits (reserve b p) = 0" by (simp add: reserve_def)
        have "?R\<^sup>*\<^sup>* (b, add_mset (Entered p now) M) (release (reserve b p) p, M)"
          by (rule rtranclp_trans [OF res]) (blast intro: converse_rtranclp_into_rtranclp adm.no_permit [OF z] adm.backed)
        then show ?thesis using assms 3 False True by (auto simp: try_admit_def Let_def reserve_def)
      next
        case some: False
        then have z: "br_permits (reserve b p) \<noteq> 0" by (simp add: reserve_def)
        let ?b3 = "count_investigated (stamp_investigated (take_permit (reserve b p)) now p) now"
        have "?R\<^sup>*\<^sup>* (b, add_mset (Entered p now) M) (?b3, add_mset (Holding p) M)"
          by (rule rtranclp_trans [OF res])
            (blast intro: converse_rtranclp_into_rtranclp adm.permitted [OF z] adm.dated adm.held)
        then show ?thesis using assms 3 False some by (auto simp: try_admit_def Let_def reserve_def)
      qed
    qed
  qed
qed

section \<open>The rolling hour, one call at a time\<close>

datatype breaker_op = TryAdmit string | Drop string

fun breaker_run :: "duration \<Rightarrow> count \<Rightarrow> breaker \<Rightarrow> (instant \<times> breaker_op) list \<Rightarrow> breaker \<times> (instant \<times> string) list" where
  "breaker_run cooldown cap b [] = (b, [])"
| "breaker_run cooldown cap b ((now, Drop p) # ops) = breaker_run cooldown cap (drop_guard b p) ops"
| "breaker_run cooldown cap b ((now, TryAdmit p) # ops) =
     (case try_admit b now p cooldown cap of
        (b, Inl _) \<Rightarrow> breaker_run cooldown cap b ops
      | (b, Inr _) \<Rightarrow> (let (b, log) = breaker_run cooldown cap b ops in (b, (now, p) # log)))"

text \<open>
  What the two limits promise of a list of admissions, oldest first: each had fewer than the cap in the
  hour before it, and none of its project within the cooldown.
\<close>

fun within_limits :: "duration \<Rightarrow> count \<Rightarrow> (instant \<times> string) list \<Rightarrow> (instant \<times> string) list \<Rightarrow> bool" where
  "within_limits cooldown cap older [] \<longleftrightarrow> True"
| "within_limits cooldown cap older ((t, p) # newer) \<longleftrightarrow>
     length (last_hour (map fst older) t) < unat cap
   \<and> (\<forall>s q. (s, q) \<in> set older \<longrightarrow> q = p \<longrightarrow> cooldown \<le> duration_since t s)
   \<and> within_limits cooldown cap (older @ [(t, p)]) newer"

definition remembers :: "count \<Rightarrow> instant \<Rightarrow> breaker \<Rightarrow> (instant \<times> string) list \<Rightarrow> bool" where
  "remembers cap t b runs \<longleftrightarrow> length (br_investigate_recent b) \<le> unat cap
     \<and> (\<forall>now \<ge> t. last_hour (br_investigate_recent b) now = last_hour (map fst runs) now)
     \<and> (\<forall>s p. (s, p) \<in> set runs \<longrightarrow> s \<le> t \<and> (\<exists>u. map_of (br_last_investigate b) p = Some u \<and> s \<le> u))"

lemma remembers_later: "remembers cap t b runs \<Longrightarrow> t \<le> t' \<Longrightarrow> remembers cap t' b runs"
  unfolding remembers_def by (meson order_trans)

lemma last_hour_again: "now \<le> later \<Longrightarrow> last_hour (last_hour ts now) later = last_hour ts later"
  by (auto simp: last_hour_def duration_since_def intro!: filter_cong)

lemma below_cap_iff:
  assumes "length ts \<le> unat cap"
  shows "below_cap ts now cap \<longleftrightarrow> length (last_hour ts now) < unat cap"
proof -
  have "length (last_hour ts now) \<le> unat cap" using assms by (auto simp: last_hour_def intro: le_trans [OF length_filter_le])
  moreover have "unat cap < 2 ^ LENGTH(32)" by (rule unsigned_less)
  ultimately have "length (last_hour ts now) < 2 ^ 32" by simp
  then have "unat (word_of_nat (length (last_hour ts now)) :: count) = length (last_hour ts now)"
    by (simp add: unat_of_nat)
  then show ?thesis by (simp add: below_cap_def word_le_nat_alt not_le)
qed

lemma try_admit_remembers:
  assumes "try_admit b now p cooldown cap = (b', Inr q)" and "remembers cap now b runs"
  shows "length (last_hour (map fst runs) now) < unat cap
    \<and> (\<forall>s q. (s, q) \<in> set runs \<longrightarrow> q = p \<longrightarrow> cooldown \<le> duration_since now s)
    \<and> remembers cap now b' (runs @ [(now, p)])"
proof -
  have ok: "cooled_down (br_last_investigate b) now p cooldown" "below_cap (br_investigate_recent b) now cap"
    and b': "b' = count_investigated (stamp_investigated (take_permit (reserve b p)) now p) now"
    using assms(1) by (auto simp: try_admit_def Let_def split: if_splits)
  have short: "length (last_hour (br_investigate_recent b) now) < unat cap"
    using ok(2) below_cap_iff assms(2) by (simp add: remembers_def)
  moreover have "cooldown \<le> duration_since now s" if s: "(s, p) \<in> set runs" for s
  proof -
    obtain u where "map_of (br_last_investigate b) p = Some u" "s \<le> u"
      using assms(2) s unfolding remembers_def by blast
    then have "cooldown \<le> duration_since now u" using ok(1) by (simp add: cooled_down_def not_less)
    also have "\<dots> \<le> duration_since now s" using \<open>s \<le> u\<close> by (simp add: duration_since_def nat_mono)
    finally show ?thesis .
  qed
  moreover have "remembers cap now b' (runs @ [(now, p)])"
  proof -
    have recent: "br_investigate_recent b' = last_hour (br_investigate_recent b) now @ [now]"
      and last: "map_of (br_last_investigate b') = (map_of (br_last_investigate b))(p \<mapsto> now)"
      by (simp_all add: b' count_investigated_def stamp_investigated_def take_permit_def reserve_def)
    have "last_hour (br_investigate_recent b') t = last_hour (map fst (runs @ [(now, p)])) t" if "now \<le> t" for t
      using that assms(2) last_hour_again [OF that, of "br_investigate_recent b"]
      by (simp add: recent remembers_def) (simp add: last_hour_def)
    moreover have "s \<le> now \<and> (\<exists>u. map_of (br_last_investigate b') q = Some u \<and> s \<le> u)"
      if "(s, q) \<in> set (runs @ [(now, p)])" for s q
    proof (cases "q = p")
      case True
      then show ?thesis using that assms(2) unfolding last remembers_def by auto
    next
      case False
      then have "(s, q) \<in> set runs" using that by simp
      then show ?thesis using assms(2) False unfolding last remembers_def by simp
    qed
    ultimately show ?thesis using short by (auto simp: remembers_def recent)
  qed
  ultimately show ?thesis using assms(2) by (simp add: remembers_def)
qed

lemma try_admit_refused: "try_admit b now p cooldown cap = (b', Inl r) \<Longrightarrow>
    br_investigate_recent b' = br_investigate_recent b \<and> br_last_investigate b' = br_last_investigate b"
  by (auto simp: try_admit_def Let_def reserve_def release_def split: if_splits)

lemma remembers_fields:
  "br_investigate_recent b' = br_investigate_recent b \<Longrightarrow> br_last_investigate b' = br_last_investigate b
    \<Longrightarrow> remembers cap t b' runs = remembers cap t b runs"
  by (simp add: remembers_def)

lemma breaker_run_limits:
  assumes "breaker_run cooldown cap b ops = (b', log)" and "remembers cap t b runs"
    and "sorted (t # map fst ops)"
  shows "within_limits cooldown cap runs log"
  using assms
proof (induction cooldown cap b ops arbitrary: t runs b' log rule: breaker_run.induct)
  case (1 cooldown cap b)
  then show ?case by simp
next
  case (2 cooldown cap b now p ops)
  have "remembers cap now (drop_guard b p) runs"
    using remembers_later [OF 2(3), of now] 2(4)
      remembers_fields [of "drop_guard b p" b cap now runs] by (simp add: drop_guard_def release_def return_permit_def)
  then show ?case using 2 by simp
next
  case (3 cooldown cap b now p ops)
  have rem: "remembers cap now b runs" using remembers_later [OF 3(4), of now] 3(5) by simp
  obtain b1 r where a: "try_admit b now p cooldown cap = (b1, r)" by fastforce
  show ?case
  proof (cases r)
    case (Inl why)
    then have "remembers cap now b1 runs"
      using a try_admit_refused [of b now p cooldown cap b1 why] rem remembers_fields [of b1 b] by simp
    then show ?thesis using 3 a Inl by simp
  next
    case (Inr q)
    obtain b2 log2 where b2: "breaker_run cooldown cap b1 ops = (b2, log2)" by fastforce
    have lg: "log = (now, p) # log2" using 3(3) a Inr b2 by simp
    note ad = try_admit_remembers [OF a [unfolded Inr] rem]
    have "within_limits cooldown cap (runs @ [(now, p)]) log2"
      using 3(2) [OF a [symmetric] Inr b2, of now] ad 3(5) by simp
    then show ?thesis using ad lg by simp
  qed
qed

text \<open>
  The spend caps of the investigate stage. Where one call finishes before the next is entered and
  the clock does not run backwards, fewer investigations than the cap were admitted in the hour before
  each admission, and none of the same project within the cooldown before it.
\<close>

theorem investigations_within_limits:
  assumes "sorted (map fst ops)"
  shows "within_limits cooldown cap [] (snd (breaker_run cooldown cap (breaker_new n) ops))"
proof -
  obtain b' runs where r: "breaker_run cooldown cap (breaker_new n) ops = (b', runs)" by fastforce
  define t where "t = (if ops = [] then 0 else fst (hd ops))"
  have "remembers cap t (breaker_new n) []" by (simp add: remembers_def breaker_new_def last_hour_def)
  moreover have "sorted (t # map fst ops)" using assms by (cases ops) (auto simp: t_def)
  ultimately show ?thesis using breaker_run_limits [OF r] r by simp
qed

section \<open>Between a check and its record\<close>

lemma both_checks_path:
  assumes "cooled_down (br_last_investigate b) now p cooldown" and "below_cap (br_investigate_recent b) now cap"
  shows "(adm cooldown cap)\<^sup>*\<^sup>* (b, M) (b, add_mset (Counted p now) M)"
proof -
  have "(adm cooldown cap)\<^sup>*\<^sup>* (b, M) (b, add_mset (Entered p now) M)"
    using adm.enter by (rule r_into_rtranclp [where r = "adm cooldown cap"])
  also have "(adm cooldown cap)\<^sup>*\<^sup>* (b, add_mset (Entered p now) M) (b, add_mset (Cooled p now) M)"
    using adm.cooled [OF assms(1)] by (rule r_into_rtranclp [where r = "adm cooldown cap"])
  also have "(adm cooldown cap)\<^sup>*\<^sup>* (b, add_mset (Cooled p now) M) (b, add_mset (Counted p now) M)"
    using adm.counted [OF assms(2)] by (rule r_into_rtranclp [where r = "adm cooldown cap"])
  finally show ?thesis .
qed

text \<open>
  The cap of one per hour, two concurrent calls for two projects, two permits: both are admitted.
\<close>

lemma cap_overrun:
  "\<exists>b. adm_reaches 0 1 2 (b, {#Holding ''x'', Holding ''y''#}) \<and> length (br_investigate_recent b) = 2"
proof -
  let ?R = "adm 0 1"
  let ?b = "breaker_new 2"
  have open_cap: "cooled_down (br_last_investigate ?b) 0 p 0" "below_cap (br_investigate_recent ?b) 0 1" for p
    by (simp_all add: breaker_new_def cooled_down_def below_cap_def last_hour_def)
  note x = both_checks_path [OF open_cap, where p = "''x''" and M = "{#}"]
    and y = both_checks_path [OF open_cap, where p = "''y''" and M = "{#Counted ''x'' 0#}"]
  let ?b1 = "reserve ?b ''x''"
  let ?b2 = "take_permit ?b1"
  let ?b3 = "stamp_investigated ?b2 0 ''x''"
  let ?b4 = "count_investigated ?b3 0"
  have fx: "''x'' \<notin> br_inflight ?b" "br_permits ?b1 \<noteq> 0" by (simp_all add: breaker_new_def reserve_def)
  have hx: "?R\<^sup>*\<^sup>* (?b, add_mset (Counted ''x'' 0) M) (?b4, add_mset (Holding ''x'') M)" for M
    by (blast intro: converse_rtranclp_into_rtranclp adm.reserved [OF fx(1)] adm.permitted [OF fx(2)] adm.dated adm.held)
  let ?c1 = "reserve ?b4 ''y''"
  let ?c2 = "take_permit ?c1"
  let ?c3 = "stamp_investigated ?c2 0 ''y''"
  let ?c4 = "count_investigated ?c3 0"
  have fy: "''y'' \<notin> br_inflight ?b4" "br_permits ?c1 \<noteq> 0"
    by (simp_all add: breaker_new_def reserve_def take_permit_def stamp_investigated_def count_investigated_def)
  have hy: "?R\<^sup>*\<^sup>* (?b4, add_mset (Counted ''y'' 0) M) (?c4, add_mset (Holding ''y'') M)" for M
    by (blast intro: converse_rtranclp_into_rtranclp adm.reserved [OF fy(1)] adm.permitted [OF fy(2)] adm.dated adm.held)
  have "?R\<^sup>*\<^sup>* (?b, {#}) (?c4, {#Holding ''x'', Holding ''y''#})"
    using x y hx [of "{#Counted ''y'' 0#}"] hy [of "{#Holding ''x''#}"]
    by (simp add: add_mset_commute)
  moreover have "length (br_investigate_recent ?c4) = 2"
    by (simp add: breaker_new_def reserve_def take_permit_def stamp_investigated_def count_investigated_def
        last_hour_def duration_since_def HOUR_def duration_of_secs_def)
  ultimately show ?thesis unfolding adm_reaches_def by blast
qed

text \<open>The same gap in the act stage, where a whole fix runs between the check and the record.\<close>

lemma act_cap_overrun:
  "act_allow (breaker_new 2) 0 ''x'' 0 1 = Inr () \<and> act_allow (breaker_new 2) 0 ''y'' 0 1 = Inr ()
   \<and> length (last_hour (br_recent (act_record (act_record (breaker_new 2) 1 ''x'') 2 ''y'')) 2) = 2"
  by (simp add: act_allow_def act_record_def breaker_new_def below_cap_def cooled_down_def last_hour_def
      duration_since_def HOUR_def duration_of_secs_def)

section \<open>Witnesses\<close>

lemma one_run_per_project_witness:
  "\<exists>b. count (running {#Holding ''x'', Holding ''y''#}) ''x'' \<le> 1 \<and> adm_reaches 0 1 2 (b, {#Holding ''x'', Holding ''y''#})"
proof -
  obtain b where b: "adm_reaches 0 1 2 (b, {#Holding ''x'', Holding ''y''#})" using cap_overrun by blast
  from one_run_per_project [OF b] b show ?thesis by blast
qed

definition spike_ops :: "(instant \<times> breaker_op) list" where
  "spike_ops = [(0, TryAdmit ''x''), (1, TryAdmit ''y''), (2, Drop ''x''), (3, TryAdmit ''x'')]"

lemma investigations_within_limits_witness:
  "snd (breaker_run 1 2 (breaker_new 2) spike_ops) = [(0, ''x''), (1, ''y'')]
   \<and> within_limits 1 2 [] (snd (breaker_run 1 2 (breaker_new 2) spike_ops))"
proof
  show "snd (breaker_run 1 2 (breaker_new 2) spike_ops) = [(0, ''x''), (1, ''y'')]"
    by (simp add: spike_ops_def breaker_new_def try_admit_def cooled_down_def below_cap_def last_hour_def
        duration_since_def HOUR_def duration_of_secs_def reserve_def release_def take_permit_def
        stamp_investigated_def count_investigated_def drop_guard_def return_permit_def word_le_nat_alt Let_def)
  show "within_limits 1 2 [] (snd (breaker_run 1 2 (breaker_new 2) spike_ops))"
    by (rule investigations_within_limits) (simp add: spike_ops_def)
qed

end
