(* ===== verification/RedactWalk.thy ===== *)
theory RedactWalk
  imports LT_Prelude
begin

text \<open>
  The scrubber and its bounded walk over caller-chosen JSON (\<^verbatim>\<open>crates/anon/src/lib.rs\<close>,
  \<^verbatim>\<open>stamp.rs\<close>, and \<open>scrub_value_capped\<close> of \<^verbatim>\<open>crates/api/src/redact.rs\<close>). A rule's regular
  expression is the two functions the code calls on it: how many matches a text has, and the text
  with them replaced. The rule list is an argument, in evaluation order. Strings are bytes.
\<close>

section \<open>Scrubbing a text\<close>

record rule =
  ru_kind :: string
  ru_placeholder :: string
  ru_count :: "string \<Rightarrow> nat"
  ru_replace :: "string \<Rightarrow> string"

fun scrub_loop :: "rule list \<Rightarrow> string \<times> nat \<Rightarrow> string \<times> nat" where
  "scrub_loop [] acc = acc"
| "scrub_loop (r # rs) (out, redactions) =
     (let n = ru_count r out in
      if 0 < n then scrub_loop rs (ru_replace r out, redactions + n) else scrub_loop rs (out, redactions))"

definition scrub :: "rule list \<Rightarrow> string \<Rightarrow> string \<times> nat" where
  "scrub rules text = scrub_loop rules (text, 0)"

record scrub_report =
  sr_redactions :: nat
  sr_by_placeholder :: "(string \<times> nat) list"

fun detailed_loop :: "rule list \<Rightarrow> string \<times> scrub_report \<Rightarrow> string \<times> scrub_report" where
  "detailed_loop [] acc = acc"
| "detailed_loop (r # rs) (out, rep) =
     (let n = ru_count r out in
      if 0 < n then detailed_loop rs (ru_replace r out,
          rep\<lparr>sr_redactions := sr_redactions rep + n,
            sr_by_placeholder := AList.update (ru_placeholder r)
              ((case map_of (sr_by_placeholder rep) (ru_placeholder r) of Some m \<Rightarrow> m | None \<Rightarrow> 0) + n)
              (sr_by_placeholder rep)\<rparr>)
      else detailed_loop rs (out, rep))"

definition scrub_detailed :: "rule list \<Rightarrow> string \<Rightarrow> string \<times> scrub_report" where
  "scrub_detailed rules text = detailed_loop rules (text, \<lparr>sr_redactions = 0, sr_by_placeholder = []\<rparr>)"

definition scrub_string :: "rule list \<Rightarrow> string \<Rightarrow> string \<times> nat" where
  "scrub_string rules s = (let (text, n) = scrub rules s in if 0 < n then (text, n) else (s, n))"

section \<open>The bounded walk\<close>

datatype json = JNull | JBool bool | JNumber string | JString string | JArray "json list"
  | JObject "(string \<times> json) list"

definition MAX_DEPTH :: nat where
  "MAX_DEPTH = 12"

definition MAX_BREADTH :: nat where
  "MAX_BREADTH = 512"

definition MAX_STRING_BYTES :: nat where
  "MAX_STRING_BYTES = 32 * 1024"

definition MAX_NODES :: nat where
  "MAX_NODES = 20000"

fun show_nat :: "nat \<Rightarrow> string" where
  "show_nat n = (if n < 10 then [char_of (48 + n)] else show_nat (n div 10) @ [char_of (48 + n mod 10)])"

declare show_nat.simps [simp del]

definition unscanned :: "string \<Rightarrow> json" where
  "unscanned which = JString (''<UNSCANNED: '' @ which @ ''>'')"

record walk =
  nodes_left :: nat
  wk_redactions :: nat
  wk_capped :: nat

text \<open>The largest character boundary of a text up to a position.\<close>

definition is_char_boundary :: "string \<Rightarrow> nat \<Rightarrow> bool" where
  "is_char_boundary s i \<longleftrightarrow> i = 0 \<or> i = length s
     \<or> (i < length s \<and> \<not> ((128::nat) \<le> of_char (s ! i) \<and> of_char (s ! i) < (192::nat)))"

fun char_cut :: "string \<Rightarrow> nat \<Rightarrow> nat" where
  "char_cut s 0 = 0"
| "char_cut s (Suc n) = (if is_char_boundary s (Suc n) then Suc n else char_cut s n)"

text \<open>An object is its entries in the order of their keys, as the sorted map behind it keeps them.\<close>

fun object_insert :: "string \<Rightarrow> json \<Rightarrow> (string \<times> json) list \<Rightarrow> (string \<times> json) list" where
  "object_insert k v [] = [(k, v)]"
| "object_insert k v ((k', v') # m) =
     (if k = k' then (k, v) # m else if k < k' then (k, v) # (k', v') # m else (k', v') # object_insert k v m)"

definition scrub_leaf :: "rule list \<Rightarrow> string \<Rightarrow> walk \<Rightarrow> json \<times> walk" where
  "scrub_leaf rules s w =
     (if MAX_STRING_BYTES < length s
      then (let c = char_cut s MAX_STRING_BYTES; (head, n) = scrub_string rules (take c s) in
        (JString (head @ ''<UNSCANNED: string, '' @ show_nat (length s - c) @ '' bytes dropped>''),
         w\<lparr>wk_redactions := wk_redactions w + n, wk_capped := wk_capped w + 1\<rparr>))
      else (let (text, n) = scrub_string rules s in (JString text, w\<lparr>wk_redactions := wk_redactions w + n\<rparr>)))"

definition shed_items :: "json list \<Rightarrow> walk \<Rightarrow> json list \<times> walk" where
  "shed_items xs w =
     (if MAX_BREADTH < length xs
      then (take MAX_BREADTH xs @ [unscanned (''breadth, '' @ show_nat (length xs - MAX_BREADTH) @ '' entries dropped'')],
            w\<lparr>wk_capped := wk_capped w + 1\<rparr>)
      else (xs, w))"

definition shed_keys :: "(string \<times> json) list \<Rightarrow> walk \<Rightarrow> (string \<times> json) list \<times> walk" where
  "shed_keys m w =
     (if MAX_BREADTH < length m
      then (object_insert ''<UNSCANNED>''
              (unscanned (''breadth, '' @ show_nat (length m - MAX_BREADTH) @ '' keys dropped'')) (take MAX_BREADTH m),
            w\<lparr>wk_capped := wk_capped w + 1\<rparr>)
      else (m, w))"

function walk_json :: "rule list \<Rightarrow> nat \<Rightarrow> json \<Rightarrow> walk \<Rightarrow> json \<times> walk"
  and walk_all :: "rule list \<Rightarrow> nat \<Rightarrow> json list \<Rightarrow> walk \<Rightarrow> json list \<times> walk" where
  "walk_json rules depth v w =
     (if MAX_DEPTH \<le> depth then (unscanned ''depth'', w\<lparr>wk_capped := wk_capped w + 1\<rparr>)
      else if nodes_left w = 0 then (unscanned ''node-budget'', w\<lparr>wk_capped := wk_capped w + 1\<rparr>)
      else (let w = w\<lparr>nodes_left := nodes_left w - 1\<rparr> in case v of
          JString s \<Rightarrow> scrub_leaf rules s w
        | JArray xs \<Rightarrow> (let (xs, w) = shed_items xs w; (ys, w) = walk_all rules (depth + 1) xs w in (JArray ys, w))
        | JObject m \<Rightarrow> (let (m, w) = shed_keys m w; (ys, w) = walk_all rules (depth + 1) (map snd m) w
            in (JObject (zip (map fst m) ys), w))
        | _ \<Rightarrow> (v, w)))"
| "walk_all rules depth [] w = ([], w)"
| "walk_all rules depth (v # vs) w =
     (let (v, w) = walk_json rules depth v w; (vs, w) = walk_all rules depth vs w in (v # vs, w))"
  by pat_completeness auto

text \<open>The walk ends because of its depth cap, whatever the payload.\<close>

termination
  by (relation "measures [\<lambda>x. case x of Inl (rules, depth, v, w) \<Rightarrow> MAX_DEPTH - depth
        | Inr (rules, depth, vs, w) \<Rightarrow> MAX_DEPTH - depth,
      \<lambda>x. case x of Inl _ \<Rightarrow> 0 | Inr (rules, depth, vs, w) \<Rightarrow> Suc (length vs)]") auto

declare walk_json.simps [simp del]

text \<open>Inside the caps, by the shape of the value.\<close>

abbreviation spend :: "walk \<Rightarrow> walk" where
  "spend w \<equiv> w\<lparr>nodes_left := nodes_left w - 1\<rparr>"

lemma walk_json_open:
  assumes "depth < MAX_DEPTH" and "nodes_left w \<noteq> 0"
  shows "walk_json rules depth (JString s) w = scrub_leaf rules s (spend w)"
    and "walk_json rules depth (JArray xs) w = (let (xs, w) = shed_items xs (spend w);
        (ys, w) = walk_all rules (depth + 1) xs w in (JArray ys, w))"
    and "walk_json rules depth (JObject m) w = (let (m, w) = shed_keys m (spend w);
        (ys, w) = walk_all rules (depth + 1) (map snd m) w in (JObject (zip (map fst m) ys), w))"
    and "v \<in> {JNull, JBool b, JNumber n} \<Longrightarrow> walk_json rules depth v w = (v, spend w)"
  using assms by (auto simp: walk_json.simps [of rules depth _ w] Let_def)

lemma walk_json_closed:
  "MAX_DEPTH \<le> depth \<Longrightarrow> walk_json rules depth v w = (unscanned ''depth'', w\<lparr>wk_capped := wk_capped w + 1\<rparr>)"
  "depth < MAX_DEPTH \<Longrightarrow> nodes_left w = 0
    \<Longrightarrow> walk_json rules depth v w = (unscanned ''node-budget'', w\<lparr>wk_capped := wk_capped w + 1\<rparr>)"
  by (simp_all add: walk_json.simps [of rules depth v w])

definition scrub_value_capped :: "rule list \<Rightarrow> json \<Rightarrow> json \<times> nat \<times> nat" where
  "scrub_value_capped rules v =
     (let (v', w) = walk_json rules 0 v \<lparr>nodes_left = MAX_NODES, wk_redactions = 0, wk_capped = 0\<rparr>
      in (v', wk_redactions w, wk_capped w))"

section \<open>The two scrubs agree\<close>

lemma sum_list_update:
  "sum_list (map snd (AList.update k ((case map_of m k of Some x \<Rightarrow> x | None \<Rightarrow> 0) + n) m)) = sum_list (map snd m) + (n :: nat)"
  by (induction m) auto

lemma detailed_loop_agrees:
  "detailed_loop rs (out, rep) = (text, rep') \<Longrightarrow> scrub_loop rs (out, sr_redactions rep) = (text, sr_redactions rep')
    \<and> sr_redactions rep' + sum_list (map snd (sr_by_placeholder rep))
        = sr_redactions rep + sum_list (map snd (sr_by_placeholder rep'))"
proof (induction rs arbitrary: out rep)
  case (Cons r rs)
  show ?case
  proof (cases "0 < ru_count r out")
    case True
    then show ?thesis using Cons by (fastforce simp: Let_def sum_list_update)
  next
    case False
    then show ?thesis using Cons by simp
  qed
qed simp

text \<open>
  The receipt counts what was done. The detailed scrub returns the text of the plain one and its
  count, and that count is the sum over the placeholders of its breakdown.
\<close>

theorem detailed_scrub_agrees:
  "scrub rules text = (fst (scrub_detailed rules text), sr_redactions (snd (scrub_detailed rules text)))
   \<and> sr_redactions (snd (scrub_detailed rules text))
       = sum_list (map snd (sr_by_placeholder (snd (scrub_detailed rules text))))"
proof -
  obtain out rep where d: "scrub_detailed rules text = (out, rep)" by fastforce
  with detailed_loop_agrees [of rules "text" "\<lparr>sr_redactions = 0, sr_by_placeholder = []\<rparr>" out rep]
  show ?thesis by (simp add: scrub_detailed_def scrub_def)
qed

section \<open>Nothing passes uninspected\<close>

fun leaves :: "json \<Rightarrow> string list" where
  "leaves (JString s) = [s]"
| "leaves (JArray xs) = concat (map leaves xs)"
| "leaves (JObject m) = concat (map (\<lambda>kv. leaves (snd kv)) m)"
| "leaves _ = []"

lemma leaves_object: "leaves (JObject m) = concat (map leaves (map snd m))"
  by (simp add: comp_def)

definition marker :: "string \<Rightarrow> string" where
  "marker which = ''<UNSCANNED: '' @ which @ ''>''"

text \<open>A text of the payload, or the note left where entries were shed, which the walk scrubs as well.\<close>

definition given :: "string set \<Rightarrow> string \<Rightarrow> bool" where
  "given texts t \<longleftrightarrow> t \<in> texts \<or> (\<exists>n. t = marker (''breadth, '' @ show_nat n @ '' entries dropped'')
     \<or> t = marker (''breadth, '' @ show_nat n @ '' keys dropped''))"

definition inspected :: "rule list \<Rightarrow> string set \<Rightarrow> string \<Rightarrow> bool" where
  "inspected rules texts s \<longleftrightarrow> s = marker ''depth'' \<or> s = marker ''node-budget''
     \<or> (\<exists>t. given texts t \<and> length t \<le> MAX_STRING_BYTES \<and> s = fst (scrub_string rules t))
     \<or> (\<exists>t c. given texts t \<and> c \<le> MAX_STRING_BYTES \<and> c < length t
          \<and> s = fst (scrub_string rules (take c t)) @ ''<UNSCANNED: string, '' @ show_nat (length t - c) @ '' bytes dropped>'')"

lemma inspected_mono: "inspected rules A s \<Longrightarrow> (\<And>t. given A t \<Longrightarrow> given B t) \<Longrightarrow> inspected rules B s"
  unfolding inspected_def by blast

lemma given_mono: "given A t \<Longrightarrow> A \<subseteq> B \<Longrightarrow> given B t"
  by (auto simp: given_def)

lemma char_cut_le: "char_cut s n \<le> n"
  by (induction s n rule: char_cut.induct) auto

lemma scrub_leaf_inspected:
  assumes "scrub_leaf rules s w = (v', w')" and "given texts s"
  shows "\<forall>x \<in> set (leaves v'). inspected rules texts x"
proof (cases "MAX_STRING_BYTES < length s")
  case True
  have c: "char_cut s MAX_STRING_BYTES \<le> MAX_STRING_BYTES" by (rule char_cut_le)
  with True have "char_cut s MAX_STRING_BYTES < length s" by simp
  moreover have "leaves v' = [fst (scrub_string rules (take (char_cut s MAX_STRING_BYTES) s)) @ ''<UNSCANNED: string, ''
      @ show_nat (length s - char_cut s MAX_STRING_BYTES) @ '' bytes dropped>'']"
    using assms(1) True by (auto simp: scrub_leaf_def Let_def split: prod.splits)
  ultimately show ?thesis using assms(2) c unfolding inspected_def by auto
next
  case False
  then have "leaves v' = [fst (scrub_string rules s)]" "length s \<le> MAX_STRING_BYTES"
    using assms(1) by (auto simp: scrub_leaf_def split: prod.splits)
  then show ?thesis using assms(2) unfolding inspected_def by auto
qed

lemma shed_items_given:
  assumes "shed_items xs w = (ys, w')" and "given (set (concat (map leaves ys))) t"
  shows "given (set (concat (map leaves xs))) t"
  using assms
  by (fastforce simp: shed_items_def given_def unscanned_def marker_def dest: in_set_takeD split: if_splits)

lemma object_insert_values: "set (object_insert k v m) \<subseteq> insert (k, v) (set m)"
  by (induction k v m rule: object_insert.induct) auto

lemma shed_keys_given:
  assumes "shed_keys m w = (m', w')" and "given (set (concat (map leaves (map snd m')))) t"
  shows "given (set (concat (map leaves (map snd m)))) t"
proof (cases "MAX_BREADTH < length m")
  case True
  let ?mark = "unscanned (''breadth, '' @ show_nat (length m - MAX_BREADTH) @ '' keys dropped'')"
  have "set m' \<subseteq> insert (''<UNSCANNED>'', ?mark) (set (take MAX_BREADTH m))"
    using assms(1) True object_insert_values by (auto simp: shed_keys_def)
  then have "set (concat (map leaves (map snd m'))) \<subseteq> set (leaves ?mark) \<union> set (concat (map leaves (map snd m)))"
    by (fastforce dest: in_set_takeD)
  moreover have "leaves ?mark = [marker (''breadth, '' @ show_nat (length m - MAX_BREADTH) @ '' keys dropped'')]"
    by (simp add: unscanned_def marker_def)
  ultimately show ?thesis using assms(2) unfolding given_def by auto
next
  case False
  then show ?thesis using assms by (simp add: shed_keys_def)
qed

lemma walk_inspects:
  "walk_json rules depth v w = (v', w') \<Longrightarrow> \<forall>s \<in> set (leaves v'). inspected rules (set (leaves v)) s"
  "walk_all rules depth vs w = (vs', w') \<Longrightarrow>
     length vs' = length vs \<and> (\<forall>s \<in> set (concat (map leaves vs')). inspected rules (set (concat (map leaves vs))) s)"
proof (induction rules depth v w and rules depth vs w arbitrary: v' w' and vs' w' rule: walk_json_walk_all.induct)
  case (1 rules depth v w)
  show ?case
  proof (cases "depth < MAX_DEPTH \<and> nodes_left w \<noteq> 0")
    case False
    then have "v' = unscanned ''depth'' \<or> v' = unscanned ''node-budget''"
      using 1(3) walk_json_closed(1) [of depth rules v w] walk_json_closed(2) [of depth w rules v] by (cases "depth < MAX_DEPTH") auto
    then show ?thesis by (auto simp: unscanned_def inspected_def marker_def)
  next
    case True
    then have opn: "depth < MAX_DEPTH" "nodes_left w \<noteq> 0" "\<not> MAX_DEPTH \<le> depth" by auto
    note walk = walk_json_open [OF opn(1,2)]
    show ?thesis
    proof (cases v)
      case (JString s)
      then have "scrub_leaf rules s (spend w) = (v', w')" using 1(3) walk(1) by simp
      then show ?thesis using scrub_leaf_inspected [of rules s "spend w" v' w' "{s}"] JString by (simp add: given_def)
    next
      case (JArray xs)
      obtain ys w1 where sh: "shed_items xs (spend w) = (ys, w1)" by fastforce
      obtain zs w2 where wa: "walk_all rules (depth + 1) ys w1 = (zs, w2)" by fastforce
      have v': "v' = JArray zs" using 1(3) JArray sh wa walk(2) by simp
      have "\<forall>s \<in> set (concat (map leaves zs)). inspected rules (set (concat (map leaves ys))) s"
        using 1(1) [OF opn(3,2) refl JArray sh [symmetric] refl wa] by auto
      then show ?thesis using v' JArray shed_items_given [OF sh] by (auto intro: inspected_mono)
    next
      case (JObject m)
      obtain m1 w1 where sh: "shed_keys m (spend w) = (m1, w1)" by fastforce
      obtain zs w2 where wa: "walk_all rules (depth + 1) (map snd m1) w1 = (zs, w2)" by fastforce
      have v': "v' = JObject (zip (map fst m1) zs)" using 1(3) JObject sh wa walk(3) by simp
      have z: "length zs = length m1" "\<forall>s \<in> set (concat (map leaves zs)). inspected rules (set (concat (map leaves (map snd m1)))) s"
        using 1(2) [OF opn(3,2) refl JObject sh [symmetric] refl wa] by auto
      then have "map snd (zip (map fst m1) zs) = zs" by simp
      then have "leaves v' = concat (map leaves zs)"
        using v' by (simp only: leaves_object)
      moreover have "leaves v = concat (map leaves (map snd m))" using JObject by (simp only: leaves_object)
      moreover have "inspected rules (set (concat (map leaves (map snd m)))) s" if "s \<in> set (concat (map leaves zs))" for s
        by (rule inspected_mono [OF _ shed_keys_given [OF sh]]) (use z(2) that in auto)
      ultimately show ?thesis by simp
    qed (use 1(3) walk(4) in auto)
  qed
next
  case (2 rules depth w)
  then show ?case by simp
next
  case (3 rules depth v vs w)
  obtain v1 w1 where a: "walk_json rules depth v w = (v1, w1)" by fastforce
  obtain vs2 w2 where b: "walk_all rules depth vs w1 = (vs2, w2)" by fastforce
  have "vs' = v1 # vs2" using 3(3) a b by simp
  moreover have "inspected rules A s \<Longrightarrow> A \<subseteq> B \<Longrightarrow> inspected rules B s" for A B s
    using inspected_mono given_mono by metis
  ultimately show ?case using 3(1) [OF a] 3(2) [OF a [symmetric] refl b] by fastforce
qed


section \<open>Within the caps the walk is the plain scrub\<close>

fun scrub_leaves :: "rule list \<Rightarrow> json \<Rightarrow> json" where
  "scrub_leaves rules (JString s) = JString (fst (scrub_string rules s))"
| "scrub_leaves rules (JArray xs) = JArray (map (scrub_leaves rules) xs)"
| "scrub_leaves rules (JObject m) = JObject (map (\<lambda>kv. (fst kv, scrub_leaves rules (snd kv))) m)"
| "scrub_leaves rules v = v"

definition hits :: "rule list \<Rightarrow> json \<Rightarrow> nat" where
  "hits rules v = sum_list (map (\<lambda>s. snd (scrub_string rules s)) (leaves v))"

fun json_nodes :: "json \<Rightarrow> nat" where
  "json_nodes (JArray xs) = Suc (sum_list (map json_nodes xs))"
| "json_nodes (JObject m) = Suc (sum_list (map (\<lambda>kv. json_nodes (snd kv)) m))"
| "json_nodes _ = 1"

fun within_caps :: "nat \<Rightarrow> json \<Rightarrow> bool" where
  "within_caps d (JString s) \<longleftrightarrow> 0 < d \<and> length s \<le> MAX_STRING_BYTES"
| "within_caps d (JArray xs) \<longleftrightarrow> 0 < d \<and> length xs \<le> MAX_BREADTH \<and> (\<forall>x \<in> set xs. within_caps (d - 1) x)"
| "within_caps d (JObject m) \<longleftrightarrow> 0 < d \<and> length m \<le> MAX_BREADTH \<and> (\<forall>kv \<in> set m. within_caps (d - 1) (snd kv))"
| "within_caps d _ \<longleftrightarrow> 0 < d"

lemma within_caps_open: "within_caps (MAX_DEPTH - depth) v \<Longrightarrow> depth < MAX_DEPTH"
  by (cases v) auto

lemma json_nodes_pos: "0 < json_nodes v"
  by (cases v) auto

lemma hits_containers:
  "hits rules (JArray xs) = sum_list (map (hits rules) xs)"
  "hits rules (JObject m) = sum_list (map (hits rules) (map snd m))"
  by (induction xs, simp_all add: hits_def) (induction m, simp_all add: hits_def)

lemma walk_exact:
  "within_caps (MAX_DEPTH - depth) v \<Longrightarrow> json_nodes v \<le> nodes_left w \<Longrightarrow> walk_json rules depth v w
    = (scrub_leaves rules v, w\<lparr>nodes_left := nodes_left w - json_nodes v, wk_redactions := wk_redactions w + hits rules v\<rparr>)"
  "\<forall>v \<in> set vs. within_caps (MAX_DEPTH - depth) v \<Longrightarrow> sum_list (map json_nodes vs) \<le> nodes_left w \<Longrightarrow>
    walk_all rules depth vs w = (map (scrub_leaves rules) vs, w\<lparr>nodes_left := nodes_left w - sum_list (map json_nodes vs),
      wk_redactions := wk_redactions w + sum_list (map (hits rules) vs)\<rparr>)"
proof (induction rules depth v w and rules depth vs w rule: walk_json_walk_all.induct)
  case (1 rules depth v w)
  have opn: "depth < MAX_DEPTH" "nodes_left w \<noteq> 0" "\<not> MAX_DEPTH \<le> depth"
    using within_caps_open [OF 1(3)] 1(4) json_nodes_pos [of v] by auto
  have d: "MAX_DEPTH - depth - 1 = MAX_DEPTH - (depth + 1)" by simp
  note walk = walk_json_open [OF opn(1,2)]
  show ?case
  proof (cases v)
    case (JString s)
    then show ?thesis using walk(1) 1(3) by (simp add: scrub_leaf_def hits_def split: prod.splits)
  next
    case (JArray xs)
    have sh: "shed_items xs (spend w) = (xs, spend w)" using 1(3) JArray by (simp add: shed_items_def)
    have "walk_all rules (depth + 1) xs (spend w) = (map (scrub_leaves rules) xs, (spend w)\<lparr>
        nodes_left := nodes_left (spend w) - sum_list (map json_nodes xs),
        wk_redactions := wk_redactions (spend w) + sum_list (map (hits rules) xs)\<rparr>)"
      by (rule 1(1) [OF opn(3,2) refl JArray sh [symmetric] refl]) (use 1(3,4) JArray d in auto)
    then show ?thesis using walk(2) sh JArray by (simp add: hits_containers)
  next
    case (JObject m)
    have sh: "shed_keys m (spend w) = (m, spend w)" using 1(3) JObject by (simp add: shed_keys_def)
    have nodes: "map json_nodes (map snd m) = map (\<lambda>kv. json_nodes (snd kv)) m" by simp
    have "walk_all rules (depth + 1) (map snd m) (spend w) = (map (scrub_leaves rules) (map snd m), (spend w)\<lparr>
        nodes_left := nodes_left (spend w) - sum_list (map json_nodes (map snd m)),
        wk_redactions := wk_redactions (spend w) + sum_list (map (hits rules) (map snd m))\<rparr>)"
      by (rule 1(2) [OF opn(3,2) refl JObject sh [symmetric] refl]) (use 1(3,4) JObject d in \<open>auto simp: comp_def\<close>)
    moreover have "zip (map fst m) (map (scrub_leaves rules) (map snd m)) = map (\<lambda>kv. (fst kv, scrub_leaves rules (snd kv))) m"
      by (induction m) auto
    ultimately show ?thesis using walk(3) sh JObject nodes by (simp add: hits_containers del: map_map)
  qed (use walk(4) in \<open>auto simp: hits_def\<close>)
next
  case (2 rules depth w)
  then show ?case by simp
next
  case (3 rules depth v vs w)
  then show ?case by (simp add: algebra_simps)
qed

text \<open>
  Within the caps the walk is the plain scrub. A payload no cap fires on keeps its structure: every
  text is replaced by its scrub, the redactions are those of its texts, and nothing is dropped.
\<close>

theorem walk_is_scrub_within_caps:
  assumes "within_caps MAX_DEPTH v" and "json_nodes v \<le> MAX_NODES"
  shows "scrub_value_capped rules v = (scrub_leaves rules v, hits rules v, 0)"
  using walk_exact(1) [of 0 v "\<lparr>nodes_left = MAX_NODES, wk_redactions = 0, wk_capped = 0\<rparr>" rules] assms
  by (simp add: scrub_value_capped_def)

section \<open>What a walk may leave behind\<close>

text \<open>The entries a container may keep, with the note of what was shed.\<close>

definition MAX_CHILDREN :: nat where
  "MAX_CHILDREN = MAX_BREADTH + 1"

fun capped_shape :: "nat \<Rightarrow> json \<Rightarrow> bool" where
  "capped_shape d (JArray xs) \<longleftrightarrow> 0 < d \<and> length xs \<le> MAX_CHILDREN \<and> (\<forall>x \<in> set xs. capped_shape (d - 1) x)"
| "capped_shape d (JObject m) \<longleftrightarrow> 0 < d \<and> length m \<le> MAX_CHILDREN \<and> (\<forall>kv \<in> set m. capped_shape (d - 1) (snd kv))"
| "capped_shape d _ \<longleftrightarrow> True"

lemma length_object_insert: "length (object_insert k v m) \<le> Suc (length m)"
  by (induction k v m rule: object_insert.induct) auto

lemma shed_length:
  "shed_items xs w = (ys, w') \<Longrightarrow> length ys \<le> MAX_CHILDREN \<and> nodes_left w' = nodes_left w"
  "shed_keys m w = (m', w') \<Longrightarrow> length m' \<le> MAX_CHILDREN \<and> nodes_left w' = nodes_left w"
  using length_object_insert [of _ _ "take MAX_BREADTH m"]
  by (auto simp: shed_items_def shed_keys_def MAX_CHILDREN_def split: if_splits intro: le_trans)

lemma scrub_leaf_text: "scrub_leaf rules s w = (v', w') \<Longrightarrow> (\<exists>t. v' = JString t) \<and> nodes_left w' = nodes_left w"
  by (auto simp: scrub_leaf_def Let_def split: if_splits prod.splits)

lemma spend_one: "b \<le> a - 1 \<Longrightarrow> a \<noteq> 0 \<Longrightarrow> k + k * (a - 1 - b) = k * (a - b)" for a b k :: nat
  by (cases a) (simp_all add: Suc_diff_le)

text \<open>Each inspected value leaves at most 513 others behind it.\<close>

lemma walk_size:
  "walk_json rules depth v w = (v', w') \<Longrightarrow> capped_shape (MAX_DEPTH - depth) v' \<and> nodes_left w' \<le> nodes_left w
     \<and> json_nodes v' \<le> 1 + MAX_CHILDREN * (nodes_left w - nodes_left w')"
  "walk_all rules depth vs w = (vs', w') \<Longrightarrow> length vs' = length vs \<and> nodes_left w' \<le> nodes_left w
     \<and> (\<forall>x \<in> set vs'. capped_shape (MAX_DEPTH - depth) x)
     \<and> sum_list (map json_nodes vs') \<le> length vs + MAX_CHILDREN * (nodes_left w - nodes_left w')"
proof (induction rules depth v w and rules depth vs w arbitrary: v' w' and vs' w' rule: walk_json_walk_all.induct)
  case (1 rules depth v w)
  show ?case
  proof (cases "depth < MAX_DEPTH \<and> nodes_left w \<noteq> 0")
    case False
    then show ?thesis
      using 1(3) walk_json_closed(1) [of depth rules v w] walk_json_closed(2) [of depth w rules v]
      by (cases "depth < MAX_DEPTH") (auto simp: unscanned_def)
  next
    case True
    then have opn: "depth < MAX_DEPTH" "nodes_left w \<noteq> 0" "\<not> MAX_DEPTH \<le> depth" by auto
    then have d: "MAX_DEPTH - depth - 1 = MAX_DEPTH - (depth + 1)" "0 < MAX_DEPTH - depth" by auto
    note walk = walk_json_open [OF opn(1,2)]
    show ?thesis
    proof (cases v)
      case (JString s)
      then show ?thesis using 1(3) walk(1) scrub_leaf_text [of rules s "spend w" v' w'] by auto
    next
      case (JArray xs)
      obtain ys w1 where sh: "shed_items xs (spend w) = (ys, w1)" by fastforce
      obtain zs w2 where wa: "walk_all rules (depth + 1) ys w1 = (zs, w2)" by fastforce
      have v': "v' = JArray zs" "w' = w2" using 1(3) JArray sh wa walk(2) by simp_all
      note inner = 1(1) [OF opn(3,2) refl JArray sh [symmetric] refl wa] and len = shed_length(1) [OF sh]
      have "sum_list (map json_nodes zs) \<le> MAX_CHILDREN + MAX_CHILDREN * (nodes_left w - 1 - nodes_left w2)"
        using inner len by auto
      also have "\<dots> = MAX_CHILDREN * (nodes_left w - nodes_left w2)"
        by (rule spend_one) (use inner len opn(2) in auto)
      finally show ?thesis using inner len d v' by auto
    next
      case (JObject m)
      obtain m1 w1 where sh: "shed_keys m (spend w) = (m1, w1)" by fastforce
      obtain zs w2 where wa: "walk_all rules (depth + 1) (map snd m1) w1 = (zs, w2)" by fastforce
      have v': "v' = JObject (zip (map fst m1) zs)" "w' = w2" using 1(3) JObject sh wa walk(3) by simp_all
      note inner = 1(2) [OF opn(3,2) refl JObject sh [symmetric] refl wa] and len = shed_length(2) [OF sh]
      have z: "length zs = length m1" using inner by simp
      then have snds: "map snd (zip (map fst m1) zs) = zs" by simp
      then have "map (\<lambda>kv. json_nodes (snd kv)) (zip (map fst m1) zs) = map json_nodes zs"
        using map_map [of json_nodes snd "zip (map fst m1) zs"] by (simp add: comp_def)
      then have nodes: "json_nodes v' = Suc (sum_list (map json_nodes zs))" using v' by simp
      have "sum_list (map json_nodes zs) \<le> MAX_CHILDREN + MAX_CHILDREN * (nodes_left w - 1 - nodes_left w2)"
        using inner len by auto
      also have "\<dots> = MAX_CHILDREN * (nodes_left w - nodes_left w2)"
        by (rule spend_one) (use inner len opn(2) in auto)
      finally show ?thesis using inner len d v' nodes z by (auto dest: set_zip_rightD)
    qed (use 1(3) walk(4) in auto)
  qed
next
  case (2 rules depth w)
  then show ?case by simp
next
  case (3 rules depth v vs w)
  obtain v1 w1 where a: "walk_json rules depth v w = (v1, w1)" by fastforce
  obtain vs2 w2 where b: "walk_all rules depth vs w1 = (vs2, w2)" by fastforce
  have out: "vs' = v1 # vs2" "w' = w2" using 3(3) a b by simp_all
  note one = 3(1) [OF a] and rest = 3(2) [OF a [symmetric] refl b]
  have "MAX_CHILDREN * (nodes_left w - nodes_left w1) + MAX_CHILDREN * (nodes_left w1 - nodes_left w2)
      = MAX_CHILDREN * (nodes_left w - nodes_left w2)"
    using one rest by (simp flip: add_mult_distrib2)
  then show ?case using one rest out by auto
qed

text \<open>
  The walk is bounded. Whatever the payload, its result nests at most twelve containers, none with
  more than 513 entries, and has at most 513 values for each of the twenty thousand inspected, and one.
\<close>

theorem walk_bounded:
  "capped_shape MAX_DEPTH (fst (scrub_value_capped rules v))
   \<and> json_nodes (fst (scrub_value_capped rules v)) \<le> 1 + MAX_CHILDREN * MAX_NODES"
proof -
  let ?w = "\<lparr>nodes_left = MAX_NODES, wk_redactions = 0, wk_capped = 0\<rparr>"
  obtain v' w' where w: "walk_json rules 0 v ?w = (v', w')" by fastforce
  have "MAX_CHILDREN * (MAX_NODES - nodes_left w') \<le> MAX_CHILDREN * MAX_NODES"
    by (rule mult_le_mono2) simp
  moreover have "json_nodes v' \<le> 1 + MAX_CHILDREN * (MAX_NODES - nodes_left w')"
    using walk_size(1) [OF w] by simp
  ultimately have "json_nodes v' \<le> 1 + MAX_CHILDREN * MAX_NODES" by (meson add_left_mono le_trans)
  then show ?thesis using walk_size(1) [OF w] w by (simp add: scrub_value_capped_def)
qed

section \<open>Names of fields\<close>

text \<open>The walk rewrites values only: the keys of an object pass as they were sent.\<close>

definition at_sign :: rule where
  "at_sign = \<lparr>ru_kind = ''email'', ru_placeholder = ''<EMAIL>'',
     ru_count = (\<lambda>s. if CHR 0x40 \<in> set s then 1 else 0), ru_replace = (\<lambda>s. ''<EMAIL>'')\<rparr>"

definition mail :: string where
  "mail = ''a'' @ [CHR 0x40] @ ''b.io''"

lemma keys_pass_unscrubbed:
  "scrub_value_capped [at_sign] (JObject [(mail, JString mail)]) = (JObject [(mail, JString ''<EMAIL>'')], 1, 0)"
  by (simp add: scrub_value_capped_def walk_json.simps shed_keys_def scrub_leaf_def scrub_string_def scrub_def
      at_sign_def mail_def MAX_DEPTH_def MAX_NODES_def MAX_BREADTH_def MAX_STRING_BYTES_def Let_def)

section \<open>Witnesses\<close>


lemma walk_is_scrub_within_caps_witness:
  "scrub_value_capped [at_sign] (JArray [JString mail, JString ''ok'']) = (JArray [JString ''<EMAIL>'', JString ''ok''], 1, 0)"
proof -
  have "within_caps MAX_DEPTH (JArray [JString mail, JString ''ok''])" "json_nodes (JArray [JString mail, JString ''ok'']) \<le> MAX_NODES"
    by (simp_all add: mail_def MAX_DEPTH_def MAX_BREADTH_def MAX_STRING_BYTES_def MAX_NODES_def)
  from walk_is_scrub_within_caps [OF this] show ?thesis
    by (simp add: hits_def scrub_string_def scrub_def at_sign_def mail_def)
qed

end
