(* ===== verification/JudgeRubric.thy ===== *)
theory JudgeRubric
  imports LT_Prelude LT_F64
begin

text \<open>
  The rubric a judge scores against (\<^verbatim>\<open>crates/core/src/rubric.rs\<close>): its dimensions, their
  kinds and checks, the validation of a sandboxed check, and the next version of a rubric. A check's
  environment is its entries in key order; \<open>str::to_uppercase\<close> is an argument.
\<close>

datatype dimension_kind = DkLlm | DkExact | DkRegex | DkNumeric | DkJsonValid | DkContains | DkExec | DkGrounding

fun kind_as_str :: "dimension_kind \<Rightarrow> string" where
  "kind_as_str DkLlm = ''llm''"
| "kind_as_str DkExact = ''exact''"
| "kind_as_str DkRegex = ''regex''"
| "kind_as_str DkNumeric = ''numeric''"
| "kind_as_str DkJsonValid = ''json_valid''"
| "kind_as_str DkContains = ''contains''"
| "kind_as_str DkExec = ''exec''"
| "kind_as_str DkGrounding = ''grounding''"

definition is_llm :: "dimension_kind \<Rightarrow> bool" where
  "is_llm k \<longleftrightarrow> k = DkLlm"

definition is_exec :: "dimension_kind \<Rightarrow> bool" where
  "is_exec k \<longleftrightarrow> k = DkExec"

definition is_grounding :: "dimension_kind \<Rightarrow> bool" where
  "is_grounding k \<longleftrightarrow> k = DkGrounding"

definition is_mechanical :: "dimension_kind \<Rightarrow> bool" where
  "is_mechanical k \<longleftrightarrow> \<not> is_llm k \<and> \<not> is_grounding k"

record dimension_check =
  ck_expect :: "string option"
  ck_pattern :: "string option"
  ck_tolerance :: "f64 option"
  ck_path :: "string option"
  ck_case_sensitive :: bool
  ck_trim :: bool
  ck_image :: "string option"
  ck_cmd :: "string option"
  ck_write :: "string option"
  ck_timeout_secs :: "nat option"
  ck_env :: "(string \<times> string) list"

definition default_check :: dimension_check where
  "default_check = \<lparr>ck_expect = None, ck_pattern = None, ck_tolerance = None, ck_path = None,
     ck_case_sensitive = False, ck_trim = True, ck_image = None, ck_cmd = None, ck_write = None,
     ck_timeout_secs = None, ck_env = []\<rparr>"

definition FORBIDDEN_ENV_SUBSTRINGS :: "string list" where
  "FORBIDDEN_ENV_SUBSTRINGS = [''KEY'', ''TOKEN'', ''SECRET'', ''PASSWORD'', ''CREDENTIAL'', ''COOKIE'']"

text \<open>What is wrong with a sandboxed check; the code's message names it with the dimension's key.\<close>

datatype exec_error = NoField string | RelativeWrite string | ZeroTimeout | CredentialName string

definition need_field :: "string option \<Rightarrow> string \<Rightarrow> exec_error + string" where
  "need_field v field = (case map_option str_trim v of
     Some s \<Rightarrow> if s \<noteq> [] then Inr s else Inl (NoField field)
   | None \<Rightarrow> Inl (NoField field))"

definition validate_exec :: "(string \<Rightarrow> string) \<Rightarrow> dimension_check \<Rightarrow> exec_error + unit" where
  "validate_exec upper c =
     (case need_field (ck_image c) ''image'' of Inl e \<Rightarrow> Inl e | Inr _ \<Rightarrow>
      case need_field (ck_cmd c) ''cmd'' of Inl e \<Rightarrow> Inl e | Inr _ \<Rightarrow>
      case need_field (ck_write c) ''write'' of Inl e \<Rightarrow> Inl e | Inr w \<Rightarrow>
        if take 1 w \<noteq> ''/'' then Inl (RelativeWrite w)
        else if ck_timeout_secs c = Some 0 then Inl ZeroTimeout
        else (case find (\<lambda>name. \<exists>f \<in> set FORBIDDEN_ENV_SUBSTRINGS. str_contains (upper name) f) (map fst (ck_env c)) of
            Some name \<Rightarrow> Inl (CredentialName name)
          | None \<Rightarrow> Inr ()))"

record rubric_dimension =
  rd_key :: string
  rd_description :: string
  rd_weight :: f64
  rd_anchors :: "string list"
  rd_floor :: "f64 option"
  rd_kind :: dimension_kind
  rd_check :: dimension_check

record rubric =
  rb_id :: string
  rb_project_id :: string
  rb_name :: string
  rb_dimensions :: "rubric_dimension list"
  rb_threshold :: f64
  rb_version :: nat
  rb_supersedes :: "string option"
  rb_created_at :: instant

text \<open>The next version: a new row under a new id that names the one it replaces.\<close>

definition next_version :: "rubric \<Rightarrow> string \<Rightarrow> instant \<Rightarrow> rubric_dimension list \<Rightarrow> f64 \<Rightarrow> rubric" where
  "next_version r new_id now dims threshold =
     \<lparr>rb_id = new_id, rb_project_id = rb_project_id r, rb_name = rb_name r, rb_dimensions = dims,
      rb_threshold = threshold, rb_version = min (rb_version r + 1) (2 ^ 32 - 1),
      rb_supersedes = Some (rb_id r), rb_created_at = now\<rparr>"

definition has_llm_dims :: "rubric \<Rightarrow> bool" where
  "has_llm_dims r \<longleftrightarrow> (\<exists>d \<in> set (rb_dimensions r). is_llm (rd_kind d))"

definition needs_sandbox :: "rubric \<Rightarrow> bool" where
  "needs_sandbox r \<longleftrightarrow> (\<exists>d \<in> set (rb_dimensions r). is_exec (rd_kind d))"

text \<open>
  A check that passes validation names no credential in the environment it hands to code a model wrote.
\<close>

lemma validated_exec_is_safe:
  assumes "validate_exec upper c = Inr ()"
  shows "(\<exists>w. ck_write c = Some w \<and> take 1 (str_trim w) = ''/'')
    \<and> ck_timeout_secs c \<noteq> Some 0
    \<and> (\<forall>name \<in> fst ` set (ck_env c). \<forall>f \<in> set FORBIDDEN_ENV_SUBSTRINGS. \<not> str_contains (upper name) f)"
proof -
  let ?bad = "\<lambda>name. \<exists>f \<in> set FORBIDDEN_ENV_SUBSTRINGS. str_contains (upper name) f"
  have none: "find ?bad (map fst (ck_env c)) = None" and "ck_timeout_secs c \<noteq> Some 0"
    and "\<exists>w. ck_write c = Some w \<and> take 1 (str_trim w) = ''/''"
    using assms by (auto simp: validate_exec_def need_field_def split: sum.splits option.splits if_splits)
  moreover have "\<forall>name \<in> fst ` set (ck_env c). \<not> ?bad name"
    using none by (simp add: find_None_iff)
  ultimately show ?thesis by blast
qed

end
