(* ===== verification/JudgeSample.thy ===== *)
theory JudgeSample
  imports JudgeFence EngineRetry
begin

text \<open>
  One sample of a judge (\<^verbatim>\<open>crates/engine/src/parse.rs\<close>): the verdict found in the model's text,
  the one repair call, and the accounting of both; the reading of a verdict against a rubric
  (\<^verbatim>\<open>judge.rs\<close>), the split of a batched answer (\<^verbatim>\<open>judge/batch.rs\<close>) and the claim-by-claim
  score (\<^verbatim>\<open>judge/grounding.rs\<close>). Parsing of JSON text and of numbers, the provider call and the
  nonces are arguments. A reader of a response returns nothing where the code returns a parse error,
  whose text the callers here drop.
\<close>

section \<open>The verdict in the text\<close>

record json_env =
  je_from_str :: "string \<Rightarrow> json option"
  je_as_f64 :: "string \<Rightarrow> f64 option"
  je_as_u64 :: "string \<Rightarrow> nat option"

text \<open>
  The scan from an opening brace: its depth, and whether it stands in a string or behind a backslash.
  It is only called at a brace, so the depth is positive whenever a closing brace is met.
\<close>

fun balanced_end :: "nat \<Rightarrow> bool \<Rightarrow> bool \<Rightarrow> nat \<Rightarrow> string \<Rightarrow> nat option" where
  "balanced_end depth in_str escaped i [] = None"
| "balanced_end depth in_str escaped i (b # s) =
     (if in_str \<and> b = backslash \<and> \<not> escaped then balanced_end depth in_str True (i + 1) s
      else if in_str \<and> b = CHR 0x22 \<and> \<not> escaped then balanced_end depth False escaped (i + 1) s
      else if in_str then balanced_end depth in_str False (i + 1) s
      else if b = CHR 0x22 then balanced_end depth True escaped (i + 1) s
      else if b = CHR ''{'' then balanced_end (depth + 1) in_str escaped (i + 1) s
      else if b = CHR ''}'' then
        (if depth - 1 = 0 then Some (i + 1) else balanced_end (depth - 1) in_str escaped (i + 1) s)
      else balanced_end depth in_str escaped (i + 1) s)"

fun first_balanced :: "(string \<Rightarrow> json option) \<Rightarrow> string \<Rightarrow> string option" where
  "first_balanced from_str [] = None"
| "first_balanced from_str (c # s) =
     (case (if c = CHR ''{'' then balanced_end 0 False False 0 (c # s) else None) of
        Some end \<Rightarrow>
          (let candidate = take end (c # s) in
           if from_str candidate \<noteq> None then Some candidate else first_balanced from_str s)
      | None \<Rightarrow> first_balanced from_str s)"

definition outermost_slice :: "string \<Rightarrow> string option" where
  "outermost_slice s = (let t = dropWhile (\<lambda>c. c \<noteq> CHR ''{'') s;
       u = rev (dropWhile (\<lambda>c. c \<noteq> CHR ''}'') (rev t))
     in if u = [] then None else Some u)"

definition extract_json_object :: "(string \<Rightarrow> json option) \<Rightarrow> string \<Rightarrow> string option" where
  "extract_json_object from_str s = (case first_balanced from_str s of
     Some candidate \<Rightarrow> Some candidate | None \<Rightarrow> outermost_slice s)"

definition extract_json_value :: "(string \<Rightarrow> json option) \<Rightarrow> string \<Rightarrow> json" where
  "extract_json_value from_str s = (case extract_json_object from_str s of
     Some j \<Rightarrow> (case from_str j of Some v \<Rightarrow> v | None \<Rightarrow> JNull) | None \<Rightarrow> JNull)"

text \<open>\<open>Value::get\<close> and the readers of a value.\<close>

fun json_get :: "json \<Rightarrow> string \<Rightarrow> json option" where
  "json_get (JObject m) k = map_of m k"
| "json_get _ k = None"

fun json_str :: "json \<Rightarrow> string option" where
  "json_str (JString s) = Some s"
| "json_str _ = None"

fun json_arr :: "json \<Rightarrow> json list option" where
  "json_arr (JArray xs) = Some xs"
| "json_arr _ = None"

fun json_bool :: "json \<Rightarrow> bool option" where
  "json_bool (JBool b) = Some b"
| "json_bool _ = None"

fun json_num :: "(string \<Rightarrow> 'n option) \<Rightarrow> json \<Rightarrow> 'n option" where
  "json_num num (JNumber t) = num t"
| "json_num num _ = None"

section \<open>One sample and its repair\<close>

datatype determinism = Exact | BestEffort | Sampled

fun det_rank :: "determinism \<Rightarrow> nat" where
  "det_rank Exact = 2"
| "det_rank BestEffort = 1"
| "det_rank Sampled = 0"

definition weakest :: "determinism \<Rightarrow> determinism \<Rightarrow> determinism" where
  "weakest a b = (if det_rank a \<le> det_rank b then a else b)"

record gen_outcome =
  go_output :: string
  go_cost_usd :: "f64 option"
  go_model :: string
  go_latency_ms :: "nat option"
  go_input_tokens :: "nat option"
  go_output_tokens :: "nat option"
  go_determinism :: determinism

record 'v parsed =
  pd_value :: "'v option"
  pd_raw_failure :: "string option"
  pd_injection_suspected :: bool
  pd_determinism :: determinism
  pd_cost_usd :: "f64 option"
  pd_latency_ms :: nat
  pd_input_tokens :: nat
  pd_output_tokens :: nat
  pd_model :: string

definition parsed_empty :: "'v parsed" where
  "parsed_empty = \<lparr>pd_value = None, pd_raw_failure = None, pd_injection_suspected = False, pd_determinism = Exact,
     pd_cost_usd = None, pd_latency_ms = 0, pd_input_tokens = 0, pd_output_tokens = 0, pd_model = []\<rparr>"

definition unwrap_or :: "'a \<Rightarrow> 'a option \<Rightarrow> 'a" where
  "unwrap_or d x = (case x of Some v \<Rightarrow> v | None \<Rightarrow> d)"

definition parsed_record :: "'v parsed \<Rightarrow> gen_outcome \<Rightarrow> 'v parsed" where
  "parsed_record p g = p\<lparr>
     pd_cost_usd := (case go_cost_usd g of Some c \<Rightarrow> Some (unwrap_or 0 (pd_cost_usd p) + c) | None \<Rightarrow> pd_cost_usd p),
     pd_latency_ms := max (pd_latency_ms p) (unwrap_or 0 (go_latency_ms g)),
     pd_input_tokens := pd_input_tokens p + unwrap_or 0 (go_input_tokens g),
     pd_output_tokens := pd_output_tokens p + unwrap_or 0 (go_output_tokens g),
     pd_determinism := weakest (pd_determinism p) (go_determinism g),
     pd_model := go_model g\<rparr>"

type_synonym generator = "nat \<Rightarrow> string \<Rightarrow> engine_error + gen_outcome"

definition repair_call :: "generator \<Rightarrow> string \<Rightarrow> nat \<Rightarrow> string \<Rightarrow> (string \<Rightarrow> 'v option) \<Rightarrow> 'v parsed \<Rightarrow> string
    \<Rightarrow> engine_error + 'v parsed" where
  "repair_call gen nonce index prompt parse acc malformed =
     (let repair = build_repair_prompt nonce prompt malformed;
          acc = acc\<lparr>pd_injection_suspected := pd_injection_suspected acc \<or> pr_injection_suspected repair\<rparr>
      in case gen index (pr_text repair) of
        Inr g \<Rightarrow>
          (let acc = parsed_record acc g in case parse (go_output g) of
             Some v \<Rightarrow> Inr (acc\<lparr>pd_value := Some v\<rparr>)
           | None \<Rightarrow> Inr (acc\<lparr>pd_raw_failure := Some (go_output g)\<rparr>))
      | Inl e \<Rightarrow>
          if is_empty_completion e then Inr (acc\<lparr>pd_raw_failure := Some malformed\<rparr>) else Inl e)"

definition sample_parsed :: "generator \<Rightarrow> string \<Rightarrow> nat \<Rightarrow> string \<Rightarrow> (string \<Rightarrow> 'v option) \<Rightarrow> engine_error + 'v parsed" where
  "sample_parsed gen nonce index prompt parse =
     (case gen index prompt of
        Inr g \<Rightarrow>
          (let acc = parsed_record parsed_empty g in case parse (go_output g) of
             Some v \<Rightarrow> Inr (acc\<lparr>pd_value := Some v\<rparr>)
           | None \<Rightarrow> repair_call gen nonce index prompt parse acc (go_output g))
      | Inl e \<Rightarrow>
          if is_empty_completion e then repair_call gen nonce index prompt parse parsed_empty [] else Inl e)"

section \<open>A verdict against the rubric\<close>

type_synonym sample_dims = "(string \<times> f64 \<times> string) list"

fun parse_dims :: "json_env \<Rightarrow> json \<Rightarrow> rubric_dimension list \<Rightarrow> sample_dims option" where
  "parse_dims je out [] = Some []"
| "parse_dims je out (d # ds) =
     (let obj = json_get out (rd_key d) in
      case Option.bind (Option.bind obj (\<lambda>v. json_get v ''score'')) (json_num (je_as_f64 je)) of
        None \<Rightarrow> None
      | Some score \<Rightarrow>
          (let reasoning = unwrap_or [] (Option.bind (Option.bind obj (\<lambda>v. json_get v ''reasoning'')) json_str)
           in map_option (\<lambda>rest. (rd_key d, fclamp score 0 1, reasoning) # rest) (parse_dims je out ds)))"

definition parse_sample_value :: "json_env \<Rightarrow> rubric \<Rightarrow> json \<Rightarrow> sample_dims option" where
  "parse_sample_value je r out = parse_dims je out (filter (\<lambda>d. is_llm (rd_kind d)) (rb_dimensions r))"

definition parse_sample :: "json_env \<Rightarrow> rubric \<Rightarrow> string \<Rightarrow> sample_dims option" where
  "parse_sample je r raw =
     (let out = extract_json_value (je_from_str je) raw in if out = JNull then None else parse_sample_value je r out)"

section \<open>A batched answer\<close>

type_synonym batch_dims = "string \<rightharpoonup> sample_dims"

fun attribute :: "json_env \<Rightarrow> rubric \<Rightarrow> string list \<Rightarrow> json list \<Rightarrow> batch_dims \<Rightarrow> batch_dims" where
  "attribute je r want [] out = out"
| "attribute je r want (v # vs) out =
     (case Option.bind (json_get v CASE_ID) json_str of
        None \<Rightarrow> attribute je r want vs out
      | Some i \<Rightarrow>
          if i \<notin> set want \<or> out i \<noteq> None then attribute je r want vs out
          else (case parse_sample_value je r v of
              Some dims \<Rightarrow> attribute je r want vs (out(i \<mapsto> dims))
            | None \<Rightarrow> attribute je r want vs out))"

definition parse_batch :: "json_env \<Rightarrow> rubric \<Rightarrow> string list \<Rightarrow> string \<Rightarrow> batch_dims option" where
  "parse_batch je r want raw =
     (case Option.bind (json_get (extract_json_value (je_from_str je) raw) ''verdicts'') json_arr of
        None \<Rightarrow> None
      | Some arr \<Rightarrow> (let out = attribute je r want arr Map.empty in if out = Map.empty then None else Some out))"

definition rotated :: "nat \<Rightarrow> nat \<Rightarrow> nat list" where
  "rotated n s = map (\<lambda>i. (i + s) mod n) [0..<n]"

text \<open>\<open>f64::round\<close> of a non-negative value, and a case's share of the call.\<close>

fun f64_round :: "f64 \<Rightarrow> f64" where
  "f64_round (Fin a) = Fin (if 0 \<le> a then of_int \<lfloor>a + 1 / 2\<rfloor> else of_int \<lceil>a - 1 / 2\<rceil>)"
| "f64_round x = x"

definition split_for :: "batch_dims parsed \<Rightarrow> string \<Rightarrow> nat \<Rightarrow> sample_dims parsed" where
  "split_for b i n =
     (let share = f64_of_int (int (max n 1));
          value = Option.bind (pd_value b) (\<lambda>m. m i)
      in \<lparr>pd_value = value,
          pd_raw_failure = (if value \<noteq> None then None
            else Some (unwrap_or (''batched judge response carried no verdict for '' @ i) (pd_raw_failure b))),
          pd_injection_suspected = pd_injection_suspected b, pd_determinism = pd_determinism b,
          pd_cost_usd = map_option (\<lambda>c. c / share) (pd_cost_usd b), pd_latency_ms = pd_latency_ms b,
          pd_input_tokens = f64_to_u64 (f64_round (f64_of_int (int (pd_input_tokens b)) / share)),
          pd_output_tokens = f64_to_u64 (f64_round (f64_of_int (int (pd_output_tokens b)) / share)),
          pd_model = pd_model b\<rparr>)"

section \<open>Claims and their evidence\<close>

definition parse_claims :: "json_env \<Rightarrow> string \<Rightarrow> string list option" where
  "parse_claims je raw =
     (case Option.bind (json_get (extract_json_value (je_from_str je) raw) ''claims'') json_arr of
        None \<Rightarrow> None
      | Some arr \<Rightarrow> Some (filter (\<lambda>c. c \<noteq> []) (map str_trim (List.map_filter json_str arr))))"

type_synonym raw_verdict = "nat option \<times> bool option \<times> string"

definition parse_verdicts :: "json_env \<Rightarrow> string \<Rightarrow> raw_verdict list option" where
  "parse_verdicts je raw =
     (case Option.bind (json_get (extract_json_value (je_from_str je) raw) ''verdicts'') json_arr of
        None \<Rightarrow> None
      | Some arr \<Rightarrow> Some (map (\<lambda>e. (Option.bind (json_get e ''claim'') (json_num (je_as_u64 je)),
          Option.bind (json_get e ''supported'') json_bool,
          unwrap_or [] (Option.bind (json_get e ''reason'') json_str))) arr))"

fun match_verdicts :: "nat \<Rightarrow> raw_verdict list \<Rightarrow> (bool \<times> string) option list \<times> nat
    \<Rightarrow> (bool \<times> string) option list \<times> nat" where
  "match_verdicts n [] acc = acc"
| "match_verdicts n ((num, supported, reason) # vs) (got, stray) =
     (case (num, supported) of
        (Some k, Some s) \<Rightarrow>
          if 1 \<le> k \<and> k \<le> n \<and> got ! (k - 1) = None then match_verdicts n vs (got[k - 1 := Some (s, reason)], stray)
          else match_verdicts n vs (got, stray + 1)
      | _ \<Rightarrow> match_verdicts n vs (got, stray + 1))"

record claim_verdict =
  cv_sample :: nat
  cv_number :: nat
  cv_claim :: string
  cv_supported :: bool
  cv_reason :: string
  cv_missing :: bool

record ground_sample =
  gs_score :: "f64 option"
  gs_reasoning :: string
  gs_verdicts :: "claim_verdict list"
  gs_missing :: nat
  gs_stray :: nat

definition claim_verdict_of :: "nat \<Rightarrow> nat \<Rightarrow> string \<Rightarrow> (bool \<times> string) option \<Rightarrow> claim_verdict" where
  "claim_verdict_of s i claim v = \<lparr>cv_sample = s, cv_number = i + 1, cv_claim = claim,
     cv_supported = (case v of Some (b, _) \<Rightarrow> b | None \<Rightarrow> False),
     cv_reason = (case v of Some (_, why) \<Rightarrow> why | None \<Rightarrow> []), cv_missing = (v = None)\<rparr>"

definition score_claims :: "nat \<Rightarrow> string list \<Rightarrow> raw_verdict list \<Rightarrow> ground_sample" where
  "score_claims s claims raw =
     (let n = length claims;
          (got, stray) = match_verdicts n raw (replicate n None, 0);
          verdicts = map (\<lambda>(i, claim, v). claim_verdict_of s i claim v) (enumerate 0 (zip claims got));
          supported = length (filter cv_supported verdicts);
          missing = length (filter cv_missing verdicts);
          note = (if 0 < missing + stray then '' ('' @ show_nat missing @ '' without a verdict, counted unsupported; ''
              @ show_nat stray @ '' stray verdict(s) ignored)'' else [])
      in \<lparr>gs_score = Some (f64_of_int (int supported) / f64_of_int (int n)),
          gs_reasoning = ''grounding: '' @ show_nat supported @ ''/'' @ show_nat n @ '' claims supported by the evidence'' @ note,
          gs_verdicts = verdicts, gs_missing = missing, gs_stray = stray\<rparr>)"

definition absorb :: "'v parsed \<Rightarrow> 'w parsed \<Rightarrow> 'v parsed" where
  "absorb p q = p\<lparr>
     pd_cost_usd := (case pd_cost_usd q of Some c \<Rightarrow> Some (unwrap_or 0 (pd_cost_usd p) + c) | None \<Rightarrow> pd_cost_usd p),
     pd_latency_ms := pd_latency_ms p + pd_latency_ms q,
     pd_input_tokens := pd_input_tokens p + pd_input_tokens q,
     pd_output_tokens := pd_output_tokens p + pd_output_tokens q,
     pd_determinism := weakest (pd_determinism p) (pd_determinism q),
     pd_injection_suspected := pd_injection_suspected p \<or> pd_injection_suspected q,
     pd_model := (if pd_model q = [] then pd_model p else pd_model q),
     pd_raw_failure := (if pd_raw_failure p = None then pd_raw_failure q else pd_raw_failure p)\<rparr>"

section \<open>No verdict is made up\<close>

definition repair_text :: "generator \<Rightarrow> string \<Rightarrow> nat \<Rightarrow> string \<Rightarrow> string" where
  "repair_text gen nonce index prompt =
     pr_text (build_repair_prompt nonce prompt (case gen index prompt of Inr g \<Rightarrow> go_output g | Inl _ \<Rightarrow> []))"


section \<open>A batched verdict is matched by the id it echoes\<close>

definition names :: "string \<Rightarrow> json \<Rightarrow> bool" where
  "names i v \<longleftrightarrow> Option.bind (json_get v CASE_ID) json_str = Some i"

fun first_verdict :: "json_env \<Rightarrow> rubric \<Rightarrow> json list \<Rightarrow> sample_dims option" where
  "first_verdict je r [] = None"
| "first_verdict je r (v # vs) = (case parse_sample_value je r v of Some d \<Rightarrow> Some d | None \<Rightarrow> first_verdict je r vs)"

lemma attribute_lookup:
  "attribute je r want vs out i =
     (if out i \<noteq> None \<or> i \<notin> set want then out i else first_verdict je r (filter (names i) vs))"
proof (induction vs arbitrary: out)
  case (Cons v vs)
  show ?case
  proof (cases "Option.bind (json_get v CASE_ID) json_str")
    case None
    then have "\<not> names i v" by (simp add: names_def)
    then show ?thesis using None Cons.IH by simp
  next
    case (Some j)
    then have n: "names i v \<longleftrightarrow> j = i" by (simp add: names_def)
    show ?thesis
    proof (cases "j \<notin> set want \<or> out j \<noteq> None \<or> parse_sample_value je r v = None")
      case True
      then have "attribute je r want (v # vs) out = attribute je r want vs out"
        using Some by (auto split: option.splits)
      then have "attribute je r want (v # vs) out i =
          (if out i \<noteq> None \<or> i \<notin> set want then out i else first_verdict je r (filter (names i) vs))"
        by (simp only: Cons.IH)
      then show ?thesis using True n by (cases "j = i") auto
    next
      case False
      then obtain dims where d: "parse_sample_value je r v = Some dims" by auto
      then have "attribute je r want (v # vs) out = attribute je r want vs (out(j \<mapsto> dims))"
        using Some False by simp
      then have "attribute je r want (v # vs) out i = (if (out(j \<mapsto> dims)) i \<noteq> None \<or> i \<notin> set want
          then (out(j \<mapsto> dims)) i else first_verdict je r (filter (names i) vs))"
        by (simp only: Cons.IH)
      then show ?thesis using False n d by (cases "j = i") auto
    qed
  qed
qed simp

lemma parse_batch_lookup:
  assumes "parse_batch je r want raw = Some m"
  shows "\<exists>arr. Option.bind (json_get (extract_json_value (je_from_str je) raw) ''verdicts'') json_arr = Some arr
    \<and> (\<forall>i. m i = (if i \<in> set want then first_verdict je r (filter (names i) arr) else None))"
  using assms by (auto simp: parse_batch_def attribute_lookup Let_def split: option.splits if_splits)

text \<open>
  C8: Position is never trusted. A case's verdict is the first readable one among the entries that echo
  its id, so entries that are missing, repeated, reordered or made up for other ids do not change it;
  an id nobody asked about gets none.
\<close>

theorem batch_verdict_by_id:
  assumes "parse_batch je r want raw = Some m" and "parse_batch je r want raw' = Some m'"
    and "Option.bind (json_get (extract_json_value (je_from_str je) raw) ''verdicts'') json_arr = Some arr"
    and "Option.bind (json_get (extract_json_value (je_from_str je) raw') ''verdicts'') json_arr = Some arr'"
    and "filter (names i) arr = filter (names i) arr'"
  shows "m i = m' i \<and> dom m \<subseteq> set want
    \<and> pd_value (split_for (p\<lparr>pd_value := Some m\<rparr>) i n) = m i"
  using parse_batch_lookup [OF assms(1)] parse_batch_lookup [OF assms(2)] assms(3-5)
  by (auto simp: split_for_def Let_def dom_def split: if_splits)

text \<open>Every sample presents every case exactly once.\<close>

lemma rotated_is_rotate: "rotated n s = rotate s [0..<n]"
  by (rule nth_equalityI) (simp_all add: rotated_def nth_rotate add.commute)

lemma rotated_permutes: "set (rotated n s) = {..<n} \<and> distinct (rotated n s)"
  by (auto simp: rotated_is_rotate)

section \<open>Claims are scored by their number\<close>

definition verdict_for :: "nat \<Rightarrow> raw_verdict list \<Rightarrow> (bool \<times> string) option" where
  "verdict_for k raw = (case find (\<lambda>(num, supported, _). num = Some k \<and> supported \<noteq> None) raw of
     Some (_, Some b, why) \<Rightarrow> Some (b, why) | _ \<Rightarrow> None)"

lemma verdict_for_Cons:
  "verdict_for k ((num, supported, why) # raw) =
     (case supported of Some b \<Rightarrow> if num = Some k then Some (b, why) else verdict_for k raw | None \<Rightarrow> verdict_for k raw)"
  by (auto simp: verdict_for_def split: option.splits)

lemma match_verdicts_spec:
  "length got = n \<Longrightarrow> match_verdicts n raw (got, stray) = (got', stray')
   \<Longrightarrow> length got' = n \<and> (\<forall>j < n. got' ! j = (if got ! j = None then verdict_for (j + 1) raw else got ! j))"
proof (induction raw arbitrary: got stray)
  case Nil
  then show ?case by (auto simp: verdict_for_def)
next
  case (Cons v vs)
  obtain num supported why where v: "v = (num, supported, why)" by (cases v)
  show ?case
  proof (cases "\<exists>k b. num = Some k \<and> supported = Some b \<and> 1 \<le> k \<and> k \<le> n \<and> got ! (k - 1) = None")
    case True
    then obtain k b where k: "num = Some k" "supported = Some b" "1 \<le> k" "k \<le> n" "got ! (k - 1) = None" by blast
    let ?got = "got[k - 1 := Some (b, why)]"
    have "match_verdicts n vs (?got, stray) = (got', stray')" using Cons.prems(2) k v by simp
    from Cons.IH [OF _ this] Cons.prems(1)
    have ih: "length got' = n" "\<forall>j < n. got' ! j = (if ?got ! j = None then verdict_for (j + 1) vs else ?got ! j)" by auto
    have "got' ! j = (if got ! j = None then verdict_for (j + 1) (v # vs) else got ! j)" if "j < n" for j
      using ih(2) that k Cons.prems(1) by (cases "j = k - 1") (auto simp: v verdict_for_Cons nth_list_update)
    with ih(1) show ?thesis by blast
  next
    case False
    then have "match_verdicts n vs (got, stray + 1) = (got', stray')"
      using Cons.prems(2) v by (auto split: option.splits if_splits)
    from Cons.IH [OF Cons.prems(1) this]
    have ih: "length got' = n" "\<forall>j < n. got' ! j = (if got ! j = None then verdict_for (j + 1) vs else got ! j)" by auto
    have "got' ! j = (if got ! j = None then verdict_for (j + 1) (v # vs) else got ! j)" if "j < n" for j
      using ih(2) that False by (auto simp: v verdict_for_Cons split: option.splits)
    with ih(1) show ?thesis by blast
  qed
qed

lemma f64_share_bounds:
  assumes "0 < n" and "k \<le> n" and "n < 2 ^ 53"
  shows "Fin 0 \<le> f64_of_int (int k) / f64_of_int (int n) \<and> f64_of_int (int k) / f64_of_int (int n) \<le> Fin 1"
proof -
  have i: "f64_of_int (int k) = Fin (of_nat k)" "f64_of_int (int n) = Fin (of_nat n)"
    using assms f64_of_int_exact [of "int k"] f64_of_int_exact [of "int n"] by simp_all
  have "Fin 0 \<le> rnd (of_nat k / of_nat n)" by (intro rnd_nonneg) simp
  moreover have "rnd (of_nat k / of_nat n) \<le> Fin 1" using assms by (intro rnd_le_exact) (simp_all add: divide_le_eq)
  ultimately show ?thesis using assms by (simp add: i)
qed

text \<open>
  C33: The denominator is the claims that were cut. Every claim appears once, in order; it counts as
  supported exactly when the first verdict that names its number says so, a claim without one counts
  as unsupported, and verdicts for numbers nobody issued or for a number already judged change nothing.
\<close>

theorem claims_scored_by_number:
  assumes "claims \<noteq> []" and "length claims < 2 ^ 53"
  shows "let g = score_claims s claims raw; n = length claims;
      supported = (\<lambda>k. \<exists>why. verdict_for k raw = Some (True, why)) in
    map cv_claim (gs_verdicts g) = claims \<and> map cv_number (gs_verdicts g) = [1..<n + 1]
    \<and> (\<forall>j < n. cv_supported (gs_verdicts g ! j) = supported (j + 1)
        \<and> cv_missing (gs_verdicts g ! j) = (verdict_for (j + 1) raw = None))
    \<and> gs_score g = Some (f64_of_int (int (card {k \<in> {1..n}. supported k})) / f64_of_int (int n))
    \<and> (\<forall>x. gs_score g = Some x \<longrightarrow> Fin 0 \<le> x \<and> x \<le> Fin 1)"
proof -
  let ?n = "length claims" and ?supp = "\<lambda>k. \<exists>why. verdict_for k raw = Some (True, why)"
  obtain got stray where m: "match_verdicts ?n raw (replicate ?n None, 0) = (got, stray)" by fastforce
  from match_verdicts_spec [OF _ this]
  have got: "length got = ?n" "\<forall>j < ?n. got ! j = verdict_for (j + 1) raw" by auto
  let ?vs = "map (\<lambda>(i, claim, v). claim_verdict_of s i claim v) (enumerate 0 (zip claims got))"
  let ?g = "score_claims s claims raw"
  have g: "gs_verdicts ?g = ?vs" "gs_score ?g = Some (f64_of_int (int (length (filter cv_supported ?vs))) / f64_of_int (int ?n))"
    by (simp_all add: score_claims_def m Let_def)
  have nth: "?vs ! j = claim_verdict_of s j (claims ! j) (verdict_for (j + 1) raw)" if "j < ?n" for j
    using that got by (simp add: enumerate_eq_zip)
  have len: "length ?vs = ?n" using got by simp
  have claims: "map cv_claim ?vs = claims"
  proof (rule nth_equalityI)
    show "length (map cv_claim ?vs) = length claims" using len by (simp only: length_map)
    fix j assume "j < length (map cv_claim ?vs)"
    then have j: "j < ?n" using len by (simp only: length_map)
    then have "map cv_claim ?vs ! j = cv_claim (?vs ! j)" using len by (intro nth_map) (simp only:)
    then show "map cv_claim ?vs ! j = claims ! j" unfolding nth [OF j] by (simp add: claim_verdict_of_def)
  qed
  have numbers: "map cv_number ?vs = [1..<?n + 1]"
  proof (rule nth_equalityI)
    show "length (map cv_number ?vs) = length [1..<?n + 1]" using len by (simp only: length_map length_upt)
    fix j assume "j < length (map cv_number ?vs)"
    then have j: "j < ?n" using len by (simp only: length_map)
    then have "map cv_number ?vs ! j = cv_number (?vs ! j)" using len by (intro nth_map) (simp only:)
    then show "map cv_number ?vs ! j = [1..<?n + 1] ! j" using j unfolding nth [OF j] by (simp add: claim_verdict_of_def del: upt_Suc)
  qed
  have each: "\<forall>j < ?n. cv_supported (?vs ! j) = ?supp (j + 1) \<and> cv_missing (?vs ! j) = (verdict_for (j + 1) raw = None)"
  proof (intro allI impI)
    fix j assume j: "j < ?n"
    show "cv_supported (?vs ! j) = ?supp (j + 1) \<and> cv_missing (?vs ! j) = (verdict_for (j + 1) raw = None)"
      unfolding nth [OF j] by (auto simp: claim_verdict_of_def split: option.splits)
  qed
  have "length (filter cv_supported ?vs) = card {j. j < ?n \<and> ?supp (j + 1)}"
    unfolding length_filter_conv_card len using each by (intro arg_cong [of _ _ card]) auto
  also have "\<dots> = card (Suc ` {j. j < ?n \<and> ?supp (j + 1)})" by (simp add: card_image)
  also have "Suc ` {j. j < ?n \<and> ?supp (j + 1)} = {k \<in> {1..?n}. ?supp k}"
    by (auto simp: image_iff) (metis Suc_le_D Suc_le_eq One_nat_def)
  finally have count: "length (filter cv_supported ?vs) = card {k \<in> {1..?n}. ?supp k}" .
  have "card {k \<in> {1..?n}. ?supp k} \<le> card {1..?n}" by (intro card_mono) auto
  then have "card {k \<in> {1..?n}. ?supp k} \<le> ?n" by simp
  from f64_share_bounds [OF _ this assms(2)] assms(1)
  show ?thesis unfolding Let_def g count using claims numbers each by simp
qed

section \<open>Witnesses\<close>

definition demo_answer :: gen_outcome where
  "demo_answer = \<lparr>go_output = ''ok'', go_cost_usd = None, go_model = ''m'', go_latency_ms = None, go_input_tokens = None,
     go_output_tokens = None, go_determinism = Exact\<rparr>"


definition demo_dimension :: "string \<Rightarrow> dimension_kind \<Rightarrow> f64 \<Rightarrow> rubric_dimension" where
  "demo_dimension key kind w = \<lparr>rd_key = key, rd_description = ''d'', rd_weight = w, rd_anchors = [], rd_floor = None,
     rd_kind = kind, rd_check = default_check\<rparr>"

definition demo_rubric :: "rubric_dimension list \<Rightarrow> rubric" where
  "demo_rubric dims = \<lparr>rb_id = ''r'', rb_project_id = ''p'', rb_name = ''n'', rb_dimensions = dims, rb_threshold = Fin (1 / 2),
     rb_version = 1, rb_supersedes = None, rb_created_at = 0\<rparr>"

definition demo_entry :: "string \<Rightarrow> string \<Rightarrow> json" where
  "demo_entry i x = JObject [(''case_id'', JString i), (''q'', JObject [(''score'', JNumber x)])]"

definition demo_verdicts :: "string \<Rightarrow> json list" where
  "demo_verdicts s = (if s = ''{}'' then [demo_entry ''a'' ''1'', demo_entry ''b'' ''0'']
     else [demo_entry ''b'' ''1'', demo_entry ''a'' ''1''])"

definition demo_json :: json_env where
  "demo_json = \<lparr>je_from_str = (\<lambda>s. Some (JObject [(''verdicts'', JArray (demo_verdicts s))])),
     je_as_f64 = (\<lambda>t. if t = ''1'' then Some 1 else Some 0), je_as_u64 = (\<lambda>_. None)\<rparr>"

lemma demo_parse:
  assumes "s \<in> {''{}'', ''{ }''}"
  shows "Option.bind (json_get (extract_json_value (je_from_str demo_json) s) ''verdicts'') json_arr = Some (demo_verdicts s)"
    and "\<exists>m. parse_batch demo_json (demo_rubric [demo_dimension ''q'' DkLlm 1]) [''a'', ''b''] s = Some m"
proof -
  let ?r = "demo_rubric [demo_dimension ''q'' DkLlm 1]"
  show arr: "Option.bind (json_get (extract_json_value (je_from_str demo_json) s) ''verdicts'') json_arr = Some (demo_verdicts s)"
    using assms by (auto simp: extract_json_value_def extract_json_object_def demo_json_def backslash_def)
  have "parse_sample_value demo_json ?r (demo_entry ''a'' ''1'') \<noteq> None"
    by (simp add: parse_sample_value_def demo_rubric_def demo_dimension_def demo_entry_def demo_json_def is_llm_def)
  moreover have "filter (names ''a'') (demo_verdicts s) = [demo_entry ''a'' ''1'']"
    by (simp add: demo_verdicts_def demo_entry_def names_def CASE_ID_def)
  ultimately have "attribute demo_json ?r [''a'', ''b''] (demo_verdicts s) Map.empty ''a'' \<noteq> None"
    by (simp add: attribute_lookup split: option.splits)
  then have "attribute demo_json ?r [''a'', ''b''] (demo_verdicts s) Map.empty \<noteq> Map.empty" by (metis (no_types))
  then show "\<exists>m. parse_batch demo_json ?r [''a'', ''b''] s = Some m" unfolding parse_batch_def arr by (simp add: Let_def)
qed

lemma batch_verdict_by_id_witness:
  "\<exists>m m'. parse_batch demo_json (demo_rubric [demo_dimension ''q'' DkLlm 1]) [''a'', ''b''] ''{}'' = Some m
     \<and> parse_batch demo_json (demo_rubric [demo_dimension ''q'' DkLlm 1]) [''a'', ''b''] ''{ }'' = Some m'
     \<and> m ''a'' = m' ''a''"
proof -
  let ?r = "demo_rubric [demo_dimension ''q'' DkLlm 1]"
  obtain m m' where m: "parse_batch demo_json ?r [''a'', ''b''] ''{}'' = Some m"
      "parse_batch demo_json ?r [''a'', ''b''] ''{ }'' = Some m'"
    using demo_parse(2) [of "''{}''"] demo_parse(2) [of "''{ }''"] by auto
  have "filter (names ''a'') (demo_verdicts ''{}'') = filter (names ''a'') (demo_verdicts ''{ }'')"
    by (simp add: demo_verdicts_def demo_entry_def names_def CASE_ID_def)
  from batch_verdict_by_id [OF m demo_parse(1) demo_parse(1) this] m show ?thesis by simp
qed

lemma claims_scored_by_number_witness:
  "gs_score (score_claims 0 [''the sky is blue'', ''2 + 2 = 5''] [(Some 1, Some True, ''yes''), (Some 9, Some True, ''what'')])
     = Some (f64_of_int 1 / f64_of_int 2)"
proof -
  let ?raw = "[(Some 1, Some True, ''yes''), (Some 9, Some True, ''what'')] :: raw_verdict list"
  let ?claims = "[''the sky is blue'', ''2 + 2 = 5'']"
  have n: "length ?claims = 2" by simp
  have one: "{k \<in> {1..2::nat}. \<exists>why. verdict_for k ?raw = Some (True, why)} = {1}"
    by (auto simp: verdict_for_def)
  have "gs_score (score_claims 0 ?claims ?raw)
      = Some (f64_of_int (int (card {k \<in> {1..length ?claims}. \<exists>why. verdict_for k ?raw = Some (True, why)}))
          / f64_of_int (int (length ?claims)))"
    using claims_scored_by_number [of ?claims 0 ?raw] unfolding Let_def by simp
  then show ?thesis unfolding n one by simp
qed

end
