(* ===== verification/JudgeScore.thy ===== *)
theory JudgeScore
  imports JudgeSample
begin

text \<open>
  The score of a judged case: the door a rubric passes (\<^verbatim>\<open>crates/api/src/rubrics.rs\<close>), the fold
  of the samples and the mechanical checks into one outcome (\<open>aggregate\<close> of
  \<^verbatim>\<open>crates/engine/src/judge.rs\<close>), the runs that produce the samples (\<open>judge_grounded_with\<close>,
  \<^verbatim>\<open>judge/grounding.rs\<close>, \<^verbatim>\<open>judge/batch.rs\<close>). Scores and weights are binary64 numbers. The
  workers of \<open>pool::parallel_map\<close> are the subject of theory PoolMap; here it is \<open>map\<close>. Keys are
  trimmed and checked for ASCII white space.
\<close>

section \<open>The door of a rubric\<close>

datatype rubric_error = BlankName | NoDimensions | BadThreshold | BadKey string | KeyTwice string
  | BadWeight string | BadFloor string | NoPattern string | BadExec string exec_error | BadTolerance string

definition in_unit :: "f64 \<Rightarrow> bool" where
  "in_unit x \<longleftrightarrow> 0 \<le> x \<and> x \<le> 1"

fun validate_dimensions :: "(string \<Rightarrow> string) \<Rightarrow> string set \<Rightarrow> rubric_dimension list \<Rightarrow> rubric_error + unit" where
  "validate_dimensions upper seen [] = Inr ()"
| "validate_dimensions upper seen (d # ds) =
     (let key = str_trim (rd_key d) in
      if key = [] \<or> (\<exists>c \<in> set key. is_space c) then Inl (BadKey key)
      else if key \<in> seen then Inl (KeyTwice key)
      else if \<not> (is_finite (rd_weight d) \<and> 0 < rd_weight d) then Inl (BadWeight key)
      else if (case rd_floor d of Some f \<Rightarrow> \<not> in_unit f | None \<Rightarrow> False) then Inl (BadFloor key)
      else if rd_kind d = DkRegex \<and> unwrap_or [] (ck_pattern (rd_check d)) = [] then Inl (NoPattern key)
      else (case (if rd_kind d = DkExec then validate_exec upper (rd_check d) else Inr ()) of
          Inl e \<Rightarrow> Inl (BadExec key e)
        | Inr _ \<Rightarrow>
            if (case ck_tolerance (rd_check d) of Some t \<Rightarrow> \<not> (is_finite t \<and> 0 \<le> t) | None \<Rightarrow> False)
            then Inl (BadTolerance key)
            else validate_dimensions upper (insert key seen) ds))"

definition validate_rubric :: "(string \<Rightarrow> string) \<Rightarrow> string \<Rightarrow> rubric_dimension list \<Rightarrow> f64 \<Rightarrow> rubric_error + unit" where
  "validate_rubric upper name dims threshold =
     (if str_trim name = [] then Inl BlankName
      else if dims = [] then Inl NoDimensions
      else if \<not> in_unit threshold then Inl BadThreshold
      else validate_dimensions upper {} dims)"

section \<open>The fold of the samples\<close>

record det_score =
  ds_key :: string
  ds_score :: "f64 option"
  ds_reasoning :: string

record grounding_detail =
  gd_version :: string
  gd_claims :: "claim_verdict list"
  gd_claims_issued :: nat
  gd_missing_verdicts :: nat
  gd_stray_verdicts :: nat
  gd_unscored_samples :: nat

record dim_score =
  dm_key :: string
  dm_score :: f64
  dm_reasonings :: "string list"
  dm_weight :: f64
  dm_floor :: "f64 option"
  dm_floor_hit :: bool
  dm_voided :: bool
  dm_grounding :: "grounding_detail option"

record rubric_outcome =
  ro_dimensions :: "dim_score list"
  ro_overall :: f64
  ro_pass :: bool
  ro_cost_usd :: "f64 option"
  ro_latency_ms :: nat
  ro_tokens :: nat
  ro_input_tokens :: nat
  ro_output_tokens :: nat
  ro_model :: string
  ro_samples :: nat
  ro_samples_parsed :: nat
  ro_agreement :: f64
  ro_parse_failures :: nat
  ro_injection_suspected :: bool
  ro_determinism :: determinism
  ro_batch_size :: "nat option"

definition fsum :: "f64 list \<Rightarrow> f64" where
  "fsum xs = fold (\<lambda>x acc. acc + x) xs 0"

text \<open>The weighted mean over the keys of one sample.\<close>

definition weight_of :: "rubric \<Rightarrow> string \<Rightarrow> f64" where
  "weight_of r key = (case find (\<lambda>d. rd_key d = key) (rb_dimensions r) of Some d \<Rightarrow> rd_weight d | None \<Rightarrow> 1)"

definition weighted :: "rubric \<Rightarrow> (string \<times> f64) list \<Rightarrow> f64" where
  "weighted r dims =
     (let (num, den) = fold (\<lambda>(key, score) (num, den). (num + score * weight_of r key, den + weight_of r key)) dims (0, 0)
      in if 0 < den then num / den else 0)"

record tally =
  ty_per_dim :: "string \<Rightarrow> f64 list"
  ty_reasonings :: "string \<Rightarrow> string list"
  ty_overalls :: "f64 list"
  ty_total_cost :: f64
  ty_any_cost :: bool
  ty_max_latency :: nat
  ty_in_tok :: nat
  ty_out_tok :: nat
  ty_model_used :: string
  ty_parse_failures :: nat
  ty_parsed :: nat
  ty_first_raw_failure :: "string option"

definition tally_start :: "string \<Rightarrow> nat \<Rightarrow> tally" where
  "tally_start model k = \<lparr>ty_per_dim = (\<lambda>_. []), ty_reasonings = (\<lambda>_. []), ty_overalls = [], ty_total_cost = 0,
     ty_any_cost = False, ty_max_latency = 0, ty_in_tok = 0, ty_out_tok = 0,
     ty_model_used = (if k = 0 then ''deterministic'' else model), ty_parse_failures = 0, ty_parsed = 0,
     ty_first_raw_failure = None\<rparr>"

definition tally_dim :: "string \<times> f64 \<times> string \<Rightarrow> tally \<Rightarrow> tally" where
  "tally_dim d t = (case d of (key, score, reasoning) \<Rightarrow>
     t\<lparr>ty_per_dim := (ty_per_dim t)(key := ty_per_dim t key @ [score]),
       ty_reasonings := (if reasoning = [] then ty_reasonings t
         else (ty_reasonings t)(key := ty_reasonings t key @ [reasoning]))\<rparr>)"

definition tally_cost :: "sample_dims parsed \<Rightarrow> tally \<Rightarrow> tally" where
  "tally_cost p t = t\<lparr>
     ty_total_cost := (case pd_cost_usd p of Some c \<Rightarrow> ty_total_cost t + c | None \<Rightarrow> ty_total_cost t),
     ty_any_cost := ty_any_cost t \<or> pd_cost_usd p \<noteq> None,
     ty_max_latency := max (ty_max_latency t) (pd_latency_ms p),
     ty_in_tok := ty_in_tok t + pd_input_tokens p, ty_out_tok := ty_out_tok t + pd_output_tokens p,
     ty_model_used := (if pd_model p = [] then ty_model_used t else pd_model p)\<rparr>"

definition tally_sample :: "rubric \<Rightarrow> sample_dims parsed \<Rightarrow> tally \<Rightarrow> tally" where
  "tally_sample r p t =
     (let t = tally_cost p t in case pd_value p of
        Some dims \<Rightarrow>
          (let t = fold tally_dim dims (t\<lparr>ty_parsed := ty_parsed t + 1\<rparr>)
           in if dims = [] then t
              else t\<lparr>ty_overalls := ty_overalls t @ [weighted r (map (\<lambda>(key, score, _). (key, score)) dims)]\<rparr>)
      | None \<Rightarrow> t\<lparr>ty_parse_failures := ty_parse_failures t + 1,
          ty_first_raw_failure := (if ty_first_raw_failure t = None then pd_raw_failure p else ty_first_raw_failure t)\<rparr>)"

definition tally_all :: "rubric \<Rightarrow> string \<Rightarrow> nat \<Rightarrow> sample_dims parsed list \<Rightarrow> tally" where
  "tally_all r model k results = fold (tally_sample r) results (tally_start model k)"

section \<open>The dimensions and the verdict\<close>

definition dim_mean :: "det_score list \<Rightarrow> tally \<Rightarrow> rubric_dimension \<Rightarrow> f64 \<times> bool" where
  "dim_mean det t d = (let v = ty_per_dim t (rd_key d) in
     case find (\<lambda>s. ds_key s = rd_key d) det of
       Some s \<Rightarrow> (case ds_score s of Some x \<Rightarrow> (x, False) | None \<Rightarrow> (0, True))
     | None \<Rightarrow> if v = [] then (0, is_grounding (rd_kind d))
         else (fsum v / f64_of_int (int (length v)), False))"

definition dim_outcome :: "det_score list \<Rightarrow> tally \<Rightarrow> rubric_dimension \<Rightarrow> dim_score" where
  "dim_outcome det t d = (let (mean, voided) = dim_mean det t d in
     \<lparr>dm_key = rd_key d, dm_score = mean,
      dm_reasonings = (case find (\<lambda>s. ds_key s = rd_key d) det of
          Some s \<Rightarrow> [ds_reasoning s] | None \<Rightarrow> ty_reasonings t (rd_key d)),
      dm_weight = rd_weight d, dm_floor = rd_floor d,
      dm_floor_hit = (\<not> voided \<and> (case rd_floor d of Some f \<Rightarrow> mean < f | None \<Rightarrow> False)),
      dm_voided = voided, dm_grounding = None\<rparr>)"

definition overall_of :: "dim_score list \<Rightarrow> f64" where
  "overall_of dims =
     (let measured = filter (\<lambda>d. \<not> dm_voided d) dims; den = fsum (map dm_weight measured)
      in if 0 < den then fsum (map (\<lambda>d. dm_score d * dm_weight d) measured) / den else 0)"

definition F64_MAX :: f64 where
  "F64_MAX = Fin (2 powi 1024 - 2 powi 971)"

definition fmin :: "f64 \<Rightarrow> f64 \<Rightarrow> f64" where
  "fmin x y = (if x = NaN then y else if y = NaN then x else if x < y then x else y)"

definition agreement_of :: "f64 list \<Rightarrow> f64" where
  "agreement_of overalls =
     (if 1 < length overalls
      then (let hi = fold (\<lambda>x acc. fmax acc x) overalls (- F64_MAX); lo = fold (\<lambda>x acc. fmin acc x) overalls F64_MAX
        in fclamp (1 - (hi - lo)) 0 1)
      else 1)"

definition void_reason :: "rubric_dimension \<Rightarrow> string" where
  "void_reason d = [quote] @ rd_key d @ [quote] @ (if is_grounding (rd_kind d) then '': the output yielded zero claims''
     else '': the sandbox was unavailable'')"

definition aggregate :: "sample_dims parsed list \<Rightarrow> rubric \<Rightarrow> string \<Rightarrow> nat \<Rightarrow> det_score list \<Rightarrow> engine_error + rubric_outcome" where
  "aggregate results r model k det =
     (let t = tally_all r model k results in
      if 0 < k \<and> ty_parsed t = 0
      then Inl (Parse (case ty_first_raw_failure t of
          Some raw \<Rightarrow> ''no parseable rubric judge sample; last raw output: '' @ raw
        | None \<Rightarrow> ''rubric judge produced no parseable samples''))
      else (let dims = map (dim_outcome det t) (rb_dimensions r) in
        if dims \<noteq> [] \<and> (\<forall>d \<in> set dims. dm_voided d)
        then Inl (Other (''every rubric dimension was voided, so this case has no verdict ('' @
            join ''; '' (map void_reason (rb_dimensions r)) @ '')''))
        else (let overall = overall_of dims in
          Inr \<lparr>ro_dimensions = dims, ro_overall = overall,
            ro_pass = (rb_threshold r \<le> overall \<and> (\<forall>d \<in> set dims. \<not> dm_floor_hit d)),
            ro_cost_usd = (if ty_any_cost t then Some (ty_total_cost t) else None),
            ro_latency_ms = ty_max_latency t, ro_tokens = ty_in_tok t + ty_out_tok t,
            ro_input_tokens = ty_in_tok t, ro_output_tokens = ty_out_tok t, ro_model = ty_model_used t,
            ro_samples = k, ro_samples_parsed = ty_parsed t, ro_agreement = agreement_of (ty_overalls t),
            ro_parse_failures = ty_parse_failures t, ro_injection_suspected = False,
            ro_determinism = BestEffort, ro_batch_size = None\<rparr>)))"

section \<open>Sums of scores\<close>

lemma in_unit_Fin: "in_unit x \<longleftrightarrow> (\<exists>a. x = Fin a \<and> 0 \<le> a \<and> a \<le> 1)"
  by (cases x) (auto simp: in_unit_def)

lemma fsum_Nil [simp]: "fsum [] = 0"
  by (simp add: fsum_def)

lemma fsum_snoc [simp]: "fsum (xs @ [x]) = fsum xs + x"
  by (simp add: fsum_def)

lemma fsum_unit:
  "\<forall>x \<in> set xs. in_unit x \<Longrightarrow> length xs < 2 ^ 53
   \<Longrightarrow> Fin 0 \<le> fsum xs \<and> fsum xs \<le> Fin (of_nat (length xs))"
proof (induction xs rule: rev_induct)
  case (snoc x xs)
  then have ih: "Fin 0 \<le> fsum xs" "fsum xs \<le> Fin (of_nat (length xs))" by auto
  obtain a where a: "x = Fin a" "0 \<le> a" "a \<le> 1" using snoc.prems(1) by (auto simp: in_unit_Fin)
  from ih obtain b where b: "fsum xs = Fin b" "0 \<le> b" "b \<le> of_nat (length xs)" by (cases "fsum xs") auto
  have "representable (of_nat (length xs + 1) :: rat)"
    using representable_of_int [of "int (length xs + 1)"] snoc.prems(2) by simp
  then have "rnd (b + a) \<le> Fin (of_nat (length xs + 1))" using a b by (intro rnd_le_exact) simp_all
  moreover have "Fin 0 \<le> rnd (b + a)" using a b by (intro rnd_nonneg) simp
  ultimately show ?case using a b by simp
qed simp

lemma mean_unit:
  assumes "\<forall>x \<in> set xs. in_unit x" and "xs \<noteq> []" and "length xs < 2 ^ 53"
  shows "in_unit (fsum xs / f64_of_int (int (length xs)))"
proof -
  obtain b where b: "fsum xs = Fin b" "0 \<le> b" "b \<le> of_nat (length xs)"
    using fsum_unit [OF assms(1,3)] by (cases "fsum xs") auto
  have n: "f64_of_int (int (length xs)) = Fin (of_nat (length xs))"
    using f64_of_int_exact [of "int (length xs)"] assms(3) by simp
  have "Fin 0 \<le> rnd (b / of_nat (length xs))" using b by (intro rnd_nonneg) simp
  moreover have "rnd (b / of_nat (length xs)) \<le> Fin 1"
    using b assms(2) by (intro rnd_le_exact) (simp_all add: divide_le_eq)
  ultimately show ?thesis using assms(2) by (simp add: b n in_unit_def)
qed

text \<open>A weighted sum of scores in the unit interval stays below the sum of the weights.\<close>

definition sound_weight :: "f64 \<Rightarrow> bool" where
  "sound_weight w \<longleftrightarrow> wf64 w \<and> is_finite w \<and> 0 < w"

lemma score_below_weight:
  assumes "in_unit s" and "sound_weight w"
  shows "Fin 0 \<le> s * w \<and> s * w \<le> w"
proof -
  obtain a where a: "s = Fin a" "0 \<le> a" "a \<le> 1" using assms(1) by (auto simp: in_unit_Fin)
  obtain b where b: "w = Fin b" "0 < b" "representable b" using assms(2) by (cases w) (auto simp: sound_weight_def wf64_def)
  have "rnd (a * b) \<le> Fin b" using a b by (intro rnd_le_exact) (simp_all add: mult_left_le_one_le)
  moreover have "Fin 0 \<le> rnd (a * b)" using a b by (intro rnd_nonneg) simp
  ultimately show ?thesis by (simp add: a b)
qed

lemma f64_add_nonneg: "Fin 0 \<le> x \<Longrightarrow> Fin 0 \<le> y \<Longrightarrow> Fin 0 \<le> x + y"
  by (cases x; cases y) (auto intro: rnd_nonneg)

lemma weighted_sum_below:
  "\<forall>p \<in> set ps. in_unit (fst p) \<and> sound_weight (snd p)
   \<Longrightarrow> Fin 0 \<le> fsum (map (\<lambda>p. fst p * snd p) ps)
     \<and> fsum (map (\<lambda>p. fst p * snd p) ps) \<le> fsum (map snd ps)"
proof (induction ps rule: rev_induct)
  case (snoc p ps)
  then have ih: "Fin 0 \<le> fsum (map (\<lambda>p. fst p * snd p) ps)"
    "fsum (map (\<lambda>p. fst p * snd p) ps) \<le> fsum (map snd ps)" by auto
  have p: "Fin 0 \<le> fst p * snd p" "fst p * snd p \<le> snd p" using snoc.prems score_below_weight by auto
  have "fsum (map (\<lambda>p. fst p * snd p) ps) \<noteq> NInf" "fst p * snd p \<noteq> NInf" using ih p by auto
  then have "fsum (map (\<lambda>p. fst p * snd p) ps) + fst p * snd p \<le> fsum (map snd ps) + snd p"
    using ih p by (intro f64_add_mono2)
  moreover have "Fin 0 \<le> fsum (map (\<lambda>p. fst p * snd p) ps) + fst p * snd p"
    by (rule f64_add_nonneg [OF ih(1) p(1)])
  ultimately show ?case by simp
qed simp

lemma ratio_unit:
  assumes "Fin 0 \<le> num" and "num \<le> den" and "0 < den"
  shows "in_unit (num / den) \<or> den = PInf"
proof (cases den)
  case (Fin d)
  then obtain n where n: "num = Fin n" "0 \<le> n" "n \<le> d" "0 < d" using assms by (cases num) auto
  have "Fin 0 \<le> rnd (n / d)" using n by (intro rnd_nonneg) simp
  moreover have "rnd (n / d) \<le> Fin 1" using n by (intro rnd_le_exact) (simp_all add: divide_le_eq)
  ultimately show ?thesis using n by (simp add: Fin in_unit_def)
qed (use assms in auto)

section \<open>What the tally holds\<close>

lemma fold_tally_dim:
  "ty_per_dim (fold tally_dim dims t) key = ty_per_dim t key @ map (\<lambda>(k, s, w). s) (filter (\<lambda>(k, s, w). k = key) dims)"
  "ty_parsed (fold tally_dim dims t) = ty_parsed t" "ty_overalls (fold tally_dim dims t) = ty_overalls t"
  "ty_first_raw_failure (fold tally_dim dims t) = ty_first_raw_failure t"
  by (induction dims arbitrary: t) (auto simp: tally_dim_def split: prod.splits)

definition scores_for :: "string \<Rightarrow> sample_dims parsed list \<Rightarrow> f64 list" where
  "scores_for key results = concat (map (\<lambda>p. case pd_value p of
     Some dims \<Rightarrow> map (\<lambda>(k, s, w). s) (filter (\<lambda>(k, s, w). k = key) dims) | None \<Rightarrow> []) results)"

lemma tally_sample_effect:
  "ty_per_dim (tally_sample r p t) key = ty_per_dim t key @ scores_for key [p]"
  "ty_parsed (tally_sample r p t) = ty_parsed t + (if pd_value p = None then 0 else 1)"
  "ty_first_raw_failure (tally_sample r p t) = (if pd_value p = None \<and> ty_first_raw_failure t = None then pd_raw_failure p
     else ty_first_raw_failure t)"
  by (auto simp: tally_sample_def tally_cost_def scores_for_def fold_tally_dim Let_def split: option.splits)

lemma fold_tally_sample:
  "ty_per_dim (fold (tally_sample r) results t) key = ty_per_dim t key @ scores_for key results"
  "ty_parsed (fold (tally_sample r) results t) = ty_parsed t + length (filter (\<lambda>p. pd_value p \<noteq> None) results)"
  by (induction results arbitrary: t) (auto simp: tally_sample_effect scores_for_def)

lemma tally_all_effect:
  "ty_per_dim (tally_all r model k results) key = scores_for key results"
  "ty_parsed (tally_all r model k results) = length (filter (\<lambda>p. pd_value p \<noteq> None) results)"
  by (simp_all add: tally_all_def fold_tally_sample tally_start_def)

text \<open>Readings whose scores were clamped, as \<^const>\<open>parse_sample_value\<close> clamps them.\<close>

definition clamped :: "sample_dims parsed list \<Rightarrow> bool" where
  "clamped results \<longleftrightarrow> (\<forall>p \<in> set results. \<forall>dims. pd_value p = Some dims \<longrightarrow> (\<forall>d \<in> set dims. in_unit (fst (snd d))))"

lemma scores_for_unit: "clamped results \<Longrightarrow> \<forall>x \<in> set (scores_for key results). in_unit x"
proof
  fix x assume c: "clamped results" and "x \<in> set (scores_for key results)"
  then obtain p where p: "p \<in> set results" and x: "x \<in> set (case pd_value p of
      Some dims \<Rightarrow> map (\<lambda>(k, s, w). s) (filter (\<lambda>(k, s, w). k = key) dims) | None \<Rightarrow> [])"
    unfolding scores_for_def set_concat set_map by blast
  from x obtain dims d where "pd_value p = Some dims" "d \<in> set dims" "x = fst (snd d)"
    by (cases "pd_value p") auto
  with p show "in_unit x" using c by (auto simp: clamped_def)
qed

lemma find_mem: "find P xs = Some x \<Longrightarrow> x \<in> set xs"
  by (auto simp: find_Some_iff)

definition checked :: "det_score list \<Rightarrow> bool" where
  "checked det \<longleftrightarrow> (\<forall>s \<in> set det. \<forall>x. ds_score s = Some x \<longrightarrow> in_unit x)"

definition few_scores :: "sample_dims parsed list \<Rightarrow> bool" where
  "few_scores results \<longleftrightarrow> (\<forall>key. length (scores_for key results) < 2 ^ 53)"

lemma dim_mean_unit:
  assumes "clamped results" "checked det" "few_scores results"
  shows "in_unit (fst (dim_mean det (tally_all r model k results) d))"
proof -
  have zero: "in_unit 0" by (simp add: in_unit_def)
  have mean: "in_unit (fsum v / f64_of_int (int (length v)))" if "v \<noteq> []" "v = scores_for (rd_key d) results" for v
    using mean_unit [of v] scores_for_unit [OF assms(1)] assms(3) that by (auto simp: few_scores_def)
  show ?thesis
    using assms(2) zero mean
    by (auto simp: dim_mean_def tally_all_effect checked_def Let_def dest: find_mem split: option.splits)
qed

lemma validated_dimensions:
  "validate_dimensions upper seen ds = Inr () \<Longrightarrow> d \<in> set ds \<Longrightarrow> is_finite (rd_weight d) \<and> 0 < rd_weight d"
  by (induction upper seen ds rule: validate_dimensions.induct) (auto simp: Let_def split: if_splits sum.splits)

lemma validated_rubric:
  "validate_rubric upper name ds th = Inr () \<Longrightarrow> ds \<noteq> [] \<and> in_unit th \<and> validate_dimensions upper {} ds = Inr ()"
  by (auto simp: validate_rubric_def split: if_splits)

lemma overall_of_unit:
  assumes "\<forall>d \<in> set dims. in_unit (dm_score d) \<and> sound_weight (dm_weight d)"
  shows "in_unit (overall_of dims) \<or> fsum (map dm_weight (filter (\<lambda>d. \<not> dm_voided d) dims)) = PInf"
proof -
  let ?m = "filter (\<lambda>d. \<not> dm_voided d) dims"
  let ?ps = "map (\<lambda>d. (dm_score d, dm_weight d)) ?m"
  have "\<forall>p \<in> set ?ps. in_unit (fst p) \<and> sound_weight (snd p)" using assms by auto
  from weighted_sum_below [OF this]
  have "Fin 0 \<le> fsum (map (\<lambda>d. dm_score d * dm_weight d) ?m)"
    "fsum (map (\<lambda>d. dm_score d * dm_weight d) ?m) \<le> fsum (map dm_weight ?m)" by (simp_all add: comp_def)
  from ratio_unit [OF this] show ?thesis by (auto simp: overall_of_def in_unit_def Let_def)
qed

lemma aggregate_Inr:
  assumes "aggregate results r model k det = Inr out"
  shows "ro_dimensions out = map (dim_outcome det (tally_all r model k results)) (rb_dimensions r)"
    "ro_overall out = overall_of (ro_dimensions out)"
    "ro_pass out \<longleftrightarrow> rb_threshold r \<le> ro_overall out \<and> (\<forall>d \<in> set (ro_dimensions out). \<not> dm_floor_hit d)"
    "0 < k \<longrightarrow> ty_parsed (tally_all r model k results) \<noteq> 0"
    "rb_dimensions r = [] \<or> (\<exists>d \<in> set (ro_dimensions out). \<not> dm_voided d)"
proof -
  let ?t = "tally_all r model k results"
  let ?dims = "map (dim_outcome det ?t) (rb_dimensions r)"
  have parsed: "\<not> (0 < k \<and> ty_parsed ?t = 0)"
    using assms unfolding aggregate_def Let_def by (cases "0 < k \<and> ty_parsed ?t = 0") simp_all
  have measured: "\<not> (?dims \<noteq> [] \<and> (\<forall>d \<in> set ?dims. dm_voided d))"
  proof
    assume all: "?dims \<noteq> [] \<and> (\<forall>d \<in> set ?dims. dm_voided d)"
    show False using assms unfolding aggregate_def Let_def if_not_P [OF parsed] if_P [OF all] by simp
  qed
  note out = assms [unfolded aggregate_def Let_def if_not_P [OF parsed] if_not_P [OF measured] sum.inject, symmetric]
  show "ro_dimensions out = ?dims" "ro_overall out = overall_of (ro_dimensions out)"
    "ro_pass out \<longleftrightarrow> rb_threshold r \<le> ro_overall out \<and> (\<forall>d \<in> set (ro_dimensions out). \<not> dm_floor_hit d)"
    unfolding out rubric_outcome.simps by (rule refl)+
  then show "rb_dimensions r = [] \<or> (\<exists>d \<in> set (ro_dimensions out). \<not> dm_voided d)" using measured by auto
  show "0 < k \<longrightarrow> ty_parsed ?t \<noteq> 0" using parsed by auto
qed


section \<open>A dimension nobody measured\<close>

definition texts_for :: "string \<Rightarrow> sample_dims parsed list \<Rightarrow> string list" where
  "texts_for key results = concat (map (\<lambda>p. case pd_value p of
     Some dims \<Rightarrow> map (\<lambda>(k, s, w). w) (filter (\<lambda>(k, s, w). k = key \<and> w \<noteq> []) dims) | None \<Rightarrow> []) results)"

lemma fold_tally_dim_reasonings:
  "ty_reasonings (fold tally_dim dims t) key
     = ty_reasonings t key @ map (\<lambda>(k, s, w). w) (filter (\<lambda>(k, s, w). k = key \<and> w \<noteq> []) dims)"
  by (induction dims arbitrary: t) (auto simp: tally_dim_def split: prod.splits)

lemma tally_sample_reasonings: "ty_reasonings (tally_sample r p t) key = ty_reasonings t key @ texts_for key [p]"
  by (auto simp: tally_sample_def tally_cost_def texts_for_def fold_tally_dim_reasonings Let_def split: option.splits)

lemma tally_all_reasonings: "ty_reasonings (tally_all r model k results) key = texts_for key results"
proof -
  have "ty_reasonings (fold (tally_sample r) results t) key = ty_reasonings t key @ texts_for key results" for t
    by (induction results arbitrary: t) (simp_all add: tally_sample_reasonings, simp_all add: texts_for_def)
  then show ?thesis by (simp add: tally_all_def tally_start_def)
qed

lemma dim_outcome_rubric: "dim_outcome det (tally_all r model k results) = dim_outcome det (tally_all r' model k results)"
proof -
  have "ty_per_dim (tally_all r model k results) = ty_per_dim (tally_all r' model k results)"
    "ty_reasonings (tally_all r model k results) = ty_reasonings (tally_all r' model k results)"
    by (rule ext, simp only: tally_all_effect tally_all_reasonings)+
  then show ?thesis by (intro ext) (simp only: dim_outcome_def dim_mean_def)
qed

lemma overall_of_measured: "overall_of (filter (\<lambda>d. \<not> dm_voided d) dims) = overall_of dims"
  by (simp add: overall_of_def)

text \<open>
  C9: An outage is not a failure. A dimension that could not be measured - a sandbox that did not run, an
  output that made no claim - has no part in the verdict: the rubric without it gives the case the same
  overall score and the same pass or fail, over the same measured dimensions.
\<close>

theorem voided_dimension_is_absent:
  assumes "aggregate results r model k det = Inr out"
    and "r' = r\<lparr>rb_dimensions := filter (\<lambda>d. \<not> dm_voided (dim_outcome det (tally_all r model k results) d)) (rb_dimensions r)\<rparr>"
  shows "\<exists>out'. aggregate results r' model k det = Inr out'
    \<and> ro_dimensions out' = filter (\<lambda>d. \<not> dm_voided d) (ro_dimensions out)
    \<and> ro_overall out' = ro_overall out \<and> ro_pass out' = ro_pass out"
proof -
  note o = aggregate_Inr [OF assms(1)]
  let ?t = "tally_all r model k results" and ?t' = "tally_all r' model k results"
  let ?dims = "map (dim_outcome det ?t') (rb_dimensions r')"
  have eq: "dim_outcome det ?t' = dim_outcome det ?t" by (rule dim_outcome_rubric)
  have kept: "rb_dimensions r' = filter (\<lambda>d. \<not> dm_voided (dim_outcome det ?t d)) (rb_dimensions r)" "rb_threshold r' = rb_threshold r"
    unfolding assms(2) by simp_all
  have dims: "?dims = filter (\<lambda>d. \<not> dm_voided d) (ro_dimensions out)"
    unfolding o(1) eq kept by (simp add: filter_map comp_def)
  have parsed: "\<not> (0 < k \<and> ty_parsed ?t' = 0)" using o(4) by (auto simp: tally_all_effect)
  have measured: "\<not> (?dims \<noteq> [] \<and> (\<forall>d \<in> set ?dims. dm_voided d))" unfolding dims
    by (auto simp: filter_empty_conv)
  obtain out' where out': "aggregate results r' model k det = Inr out'"
    unfolding aggregate_def Let_def if_not_P [OF parsed] if_not_P [OF measured] by blast
  note o' = aggregate_Inr [OF out']
  have "ro_dimensions out' = filter (\<lambda>d. \<not> dm_voided d) (ro_dimensions out)" unfolding o'(1) dims ..
  moreover from this have "ro_overall out' = ro_overall out" by (simp add: o(2) o'(2) overall_of_measured)
  moreover have "\<forall>d \<in> set (ro_dimensions out). dm_voided d \<longrightarrow> \<not> dm_floor_hit d"
    by (auto simp: o(1) dim_outcome_def case_prod_beta Let_def)
  ultimately show ?thesis using out' o(3) o'(3) kept(2) by auto
qed

text \<open>When a case has no verdict.\<close>

theorem no_verdict_iff:
  "(\<exists>e. aggregate results r model k det = Inl e) \<longleftrightarrow>
     (0 < k \<and> (\<forall>p \<in> set results. pd_value p = None))
     \<or> (rb_dimensions r \<noteq> [] \<and> (\<forall>d \<in> set (rb_dimensions r). case find (\<lambda>s. ds_key s = rd_key d) det of
           Some s \<Rightarrow> ds_score s = None | None \<Rightarrow> scores_for (rd_key d) results = [] \<and> rd_kind d = DkGrounding))"
proof -
  let ?t = "tally_all r model k results"
  have parsed: "ty_parsed ?t = 0 \<longleftrightarrow> (\<forall>p \<in> set results. pd_value p = None)"
    by (auto simp: tally_all_effect filter_empty_conv)
  have void: "dm_voided (dim_outcome det ?t d) \<longleftrightarrow> (case find (\<lambda>s. ds_key s = rd_key d) det of
      Some s \<Rightarrow> ds_score s = None | None \<Rightarrow> scores_for (rd_key d) results = [] \<and> rd_kind d = DkGrounding)" for d
    by (auto simp: dim_outcome_def dim_mean_def tally_all_effect Let_def is_grounding_def split: option.splits)
  show ?thesis unfolding aggregate_def Let_def parsed by (simp add: void)
qed

section \<open>Witnesses\<close>

definition demo_dims :: rubric where
  "demo_dims = demo_rubric [demo_dimension ''q'' DkLlm 1, demo_dimension ''g'' DkGrounding 1]"

definition demo_results :: "sample_dims parsed list" where
  "demo_results = [parsed_empty\<lparr>pd_value := Some [(''q'', 1, ''fine'')]\<rparr>]"

lemma demo_scores: "scores_for key demo_results = (if key = ''q'' then [1] else [])"
  by (simp add: scores_for_def demo_results_def)

lemma demo_aggregate: "\<exists>out. aggregate demo_results demo_dims ''m'' 1 [] = Inr out"
proof -
  let ?t = "tally_all demo_dims ''m'' 1 demo_results"
  let ?dims = "map (dim_outcome [] ?t) (rb_dimensions demo_dims)"
  have parsed: "\<not> (0 < (1::nat) \<and> ty_parsed ?t = 0)" by (simp add: tally_all_effect demo_results_def)
  have measured: "\<not> (?dims \<noteq> [] \<and> (\<forall>d \<in> set ?dims. dm_voided d))"
    by (simp add: demo_dims_def demo_rubric_def demo_dimension_def dim_outcome_def dim_mean_def tally_all_effect demo_scores
        is_grounding_def Let_def)
  show ?thesis unfolding aggregate_def Let_def if_not_P [OF parsed] if_not_P [OF measured] by blast
qed


lemma voided_dimension_is_absent_witness:
  "\<exists>out out' r'. aggregate demo_results demo_dims ''m'' 1 [] = Inr out \<and> aggregate demo_results r' ''m'' 1 [] = Inr out'
     \<and> map rd_key (rb_dimensions r') = [''q''] \<and> ro_overall out' = ro_overall out"
proof -
  obtain out where out: "aggregate demo_results demo_dims ''m'' 1 [] = Inr out" using demo_aggregate ..
  let ?r = "demo_dims\<lparr>rb_dimensions := filter
    (\<lambda>d. \<not> dm_voided (dim_outcome [] (tally_all demo_dims ''m'' 1 demo_results) d)) (rb_dimensions demo_dims)\<rparr>"
  have "map rd_key (rb_dimensions ?r) = [''q'']"
    by (simp add: demo_dims_def demo_rubric_def demo_dimension_def dim_outcome_def dim_mean_def tally_all_effect demo_scores
        is_grounding_def Let_def)
  moreover obtain out' where "aggregate demo_results ?r ''m'' 1 [] = Inr out'" "ro_overall out' = ro_overall out"
    using voided_dimension_is_absent [OF out refl] by blast
  ultimately show ?thesis using out by (intro exI conjI)
qed

text \<open>
  The door leaves one gap. It asks of each weight that it be finite and positive, not that their sum
  be: two dimensions weighted at the top of the range pass it, their weights add up to infinity, and a
  perfect candidate's overall score is not a number, so it cannot reach any threshold.
\<close>

definition heaviest :: rat where
  "heaviest = 2 powi 1023"

definition heavy :: f64 where
  "heavy = Fin heaviest"

lemma representable_heaviest: "representable heaviest"
proof -
  have "heaviest = 2 powi (52 + 971)" unfolding heaviest_def by (rule arg_cong [of 1023]) simp
  also have "\<dots> = 2 powi 52 * 2 powi 971" by (rule powi_two_add)
  also have "(2::rat) powi 52 = of_int (2 ^ 52)" by simp
  finally have "heaviest = of_int (2 ^ 52) * 2 powi 971" .
  moreover have "\<bar>2 ^ 52\<bar> < (2 ^ 53 :: int)" "- 1074 \<le> (971 :: int)" "(971 :: int) \<le> 971" by simp_all
  ultimately show ?thesis unfolding representable_def by blast
qed

lemma heaviest_twice: "rnd (heaviest + heaviest) = PInf"
proof -
  let ?q = "2 powi 1024 :: rat"
  have "?q = 2 powi (1023 + 1)" by (rule arg_cong [of 1024]) simp
  also have "\<dots> = heaviest * 2 powi 1" unfolding heaviest_def by (rule powi_two_add)
  finally have q: "heaviest + heaviest = ?q" by (simp add: heaviest_def [symmetric] del: power_int_numeral)
  have "\<bar>?q\<bar> < 2 powi (972 + 53)" by (simp del: power_int_numeral)
  then have "ulp_exp ?q \<le> 972" by (intro ulp_exp_le) (simp_all del: power_int_numeral)
  then have "?q / grid ?q = of_int (2 ^ nat (1024 - ulp_exp ?q))"
    using powi_two_int [of "1024 - ulp_exp ?q"] by (simp only: grid_def powi_two_diff)
  then have "of_int (rne (?q / grid ?q)) = ?q / grid ?q" by (simp only: rne_of_int)
  then have "rnd_rat ?q = ?q" by (simp add: rnd_rat_def del: power_int_numeral)
  then show ?thesis unfolding q by (simp only: rnd_def Let_def overflow_def order_refl if_True)
qed

lemma two_heaviest: "rnd (2 * heaviest) = PInf"
  using heaviest_twice by simp

lemma heavy_arith: "is_finite heavy" "0 < heavy" "0 + heavy = heavy" "1 * heavy = heavy" "heavy + heavy = PInf"
proof -
  have "0 < heaviest" unfolding heaviest_def by (rule powi_two_pos)
  then show "is_finite heavy" "0 < heavy" "0 + heavy = heavy" "1 * heavy = heavy" "heavy + heavy = PInf"
    by (simp_all add: heavy_def rnd_exact [OF representable_heaviest] two_heaviest)
qed

definition perfect :: "string \<Rightarrow> dim_score" where
  "perfect key = \<lparr>dm_key = key, dm_score = 1, dm_reasonings = [], dm_weight = heavy, dm_floor = None, dm_floor_hit = False,
     dm_voided = False, dm_grounding = None\<rparr>"

lemma heavy_weights_have_no_overall:
  "validate_rubric id ''n'' [demo_dimension ''q'' DkLlm heavy, demo_dimension ''c'' DkLlm heavy] (Fin (1 / 2)) = Inr ()
   \<and> overall_of [perfect ''q'', perfect ''c''] = NaN"
proof
  show "validate_rubric id ''n'' [demo_dimension ''q'' DkLlm heavy, demo_dimension ''c'' DkLlm heavy] (Fin (1 / 2)) = Inr ()"
    using heavy_arith by (simp add: validate_rubric_def demo_dimension_def default_check_def str_trim_def is_space_def in_unit_def)
  have "fsum [heavy, heavy] = PInf" "fsum [1 * heavy, 1 * heavy] = PInf"
    by (simp_all only: fsum_def fold_simps heavy_arith)
  then show "overall_of [perfect ''q'', perfect ''c''] = NaN"
    by (simp add: overall_of_def perfect_def Let_def)
qed

end
