(* ===== verification/JudgeCheck.thy ===== *)
theory JudgeCheck
  imports JudgeScore
begin

text \<open>
  The mechanical dimensions of a rubric (\<^verbatim>\<open>crates/engine/src/scorers.rs\<close>,
  \<^verbatim>\<open>scorers/numeric.rs\<close>): each is evaluated once, before any model is asked. JSON text, JSON
  pointers, regular expressions, Unicode lower case, the reading and printing of floats and the sandbox
  are arguments, and the texts of their errors are left out of the messages. A misconfigured dimension
  is an error; a candidate that fails a check scores 0.
\<close>

section \<open>Characters\<close>

definition is_continuation :: "char \<Rightarrow> bool" where
  "is_continuation c \<longleftrightarrow> (128::nat) \<le> of_char c \<and> of_char c < (192::nat)"

definition char_count :: "string \<Rightarrow> nat" where
  "char_count s = length (filter (\<lambda>c. \<not> is_continuation c) s)"

fun take_chars :: "nat \<Rightarrow> string \<Rightarrow> string" where
  "take_chars n [] = []"
| "take_chars n (c # s) =
     (if is_continuation c then c # take_chars n s else if n = 0 then [] else c # take_chars (n - 1) s)"

definition SNIP :: nat where
  "SNIP = 120"

definition snip :: "string \<Rightarrow> string" where
  "snip s = (if char_count s \<le> SNIP then s else take_chars (SNIP - 1) s @ ellipsis)"

definition arrow :: string where
  "arrow = [CHR 0xE2, CHR 0x86, CHR 0x92]"

section \<open>Exact comparison of numbers\<close>

record check_env =
  ce_from_str :: "string \<Rightarrow> json option"
  ce_pointer :: "json \<Rightarrow> string \<Rightarrow> json option"
  ce_to_string :: "json \<Rightarrow> string"
  ce_lower :: "string \<Rightarrow> string"
  ce_regex :: "string \<Rightarrow> bool \<Rightarrow> (string \<Rightarrow> bool) option"
  ce_find_number :: "string \<Rightarrow> string option"
  ce_parse_f64 :: "string \<Rightarrow> f64 option"
  ce_parse_i64 :: "string \<Rightarrow> int option"
  ce_show_f64 :: "f64 \<Rightarrow> string"
  ce_run_exec :: "(string \<Rightarrow> dimension_check \<Rightarrow> string \<Rightarrow> engine_error + f64 option \<times> string) option"

definition drop_sign :: "string \<Rightarrow> string" where
  "drop_sign s = (case s of c # t \<Rightarrow> if c = CHR ''-'' \<or> c = CHR ''+'' then t else s | [] \<Rightarrow> s)"

definition integer_literal :: "string \<Rightarrow> bool" where
  "integer_literal s = (let digits = drop_sign (str_trim s) in digits \<noteq> [] \<and> (\<forall>b \<in> set digits. is_digit b))"

definition is_exponent_mark :: "char \<Rightarrow> bool" where
  "is_exponent_mark c \<longleftrightarrow> c = CHR ''e'' \<or> c = CHR ''E''"

definition i64_ok :: "int \<Rightarrow> int option" where
  "i64_ok i = (if - (2 ^ 63) \<le> i \<and> i < 2 ^ 63 then Some i else None)"

text \<open>
  A decimal spelling as its sign, its significant digits and a power of ten; \<open>parse::<i64>\<close> of the
  exponent is an argument.
\<close>

definition split_exponent :: "(string \<Rightarrow> int option) \<Rightarrow> string \<Rightarrow> (string \<times> int) option" where
  "split_exponent parse_i64 u =
     (let m = takeWhile (\<lambda>c. \<not> is_exponent_mark c) u; rest = dropWhile (\<lambda>c. \<not> is_exponent_mark c) u
      in case rest of [] \<Rightarrow> Some (u, 0) | _ # e \<Rightarrow> map_option (\<lambda>x. (m, x)) (parse_i64 e))"

definition canonical_number :: "(string \<Rightarrow> int option) \<Rightarrow> string \<Rightarrow> (bool \<times> string \<times> int) option" where
  "canonical_number parse_i64 s0 =
     (let s = str_trim s0; negative = (take 1 s = ''-'') in
      case split_exponent parse_i64 (drop_sign s) of
        None \<Rightarrow> None
      | Some (mantissa, exponent) \<Rightarrow>
          (let (whole, fraction) = (case split_once (CHR ''.'') mantissa of Some p \<Rightarrow> p | None \<Rightarrow> (mantissa, [])) in
           if (whole = [] \<and> fraction = []) \<or> \<not> (\<forall>b \<in> set (whole @ fraction). is_digit b) then None
           else (let combined = filter (\<lambda>c. c \<noteq> CHR ''.'') mantissa;
                     digits = dropWhile (\<lambda>c. c = CHR ''0'') combined in
             if digits = [] then Some (False, [], 0)
             else (let significant = rev (dropWhile (\<lambda>c. c = CHR ''0'') (rev digits));
                       zeros = length digits - length significant
               in case Option.bind (i64_ok (exponent - int (length fraction))) (\<lambda>x. i64_ok (x + int zeros)) of
                    Some x \<Rightarrow> Some (negative, significant, x) | None \<Rightarrow> None))))"

definition exact_numbers_equal :: "(string \<Rightarrow> int option) \<Rightarrow> string \<Rightarrow> string \<Rightarrow> bool" where
  "exact_numbers_equal parse_i64 a b \<longleftrightarrow> canonical_number parse_i64 a = canonical_number parse_i64 b"

definition first_number :: "check_env \<Rightarrow> string \<Rightarrow> string option" where
  "first_number ce s = (if ce_parse_f64 ce (str_trim s) \<noteq> None then Some (str_trim s) else ce_find_number ce s)"

section \<open>One dimension\<close>

definition verdict :: "bool \<Rightarrow> string \<Rightarrow> f64 option \<times> string" where
  "verdict ok detail = (Some (if ok then 1 else 0), detail @ '' '' @ arrow @ '' '' @ (if ok then ''pass'' else ''fail''))"

definition ticked :: "string \<Rightarrow> string" where
  "ticked s = ''`'' @ s @ ''`''"

definition no_number :: "string \<Rightarrow> string \<Rightarrow> f64 option \<times> string" where
  "no_number want subject = (Some 0, ''numeric: expected '' @ ticked want @ '', no number in '' @ ticked (snip subject)
     @ '' '' @ arrow @ '' fail'')"

definition fabs :: "f64 \<Rightarrow> f64" where
  "fabs x = (if x < 0 then - x else x)"

definition numeric_evaluate :: "check_env \<Rightarrow> rubric_dimension \<Rightarrow> string \<Rightarrow> string \<Rightarrow> f64 \<Rightarrow> engine_error + f64 option \<times> string" where
  "numeric_evaluate ce d want subject tolerance =
     (let int_target = integer_literal want in
      if \<not> int_target \<and> ce_parse_f64 ce want = None
      then Inl (Other (''rubric dimension '' @ [quote] @ rd_key d @ [quote] @ '' (numeric) target '' @ ticked want
          @ '' is not a number''))
      else Inr (case first_number ce subject of
          None \<Rightarrow> no_number want subject
        | Some actual \<Rightarrow>
            if int_target
            then verdict (exact_numbers_equal (ce_parse_i64 ce) want actual)
              (''numeric: expected '' @ ticked want @ '', got '' @ ticked actual @ '', integer target compares exactly'')
            else (case (ce_parse_f64 ce want, ce_parse_f64 ce actual) of
                (Some expected, Some x) \<Rightarrow> verdict (fabs (x - expected) \<le> tolerance)
                  (''numeric: expected '' @ ticked (ce_show_f64 ce expected) @ '', got '' @ ticked (ce_show_f64 ce x)
                    @ '', tolerance '' @ ce_show_f64 ce tolerance)
              | _ \<Rightarrow> no_number want subject)))"

definition same :: "check_env \<Rightarrow> bool \<Rightarrow> string \<Rightarrow> string \<Rightarrow> bool" where
  "same ce case_sensitive a b = (if case_sensitive then a = b else ce_lower ce a = ce_lower ce b)"

definition folded :: "check_env \<Rightarrow> bool \<Rightarrow> string \<Rightarrow> string" where
  "folded ce case_sensitive s = (if case_sensitive then s else ce_lower ce s)"

definition check_target :: "rubric_dimension \<Rightarrow> string option \<Rightarrow> engine_error + string" where
  "check_target d expected =
     (case (case ck_expect (rd_check d) of Some e \<Rightarrow> Some e | None \<Rightarrow> expected) of
        None \<Rightarrow> Inl (Other (''rubric dimension '' @ [quote] @ rd_key d @ [quote] @ '' ('' @ kind_as_str (rd_kind d)
          @ '') has no target: set `check.expect`, or give the case an `expected` reference answer''))
      | Some raw \<Rightarrow> Inr (if ck_trim (rd_check d) then str_trim raw else raw))"

text \<open>The part of the output a check reads; the reason a selection fails is for the candidate.\<close>

definition select :: "check_env \<Rightarrow> dimension_check \<Rightarrow> string \<Rightarrow> string + string" where
  "select ce c output =
     (let trimmed = (\<lambda>raw. if ck_trim c then str_trim raw else raw) in
      case ck_path c of
        None \<Rightarrow> Inr (trimmed output)
      | Some p \<Rightarrow>
          (case ce_from_str ce (str_trim output) of
             None \<Rightarrow> Inl (''output is not JSON, so path '' @ ticked p @ '' cannot be read'')
           | Some v \<Rightarrow>
               (case ce_pointer ce v p of
                  None \<Rightarrow> Inl (''no value at path '' @ ticked p)
                | Some (JString s) \<Rightarrow> Inr (trimmed s)
                | Some other \<Rightarrow> Inr (trimmed (ce_to_string ce other)))))"

definition evaluate_text :: "check_env \<Rightarrow> rubric_dimension \<Rightarrow> string option \<Rightarrow> string \<Rightarrow> engine_error + f64 option \<times> string" where
  "evaluate_text ce d expected subject =
     (let c = rd_check d in case rd_kind d of
        DkExact \<Rightarrow> map_sum id (\<lambda>want. verdict (same ce (ck_case_sensitive c) subject want)
            (''exact: expected '' @ ticked (snip want) @ '', got '' @ ticked (snip subject))) (check_target d expected)
      | DkContains \<Rightarrow> map_sum id (\<lambda>want. verdict
            (str_contains (folded ce (ck_case_sensitive c) subject) (folded ce (ck_case_sensitive c) want))
            (''contains: looked for '' @ ticked (snip want) @ '' in '' @ ticked (snip subject))) (check_target d expected)
      | DkRegex \<Rightarrow>
          (case ck_pattern c of
             None \<Rightarrow> Inl (Other (''rubric dimension '' @ [quote] @ rd_key d @ [quote] @ '' (regex) has no `check.pattern`''))
           | Some pattern \<Rightarrow>
               (case ce_regex ce pattern (\<not> ck_case_sensitive c) of
                  None \<Rightarrow> Inl (Other (''rubric dimension '' @ [quote] @ rd_key d @ [quote] @ '' has an invalid regex '' @ ticked pattern))
                | Some is_match \<Rightarrow> Inr (verdict (is_match subject)
                    (''regex: /'' @ pattern @ ''/ against '' @ ticked (snip subject)))))
      | DkNumeric \<Rightarrow>
          (case check_target d expected of
             Inl e \<Rightarrow> Inl e
           | Inr raw \<Rightarrow> numeric_evaluate ce d raw subject (fabs (unwrap_or 0 (ck_tolerance c))))
      | DkJsonValid \<Rightarrow>
          (let parses = (ck_path c \<noteq> None \<or> ce_from_str ce subject \<noteq> None) in
           if \<not> parses then Inr (Some 0, ''json_valid: '' @ ticked (snip subject) @ '' is not valid JSON '' @ arrow @ '' fail'')
           else (case ck_expect c of
               None \<Rightarrow> Inr (Some 1, ''json_valid: output parses as JSON '' @ arrow @ '' pass'')
             | Some w \<Rightarrow>
                 (let want = (if ck_trim c then str_trim w else w) in
                  Inr (verdict (same ce (ck_case_sensitive c) subject want)
                    (''json_valid: parses, expected '' @ ticked (snip want) @ '' at '' @ unwrap_or ''the root'' (ck_path c)
                      @ '', got '' @ ticked (snip subject))))))
      | DkExec \<Rightarrow>
          (case ce_run_exec ce of
             None \<Rightarrow> Inl (Other (''rubric dimension '' @ [quote] @ rd_key d @ [quote]
               @ '' is `exec` but this run has no sandbox configured''))
           | Some run \<Rightarrow> run (rd_key d) c subject)
      | _ \<Rightarrow> Inl (Other (''rubric dimension '' @ [quote] @ rd_key d @ [quote]
          @ '' is model-judged and has no deterministic check'')))"

definition evaluate :: "check_env \<Rightarrow> rubric_dimension \<Rightarrow> string option \<Rightarrow> string \<Rightarrow> engine_error + f64 option \<times> string" where
  "evaluate ce d expected output =
     (case select ce (rd_check d) output of
        Inl why \<Rightarrow> Inr (Some 0, kind_as_str (rd_kind d) @ '': '' @ why @ '' '' @ arrow @ '' fail'')
      | Inr subject \<Rightarrow> evaluate_text ce d expected subject)"

fun evaluate_dims :: "check_env \<Rightarrow> string option \<Rightarrow> string \<Rightarrow> rubric_dimension list \<Rightarrow> engine_error + det_score list" where
  "evaluate_dims ce expected output [] = Inr []"
| "evaluate_dims ce expected output (d # ds) =
     (case evaluate ce d expected output of
        Inl e \<Rightarrow> Inl e
      | Inr (score, reasoning) \<Rightarrow>
          map_sum id (\<lambda>rest. \<lparr>ds_key = rd_key d, ds_score = score, ds_reasoning = reasoning\<rparr> # rest)
            (evaluate_dims ce expected output ds))"

definition evaluate_all :: "check_env \<Rightarrow> rubric \<Rightarrow> string option \<Rightarrow> string \<Rightarrow> engine_error + det_score list" where
  "evaluate_all ce r expected output =
     evaluate_dims ce expected output (filter (\<lambda>d. is_mechanical (rd_kind d)) (rb_dimensions r))"

section \<open>A check scores 0 or 1, or nothing\<close>

definition sandbox_sound :: "check_env \<Rightarrow> bool" where
  "sandbox_sound ce \<longleftrightarrow> (\<forall>run. ce_run_exec ce = Some run \<longrightarrow>
     (\<forall>key c subject x why. run key c subject = Inr (x, why) \<longrightarrow> x \<in> {Some 0, Some 1, None}))"

lemma verdict_score: "fst (verdict ok detail) \<in> {Some 0, Some 1}"
  by (simp add: verdict_def)

lemma map_sum_Inr: "map_sum id f x = Inr y \<longleftrightarrow> (\<exists>z. x = Inr z \<and> y = f z)"
  by (cases x) auto

lemma map_sum_Inl: "map_sum id f x = Inl y \<longleftrightarrow> x = Inl y"
  by (cases x) auto

lemma numeric_score: "numeric_evaluate ce d want subject tol = Inr res \<Longrightarrow> fst res \<in> {Some 0, Some 1}"
  using verdict_score by (auto simp: numeric_evaluate_def no_number_def Let_def split: if_splits option.splits)

lemma evaluate_score:
  assumes "evaluate ce d expected output = Inr res" and "sandbox_sound ce"
  shows "fst res \<in> {Some 0, Some 1, None} \<and> (fst res = None \<longrightarrow> rd_kind d = DkExec)"
proof (cases "select ce (rd_check d) output")
  case (Inl why)
  then show ?thesis using assms(1) by (auto simp: evaluate_def)
next
  case (Inr subject)
  have v: "fst (verdict ok t) = Some (if ok then 1 else 0)" for ok t by (simp add: verdict_def)
  have e: "evaluate_text ce d expected subject = Inr res" using assms(1) Inr by (simp add: evaluate_def)
  show ?thesis
  proof (cases "rd_kind d")
    case DkNumeric
    then have "fst res \<in> {Some 0, Some 1}"
      using e numeric_score by (auto simp: evaluate_text_def Let_def split: sum.splits)
    then show ?thesis by auto
  next
    case DkExec
    obtain run where run: "ce_run_exec ce = Some run" "run (rd_key d) (rd_check d) subject = Inr (fst res, snd res)"
      using e DkExec by (auto simp: evaluate_text_def Let_def split: option.splits)
    then have "fst res \<in> {Some 0, Some 1, None}" using assms(2) unfolding sandbox_sound_def by blast
    then show ?thesis using DkExec by simp
  next
    case DkJsonValid
    then show ?thesis using e v by (auto simp: evaluate_text_def Let_def split: if_splits option.splits)
  next
    case DkRegex
    then show ?thesis using e v by (auto simp: evaluate_text_def Let_def split: if_splits option.splits)
  qed (use e v in \<open>auto simp: evaluate_text_def Let_def map_sum_Inr split: if_splits\<close>)
qed

text \<open>
  Every mechanical dimension is scored once, in rubric order, and its score is exactly 0 or exactly 1;
  only a sandboxed dimension can be left without one.
\<close>

theorem checks_score_zero_or_one:
  assumes "evaluate_all ce r expected output = Inr det" and "sandbox_sound ce"
  shows "map ds_key det = map rd_key (filter (\<lambda>d. is_mechanical (rd_kind d)) (rb_dimensions r))
    \<and> (\<forall>s \<in> set det. ds_score s \<in> {Some 0, Some 1, None}) \<and> checked det
    \<and> (\<forall>i < length det. ds_score (det ! i) = None
        \<longrightarrow> rd_kind (filter (\<lambda>d. is_mechanical (rd_kind d)) (rb_dimensions r) ! i) = DkExec)"
proof -
  have "map ds_key det = map rd_key ds \<and> (\<forall>s \<in> set det. ds_score s \<in> {Some 0, Some 1, None})
      \<and> (\<forall>i < length det. ds_score (det ! i) = None \<longrightarrow> rd_kind (ds ! i) = DkExec)"
    if "evaluate_dims ce expected output ds = Inr det" for ds
    using that
  proof (induction ds arbitrary: det)
    case (Cons d ds)
    from Cons.prems obtain res rest where e: "evaluate ce d expected output = Inr res"
      and rest: "evaluate_dims ce expected output ds = Inr rest"
      and det: "det = \<lparr>ds_key = rd_key d, ds_score = fst res, ds_reasoning = snd res\<rparr> # rest"
      by (auto simp: map_sum_Inr split: sum.splits prod.splits)
    from Cons.IH [OF rest] evaluate_score [OF e assms(2)] show ?case
      by (auto simp: det nth_Cons' split: if_splits)
  qed simp
  note all = this [of "filter (\<lambda>d. is_mechanical (rd_kind d)) (rb_dimensions r)", OF assms(1) [unfolded evaluate_all_def]]
  have "in_unit x" if "s \<in> set det" "ds_score s = Some x" for s x
  proof -
    have "Some x \<in> {Some 0, Some 1, None}" using all that by metis
    then show ?thesis by (auto simp: in_unit_def)
  qed
  then have "checked det" by (simp add: checked_def)
  with all show ?thesis by blast
qed

section \<open>Numbers compare by value\<close>

definition digit_of :: "char \<Rightarrow> nat" where
  "digit_of c = of_char c - 48"

definition dval :: "string \<Rightarrow> nat" where
  "dval s = foldl (\<lambda>n c. 10 * n + digit_of c) 0 s"

definition all_digits :: "string \<Rightarrow> bool" where
  "all_digits s \<longleftrightarrow> (\<forall>c \<in> set s. is_digit c)"

lemma dval_snoc [simp]: "dval [] = 0" "dval (s @ [c]) = 10 * dval s + digit_of c"
  by (simp_all add: dval_def)

lemma digit_bound: "is_digit c \<Longrightarrow> digit_of c < 10"
  by (auto simp: is_digit_def digit_of_def)

lemma digit_inj: "is_digit c \<Longrightarrow> is_digit d \<Longrightarrow> digit_of c = digit_of d \<Longrightarrow> c = d"
proof -
  assume "is_digit c" "is_digit d" "digit_of c = digit_of d"
  then have "(of_char c :: nat) = of_char d" unfolding is_digit_def digit_of_def by linarith
  then show "c = d" by simp
qed

lemma digit_zero: "is_digit c \<Longrightarrow> digit_of c = 0 \<longleftrightarrow> c = CHR ''0''"
  using digit_inj [of c "CHR ''0''"] by (auto simp: is_digit_def digit_of_def)

lemma dval_append: "dval (s @ t) = dval s * 10 ^ length t + dval t"
  by (induction t rule: rev_induct) (simp_all add: append_assoc [symmetric] del: append_assoc)

lemma dval_zeros [simp]: "dval (replicate n (CHR ''0'')) = 0"
proof (induction n)
  case (Suc n)
  have "replicate (Suc n) (CHR ''0'') = replicate n (CHR ''0'') @ [CHR ''0'']" by (simp add: replicate_append_same)
  then show ?case using Suc by (simp only: dval_snoc) (simp add: digit_of_def)
qed simp

lemma dval_less: "all_digits s \<Longrightarrow> dval s < 10 ^ length s"
proof (induction s rule: rev_induct)
  case (snoc c s)
  then have "dval s < 10 ^ length s" "digit_of c < 10" by (auto simp: all_digits_def digit_bound)
  then show ?case by simp
qed simp

lemma dval_drop_zeros: "dval (dropWhile (\<lambda>c. c = CHR ''0'') s) = dval s"
proof -
  have "takeWhile (\<lambda>c. c = CHR ''0'') s = replicate (length (takeWhile (\<lambda>c. c = CHR ''0'') s)) (CHR ''0'')"
    by (rule replicate_eqI) (auto dest: set_takeWhileD)
  then have "dval (takeWhile (\<lambda>c. c = CHR ''0'') s) = 0" by (metis dval_zeros)
  moreover have "dval s = dval (takeWhile (\<lambda>c. c = CHR ''0'') s @ dropWhile (\<lambda>c. c = CHR ''0'') s)" by simp
  ultimately show ?thesis unfolding dval_append by simp
qed

lemma dval_inj_length: "length s = length t \<Longrightarrow> all_digits s \<Longrightarrow> all_digits t \<Longrightarrow> dval s = dval t \<Longrightarrow> s = t"
proof (induction s arbitrary: t rule: rev_induct)
  case (snoc c s)
  then obtain u d where t: "t = u @ [d]" by (cases t rule: rev_cases) auto
  have dig: "is_digit c" "is_digit d" using snoc.prems by (auto simp: t all_digits_def)
  have "10 * dval s + digit_of c = 10 * dval u + digit_of d" using snoc.prems t by simp
  with digit_bound [OF dig(1)] digit_bound [OF dig(2)] have "dval s = dval u" "digit_of c = digit_of d" by presburger+
  then show ?case using snoc dig digit_inj by (auto simp: t all_digits_def)
qed simp

text \<open>A spelling without leading zeros is determined by its value.\<close>

definition no_lead :: "string \<Rightarrow> bool" where
  "no_lead s \<longleftrightarrow> all_digits s \<and> s \<noteq> [] \<and> hd s \<noteq> CHR ''0''"

lemma no_lead_bounds: "no_lead s \<Longrightarrow> 10 ^ (length s - 1) \<le> dval s \<and> dval s < 10 ^ length s"
proof -
  assume s: "no_lead s"
  then obtain c t where ct: "s = [c] @ t" by (cases s) (auto simp: no_lead_def)
  have "is_digit c" "c \<noteq> CHR ''0''" using s ct by (auto simp: no_lead_def all_digits_def)
  then have "1 \<le> digit_of c" using digit_zero by fastforce
  moreover have "dval s = digit_of c * 10 ^ length t + dval t" unfolding ct dval_append by (simp add: dval_def)
  ultimately have "10 ^ length t \<le> dval s" by (simp add: trans_le_add1)
  then show ?thesis using s ct dval_less [of s] by (auto simp: no_lead_def)
qed

lemma dval_inj: "no_lead s \<Longrightarrow> no_lead t \<Longrightarrow> dval s = dval t \<Longrightarrow> s = t"
proof -
  assume st: "no_lead s" "no_lead t" "dval s = dval t"
  have "length a \<le> length b" if "no_lead a" "no_lead b" "dval a = dval b" for a b
  proof -
    have "(10::nat) ^ (length a - 1) < 10 ^ length b" using no_lead_bounds that by (metis le_less_trans)
    then show ?thesis by simp
  qed
  from this [OF st(1,2,3)] this [OF st(2,1)] st(3) have "length s = length t" by simp
  then show "s = t" using st dval_inj_length by (auto simp: no_lead_def)
qed

text \<open>The value a spelling denotes, and the value of a canonical form.\<close>

definition signed_scaled :: "bool \<Rightarrow> string \<Rightarrow> int \<Rightarrow> rat" where
  "signed_scaled negative digits e = (if negative then -1 else 1) * (of_nat (dval digits) * 10 powi e)"

definition decimal_value :: "(string \<Rightarrow> int option) \<Rightarrow> string \<Rightarrow> rat option" where
  "decimal_value parse_i64 s0 =
     (let s = str_trim s0 in map_option (\<lambda>(mantissa, e).
        let (whole, fraction) = (case split_once (CHR ''.'') mantissa of Some p \<Rightarrow> p | None \<Rightarrow> (mantissa, []))
        in signed_scaled (take 1 s = ''-'') (whole @ fraction) (e - int (length fraction)))
      (split_exponent parse_i64 (drop_sign s)))"

definition normal_form :: "bool \<times> string \<times> int \<Rightarrow> bool" where
  "normal_form c = (case c of (negative, digits, e) \<Rightarrow>
     if digits = [] then \<not> negative \<and> e = 0 else no_lead digits \<and> last digits \<noteq> CHR ''0'')"

lemma diff_eq_of_eq_add: "a = b + c \<Longrightarrow> a - b = (c :: nat)"
  by simp

lemma strip_trailing:
  assumes "digits = significant @ zs" "\<forall>c \<in> set zs. c = CHR ''0''"
  shows "signed_scaled neg digits e = signed_scaled neg significant (e + int (length zs))"
proof -
  have "zs = replicate (length zs) (CHR ''0'')" using assms(2) by (intro replicate_eqI) auto
  then have "dval zs = 0" by (metis dval_zeros)
  then have "dval digits = dval significant * 10 ^ length zs" by (simp add: assms(1) dval_append)
  moreover have "(10::rat) powi (e + int (length zs)) = 10 powi e * 10 ^ length zs"
    by (simp add: power_int_add)
  ultimately show ?thesis by (simp add: signed_scaled_def)
qed

lemma strip_both:
  assumes "dropWhile P xs \<noteq> []"
  shows "rev (dropWhile P (rev (dropWhile P xs))) \<noteq> [] \<and> \<not> P (hd (rev (dropWhile P (rev (dropWhile P xs)))))
    \<and> \<not> P (last (rev (dropWhile P (rev (dropWhile P xs))))) \<and> set (rev (dropWhile P (rev (dropWhile P xs)))) \<subseteq> set xs"
proof -
  obtain y ys where d: "dropWhile P xs = y # ys" using assms by (cases "dropWhile P xs") auto
  have y: "\<not> P y" using dropWhile_head [OF d] .
  have s: "dropWhile P (rev (y # ys)) = dropWhile P (rev ys) @ [y]" by (simp only: rev.simps dropWhile_append3 [of P, OF y])
  have "\<not> P (hd (dropWhile P (rev (y # ys))))" by (rule hd_dropWhile) (simp only: s, simp)
  moreover have "set (dropWhile P (rev ys)) \<subseteq> set ys" by (auto dest: set_dropWhileD)
  moreover have "set (y # ys) \<subseteq> set xs" unfolding d [symmetric] by (auto dest: set_dropWhileD)
  ultimately show ?thesis using y unfolding d s by (auto simp: last_rev hd_append split: if_splits)
qed

lemma canonical_number_value:
  assumes "canonical_number p s0 = Some (neg, sig, x)"
  shows "decimal_value p s0 = Some (signed_scaled neg sig x) \<and> normal_form (neg, sig, x)"
proof -
  let ?s = "str_trim s0"
  obtain mantissa e where m: "split_exponent p (drop_sign ?s) = Some (mantissa, e)"
    using assms by (auto simp: canonical_number_def Let_def split: option.splits)
  obtain whole fraction where wf: "(case split_once (CHR ''.'') mantissa of Some q \<Rightarrow> q | None \<Rightarrow> (mantissa, [])) = (whole, fraction)"
    by fastforce
  let ?all = "whole @ fraction"
  have ok: "\<forall>b \<in> set ?all. is_digit b"
    using assms by (auto simp: canonical_number_def Let_def m wf split: if_splits)
  have dot: "filter (\<lambda>c. c \<noteq> CHR ''.'') mantissa = ?all"
  proof -
    have keep: "filter (\<lambda>c. c \<noteq> CHR ''.'') xs = xs" if "\<forall>b \<in> set xs. is_digit b" for xs
      using that by (auto simp: filter_id_conv is_digit_def)
    from wf have "mantissa = whole @ CHR ''.'' # fraction \<or> mantissa = whole \<and> fraction = []"
      by (auto simp: split_once_Some split: option.splits)
    then show ?thesis using keep [of whole] keep [of fraction] ok by auto
  qed
  let ?digits = "dropWhile (\<lambda>c. c = CHR ''0'') ?all"
  let ?sig = "rev (dropWhile (\<lambda>c. c = CHR ''0'') (rev ?digits))"
  let ?zs = "rev (takeWhile (\<lambda>c. c = CHR ''0'') (rev ?digits))"
  have val: "decimal_value p s0 = Some (signed_scaled (take 1 ?s = ''-'') ?digits (e - int (length fraction)))"
    by (simp add: decimal_value_def m wf signed_scaled_def dval_drop_zeros Let_def)
  have split: "?digits = ?sig @ ?zs" by (simp add: rev_append [symmetric] del: rev_append)
  show ?thesis
  proof (cases "?digits = []")
    case True
    then have "(neg, sig, x) = (False, [], 0)"
      using assms by (auto simp: canonical_number_def Let_def m wf dot split: if_splits)
    then show ?thesis using val True by (simp add: signed_scaled_def normal_form_def)
  next
    case False
    let ?x = "e - int (length fraction) + int (length ?digits - length ?sig)"
    have c: "neg = (take 1 ?s = ''-'')" "sig = ?sig" "x = ?x"
      using assms False by (auto simp: canonical_number_def Let_def m wf dot i64_ok_def split: if_splits option.splits)
    have "length ?digits = length ?sig + length ?zs" using arg_cong [OF split, of length] by (simp only: length_append)
    then have len: "length ?digits - length ?sig = length ?zs" by (rule diff_eq_of_eq_add)
    have zs: "\<forall>c \<in> set ?zs. c = CHR ''0''" by (auto dest: set_takeWhileD)
    have "signed_scaled neg ?digits (e - int (length fraction)) = signed_scaled neg sig x"
      unfolding c(2,3) len by (rule strip_trailing [OF split zs])
    moreover have "normal_form (neg, sig, x)"
      using strip_both [of "\<lambda>c. c = CHR ''0''" ?all, OF False] ok
      unfolding c(2) normal_form_def no_lead_def all_digits_def prod.case by (simp only: if_False) blast
    ultimately show ?thesis using val c by simp
  qed
qed

text \<open>A normal form is determined by its value.\<close>

lemma normal_form_pos: "normal_form (neg, d, e) \<Longrightarrow> d \<noteq> [] \<Longrightarrow> 0 < dval d \<and> \<not> 10 dvd dval d"
proof -
  assume n: "normal_form (neg, d, e)" and ne: "d \<noteq> []"
  then have lead: "no_lead d" and last: "last d \<noteq> CHR ''0''" by (simp_all add: normal_form_def)
  obtain s c where d: "d = s @ [c]" using ne by (cases d rule: rev_cases) auto
  have c: "is_digit c" "c \<noteq> CHR ''0''" using lead last by (simp_all add: d no_lead_def all_digits_def)
  have "\<not> 10 dvd digit_of c" using digit_zero [OF c(1)] c(2) digit_bound [OF c(1)] by (auto dest: dvd_imp_le)
  then have "\<not> 10 dvd dval d" unfolding d dval_snoc by (simp add: dvd_add_right_iff)
  then show ?thesis by (cases "dval d = 0") simp_all
qed

lemma scaled_eq:
  assumes "of_nat m * (10::rat) powi e = of_nat n * 10 powi f" and "\<not> 10 dvd m" and "\<not> 10 dvd n"
  shows "e = f \<and> m = n"
proof -
  have le: "f \<le> e" if eq: "of_nat a * (10::rat) powi e = of_nat b * 10 powi f" and "\<not> 10 dvd a" for a b e f
  proof (rule ccontr)
    assume "\<not> f \<le> e"
    then have lt: "e < f" by simp
    have "(10::rat) powi f = 10 powi (f - e) * 10 powi e" by (simp add: power_int_add [symmetric])
    also have "(10::rat) powi (f - e) = 10 ^ nat (f - e)" using lt by (simp add: power_int_def)
    finally have "of_nat a = (of_nat b * 10 ^ nat (f - e) :: rat)" using eq by simp
    then have "a = b * 10 ^ nat (f - e)" by (metis of_nat_eq_iff of_nat_mult of_nat_numeral of_nat_power)
    then have "10 dvd a" using lt by (simp add: dvd_mult)
    then show False using \<open>\<not> 10 dvd a\<close> by simp
  qed
  have "e = f" using le [OF assms(1,2)] le [OF assms(1) [symmetric] assms(3)] by simp
  then show ?thesis using assms(1) by simp
qed

lemma normal_form_unique:
  assumes "normal_form (n1, d1, e1)" "normal_form (n2, d2, e2)"
    and "signed_scaled n1 d1 e1 = signed_scaled n2 d2 e2"
  shows "(n1, d1, e1) = (n2, d2, e2)"
proof -
  have zero: "signed_scaled n d e = 0 \<longleftrightarrow> d = []" if "normal_form (n, d, e)" for n d e
    using normal_form_pos [OF that] by (cases "d = []") (auto simp: signed_scaled_def)
  show ?thesis
  proof (cases "d1 = []")
    case True
    then have "d2 = []" using zero [OF assms(1)] zero [OF assms(2)] assms(3) by simp
    then show ?thesis using True assms(1,2) by (simp add: normal_form_def)
  next
    case False
    then have ne: "d2 \<noteq> []" using zero [OF assms(1)] zero [OF assms(2)] assms(3) by simp
    note p1 = normal_form_pos [OF assms(1) False] and p2 = normal_form_pos [OF assms(2) ne]
    have pos: "0 < of_nat (dval d1) * (10::rat) powi e1" "0 < of_nat (dval d2) * (10::rat) powi e2" using p1 p2 by simp_all
    then have sign: "n1 = n2" using assms(3) by (auto simp: signed_scaled_def split: if_splits)
    then have "of_nat (dval d1) * (10::rat) powi e1 = of_nat (dval d2) * 10 powi e2"
      using assms(3) by (cases n2) (simp_all add: signed_scaled_def)
    from scaled_eq [OF this] p1 p2 have "e1 = e2" "dval d1 = dval d2" by auto
    moreover have "no_lead d1" "no_lead d2" using assms(1,2) False ne by (simp_all add: normal_form_def)
    ultimately show ?thesis using sign dval_inj by simp
  qed
qed

text \<open>
  C36: An integer target is compared as a number, not as text and not through a float: two spellings the
  check can read are equal exactly when they denote the same rational, however they are signed, padded
  with zeros or scaled.
\<close>

theorem exact_numbers_by_value:
  assumes "canonical_number p a = Some x" and "canonical_number p b = Some y"
  shows "exact_numbers_equal p a b \<longleftrightarrow> decimal_value p a = decimal_value p b"
proof -
  obtain n1 d1 e1 n2 d2 e2 where xy: "x = (n1, d1, e1)" "y = (n2, d2, e2)" by (metis prod_cases3)
  note a = canonical_number_value [OF assms(1) [unfolded xy(1)]]
    and b = canonical_number_value [OF assms(2) [unfolded xy(2)]]
  show ?thesis
    using a b normal_form_unique [of n1 d1 e1 n2 d2 e2] by (auto simp: exact_numbers_equal_def assms xy)
qed

lemma exact_numbers_by_value_witness:
  "exact_numbers_equal (\<lambda>_. Some 3) ''1000'' ''1.0e3''"
proof -
  have a: "canonical_number (\<lambda>_. Some 3) ''1000'' = Some (False, ''1'', 3)"
    and b: "canonical_number (\<lambda>_. Some 3) ''1.0e3'' = Some (False, ''1'', 3)"
    by (simp_all add: canonical_number_def split_exponent_def str_trim_def drop_sign_def is_space_def is_digit_def
        is_exponent_mark_def i64_ok_def)
  from exact_numbers_by_value [OF a b] show ?thesis
    by (simp add: decimal_value_def split_exponent_def str_trim_def drop_sign_def is_space_def
        is_exponent_mark_def signed_scaled_def dval_def digit_of_def)
qed

definition demo_checks :: check_env where
  "demo_checks = \<lparr>ce_from_str = (\<lambda>_. None), ce_pointer = (\<lambda>_ _. None), ce_to_string = (\<lambda>_. []), ce_lower = id,
     ce_regex = (\<lambda>_ _. None), ce_find_number = (\<lambda>_. None), ce_parse_f64 = (\<lambda>_. None), ce_parse_i64 = (\<lambda>_. None),
     ce_show_f64 = (\<lambda>_. []), ce_run_exec = None\<rparr>"

lemma checks_score_zero_or_one_witness:
  "\<exists>det. evaluate_all demo_checks (demo_rubric [demo_dimension ''q'' DkExact 1, demo_dimension ''c'' DkLlm 1]) (Some ''yes'') ''yes''
      = Inr det \<and> map ds_key det = [''q'']"
proof -
  let ?r = "demo_rubric [demo_dimension ''q'' DkExact 1, demo_dimension ''c'' DkLlm 1]"
  obtain det where det: "evaluate_all demo_checks ?r (Some ''yes'') ''yes'' = Inr det"
    by (simp add: evaluate_all_def demo_rubric_def demo_dimension_def is_mechanical_def is_llm_def is_grounding_def evaluate_def
        select_def default_check_def evaluate_text_def check_target_def verdict_def Let_def)
  have "sandbox_sound demo_checks" by (simp add: sandbox_sound_def demo_checks_def)
  from checks_score_zero_or_one [OF det this] det show ?thesis
    by (simp add: demo_rubric_def demo_dimension_def is_mechanical_def is_llm_def is_grounding_def)
qed

end
