(* ===== verification/PoolMap.thy ===== *)
theory PoolMap
  imports LT_Prelude
begin

text \<open>
  The worker pool of \<^verbatim>\<open>crates/engine/src/pool.rs\<close>: scoped threads that claim indices from one
  atomic counter, call the blocking work outside any lock and store each result in its own slot. A
  schedule is a sequence of atomic steps of the workers; the log of calls is recorded beside the slots.
  A panic of the work, which poisons the lock, is not modelled.
\<close>

datatype worker = Ready | Running nat | Quit

record 'a pool =
  po_next :: nat
  po_slots :: "'a option list"
  po_workers :: "worker list"
  po_calls :: "nat list"

definition pool_start :: "nat \<Rightarrow> nat \<Rightarrow> 'a pool" where
  "pool_start n jobs = \<lparr>po_next = 0, po_slots = replicate n None, po_workers = replicate jobs Ready, po_calls = []\<rparr>"

inductive pool_step :: "nat \<Rightarrow> (nat \<Rightarrow> 'a) \<Rightarrow> 'a pool \<Rightarrow> 'a pool \<Rightarrow> bool" for n f where
  claim: "w < length (po_workers s) \<Longrightarrow> po_workers s ! w = Ready \<Longrightarrow> po_next s < n
    \<Longrightarrow> pool_step n f s (s\<lparr>po_next := po_next s + 1, po_workers := (po_workers s)[w := Running (po_next s)],
          po_calls := po_calls s @ [po_next s]\<rparr>)"
| quit: "w < length (po_workers s) \<Longrightarrow> po_workers s ! w = Ready \<Longrightarrow> n \<le> po_next s
    \<Longrightarrow> pool_step n f s (s\<lparr>po_next := po_next s + 1, po_workers := (po_workers s)[w := Quit]\<rparr>)"
| store: "w < length (po_workers s) \<Longrightarrow> po_workers s ! w = Running i
    \<Longrightarrow> pool_step n f s (s\<lparr>po_slots := (po_slots s)[i := Some (f i)], po_workers := (po_workers s)[w := Ready]\<rparr>)"

inductive_cases pool_stepE: "pool_step n f s s'"

inductive pool_run :: "nat \<Rightarrow> (nat \<Rightarrow> 'a) \<Rightarrow> 'a pool \<Rightarrow> 'a pool \<Rightarrow> bool" for n f where
  pool_run_refl: "pool_run n f s s"
| pool_run_step: "pool_run n f s s' \<Longrightarrow> pool_step n f s' s'' \<Longrightarrow> pool_run n f s s''"

definition all_quit :: "'a pool \<Rightarrow> bool" where
  "all_quit s \<longleftrightarrow> (\<forall>w \<in> set (po_workers s). w = Quit)"

definition pool_jobs :: "nat \<Rightarrow> nat \<Rightarrow> nat" where
  "pool_jobs n jobs = max 1 (min jobs (max n 1))"

text \<open>What the call may return, and the sequential map it is written to agree with.\<close>

definition parallel_map :: "nat \<Rightarrow> nat \<Rightarrow> (nat \<Rightarrow> 'a) \<Rightarrow> 'a list \<Rightarrow> bool" where
  "parallel_map n jobs f out \<longleftrightarrow>
     (if pool_jobs n jobs = 1 \<or> n \<le> 1 then out = map f [0..<n]
      else \<exists>s. pool_run n f (pool_start n (pool_jobs n jobs)) s \<and> all_quit s \<and> po_slots s = map Some out)"

section \<open>The invariant of a schedule\<close>

definition pool_inv :: "nat \<Rightarrow> (nat \<Rightarrow> 'a) \<Rightarrow> nat \<Rightarrow> 'a pool \<Rightarrow> bool" where
  "pool_inv n f jobs s \<longleftrightarrow> length (po_slots s) = n \<and> length (po_workers s) = jobs
     \<and> (\<forall>i. Running i \<in> set (po_workers s) \<longrightarrow> i < n \<and> i < po_next s)
     \<and> (\<forall>i < n. po_slots s ! i = Some (f i)
          \<or> po_slots s ! i = None \<and> (po_next s \<le> i \<or> Running i \<in> set (po_workers s)))
     \<and> (Quit \<in> set (po_workers s) \<longrightarrow> n \<le> po_next s)
     \<and> po_calls s = [0..<min n (po_next s)]"

lemma pool_inv_start: "pool_inv n f jobs (pool_start n jobs)"
  by (auto simp: pool_inv_def pool_start_def)

lemma set_update_keeps: "x \<in> set xs \<Longrightarrow> xs ! w \<noteq> x \<Longrightarrow> x \<in> set (xs[w := y])"
  by (metis in_set_conv_nth length_list_update nth_list_update_neq)

lemma set_update_in: "w < length xs \<Longrightarrow> y \<in> set (xs[w := y])"
  by (rule set_update_memI)

lemma set_update_from: "x \<in> set (xs[w := y]) \<Longrightarrow> x = y \<or> x \<in> set xs"
  using set_update_subset_insert [of xs w y] by blast

lemma pool_inv_step:
  assumes "pool_step n f s s'" and "pool_inv n f jobs s"
  shows "pool_inv n f jobs s'"
  using assms(1)
proof (cases rule: pool_step.cases)
  case (claim w)
  have "min n (po_next s) = po_next s" "min n (po_next s + 1) = po_next s + 1" using claim(4) by simp_all
  then have calls: "po_calls s @ [po_next s] = [0..<min n (po_next s + 1)]" using assms(2) by (simp add: pool_inv_def)
  have keep: "Running i \<in> set ((po_workers s)[w := Running (po_next s)])" if "Running i \<in> set (po_workers s)" for i
    using that claim(3) by (intro set_update_keeps) simp_all
  have new: "Running (po_next s) \<in> set ((po_workers s)[w := Running (po_next s)])" using claim(2) by (rule set_update_in)
  have "po_slots s ! i = Some (f i) \<or> po_slots s ! i = None \<and> (po_next s + 1 \<le> i
      \<or> Running i \<in> set ((po_workers s)[w := Running (po_next s)]))" if "i < n" for i
    using assms(2) that keep new unfolding pool_inv_def by (metis Suc_eq_plus1 Suc_leI le_neq_implies_less)
  moreover have "i < n \<and> i < po_next s + 1" if "Running i \<in> set ((po_workers s)[w := Running (po_next s)])" for i
    using set_update_from [OF that] assms(2) claim(4) by (auto simp: pool_inv_def)
  moreover have "Quit \<notin> set ((po_workers s)[w := Running (po_next s)])"
    using set_update_from [of Quit "po_workers s" w "Running (po_next s)"] assms(2) claim(4) by (auto simp: pool_inv_def)
  ultimately show ?thesis using assms(2) calls unfolding claim(1) by (simp add: pool_inv_def)
next
  case (quit w)
  have keep: "Running i \<in> set ((po_workers s)[w := Quit])" if "Running i \<in> set (po_workers s)" for i
    using that quit(3) by (intro set_update_keeps) simp_all
  have from_old: "Running i \<in> set (po_workers s)" if "Running i \<in> set ((po_workers s)[w := Quit])" for i
    using set_update_from [OF that] by simp
  show ?thesis using assms(2) keep from_old quit(4) unfolding quit(1) by (fastforce simp: pool_inv_def)
next
  case (store w i)
  have i: "i < n" "i < po_next s" using assms(2) store nth_mem [OF store(2)] by (auto simp: pool_inv_def)
  have keep: "Running j \<in> set ((po_workers s)[w := Ready])" if "Running j \<in> set (po_workers s)" "j \<noteq> i" for j
    using that store(3) by (intro set_update_keeps) simp_all
  have from_old: "Running j \<in> set (po_workers s)" if "Running j \<in> set ((po_workers s)[w := Ready])" for j
    using set_update_from [OF that] by simp
  have slots: "(po_slots s)[i := Some (f i)] ! j = Some (f j) \<or> (po_slots s)[i := Some (f i)] ! j = None
      \<and> (po_next s \<le> j \<or> Running j \<in> set ((po_workers s)[w := Ready]))" if "j < n" for j
    using assms(2) that keep [of j] by (cases "j = i") (auto simp: pool_inv_def)
  have "Quit \<in> set (po_workers s)" if "Quit \<in> set ((po_workers s)[w := Ready])" using set_update_from [OF that] by simp
  then show ?thesis using assms(2) slots from_old unfolding store(1) by (simp add: pool_inv_def)
qed

lemma pool_inv_run: "pool_run n f s s' \<Longrightarrow> pool_inv n f jobs s \<Longrightarrow> pool_inv n f jobs s'"
  by (induction rule: pool_run.induct) (auto intro: pool_inv_step)

lemma pool_inv_final:
  assumes "pool_inv n f jobs s" and "all_quit s" and "0 < jobs"
  shows "po_slots s = map (\<lambda>i. Some (f i)) [0..<n] \<and> po_calls s = [0..<n]"
proof -
  have q: "Quit \<in> set (po_workers s)" using assms by (cases "po_workers s") (auto simp: pool_inv_def all_quit_def)
  then have next_n: "n \<le> po_next s" using assms(1) by (simp add: pool_inv_def)
  have "Running i \<notin> set (po_workers s)" for i using assms(2) by (auto simp: all_quit_def)
  then have "po_slots s ! i = Some (f i)" if "i < n" for i using assms(1) next_n that by (fastforce simp: pool_inv_def)
  then have "po_slots s = map (\<lambda>i. Some (f i)) [0..<n]"
    using assms(1) by (intro nth_equalityI) (simp_all add: pool_inv_def)
  then show ?thesis using assms(1) next_n by (simp add: pool_inv_def)
qed

section \<open>No schedule gets stuck or runs on\<close>

definition worker_left :: "worker \<Rightarrow> nat" where
  "worker_left w = (case w of Ready \<Rightarrow> 1 | Running i \<Rightarrow> 2 | Quit \<Rightarrow> 0)"

definition pool_left :: "nat \<Rightarrow> 'a pool \<Rightarrow> nat" where
  "pool_left n s = 2 * (n - po_next s) + sum_list (map worker_left (po_workers s))"

lemma sum_list_worker:
  "w < length ws \<Longrightarrow> sum_list (map worker_left (ws[w := v])) + worker_left (ws ! w)
     = sum_list (map worker_left ws) + worker_left v"
proof (induction ws arbitrary: w)
  case (Cons a ws)
  then show ?case by (cases w) (auto simp: add.assoc add.left_commute)
qed simp

lemma pool_left_step:
  assumes "pool_step n f s s'"
  shows "pool_left n s' < pool_left n s"
  using assms
proof (cases rule: pool_step.cases)
  case (claim w)
  with sum_list_worker [OF claim(2), of "Running (po_next s)"] show ?thesis by (simp add: pool_left_def worker_left_def)
next
  case (quit w)
  with sum_list_worker [OF quit(2), of Quit] show ?thesis by (simp add: pool_left_def worker_left_def)
next
  case (store w i)
  with sum_list_worker [OF store(2), of Ready] show ?thesis by (simp add: pool_left_def worker_left_def)
qed

lemma pool_progress: "all_quit s \<or> (\<exists>s'. pool_step n f s s')"
proof (cases "all_quit s")
  case False
  then obtain w where w: "w < length (po_workers s)" "po_workers s ! w \<noteq> Quit"
    by (auto simp: all_quit_def in_set_conv_nth)
  then show ?thesis by (cases "po_workers s ! w") (metis claim quit store not_le)+
qed simp

lemma pool_run_first: "pool_run n f s' t \<Longrightarrow> pool_step n f s s' \<Longrightarrow> pool_run n f s t"
  by (induction rule: pool_run.induct) (blast intro: pool_run.intros)+

lemma pool_finishes: "\<exists>s'. pool_run n f s s' \<and> all_quit s'"
proof (induction "pool_left n s" arbitrary: s rule: less_induct)
  case less
  show ?case
  proof (cases "all_quit s")
    case False
    then obtain s' where s': "pool_step n f s s'" using pool_progress [of s n f] by blast
    from less [OF pool_left_step [OF s']] obtain t where t: "pool_run n f s' t" "all_quit t" by blast
    then show ?thesis using pool_run_first s' by blast
  qed (blast intro: pool_run.intros)
qed

text \<open>
  C10: The pool is the sequential map. However the workers interleave, the call returns exactly the list a
  single worker would have built, in index order; some schedule returns it, every step of a schedule
  makes progress towards the end, and a finished schedule has called the work once for each index.
\<close>

theorem parallel_map_is_map:
  "(parallel_map n jobs f out \<longleftrightarrow> out = map f [0..<n])
   \<and> (\<forall>s. pool_run n f (pool_start n (pool_jobs n jobs)) s \<longrightarrow>
        (all_quit s \<longrightarrow> po_calls s = [0..<n]) \<and> (\<not> all_quit s \<longrightarrow> (\<exists>s'. pool_step n f s s'))
        \<and> (\<forall>s'. pool_step n f s s' \<longrightarrow> pool_left n s' < pool_left n s))"
proof
  have pos: "0 < pool_jobs n jobs" by (simp add: pool_jobs_def)
  have fin: "po_slots s = map (\<lambda>i. Some (f i)) [0..<n] \<and> po_calls s = [0..<n]"
    if "pool_run n f (pool_start n (pool_jobs n jobs)) s" "all_quit s" for s
    using pool_inv_final [OF pool_inv_run [OF that(1) pool_inv_start] that(2) pos] .
  obtain s where s: "pool_run n f (pool_start n (pool_jobs n jobs)) s" "all_quit s" using pool_finishes by blast
  have some: "map Some out = map (\<lambda>i. Some (f i)) [0..<n] \<longleftrightarrow> out = map f [0..<n]"
    by (metis (no_types, lifting) comp_apply inj_Some list.inj_map_strong list.map_comp map_eq_conv option.inject)
  show "parallel_map n jobs f out \<longleftrightarrow> out = map f [0..<n]"
  proof (cases "pool_jobs n jobs = 1 \<or> n \<le> 1")
    case False
    then have "parallel_map n jobs f out \<longleftrightarrow> (\<exists>s. pool_run n f (pool_start n (pool_jobs n jobs)) s \<and> all_quit s
        \<and> po_slots s = map Some out)" by (simp add: parallel_map_def)
    also have "\<dots> \<longleftrightarrow> out = map f [0..<n]" using fin s some by metis
    finally show ?thesis .
  qed (simp add: parallel_map_def)
  show "\<forall>s. pool_run n f (pool_start n (pool_jobs n jobs)) s \<longrightarrow>
        (all_quit s \<longrightarrow> po_calls s = [0..<n]) \<and> (\<not> all_quit s \<longrightarrow> (\<exists>s'. pool_step n f s s'))
        \<and> (\<forall>s'. pool_step n f s s' \<longrightarrow> pool_left n s' < pool_left n s)"
    using fin pool_progress pool_left_step by blast
qed

lemma parallel_map_is_map_witness:
  "parallel_map 3 2 (\<lambda>i. i * i) [0, 1, 4]
   \<and> (\<forall>s. \<not> (pool_run 3 (\<lambda>i. i * i) (pool_start 3 2) s \<and> all_quit s \<and> po_calls s \<noteq> [0, 1, 2]))"
proof -
  have jobs: "pool_jobs 3 2 = 2" by (simp add: pool_jobs_def)
  have upt: "[0..<3] = [0, 1, 2]" by (simp add: upt_rec)
  show ?thesis using parallel_map_is_map [of 3 2 "\<lambda>i. i * i" "[0, 1, 4]"] unfolding jobs upt by auto
qed

end
