(* ===== verification/JudgeRun.thy ===== *)
theory JudgeRun
  imports JudgeCheck PoolMap
begin

text \<open>
  The judge runs that produce and stamp an outcome: the claim-level grounding of one sample
  (\<^verbatim>\<open>crates/engine/src/judge/grounding.rs\<close>), one case (\<open>judge_grounded_with\<close>, \<open>judge_case\<close> of
  \<^verbatim>\<open>judge.rs\<close>), a batch of cases (\<^verbatim>\<open>judge/batch.rs\<close>) and the freeform contract
  (\<^verbatim>\<open>judge/freeform.rs\<close>). The provider's generation is an argument, and so is the supply of
  nonces: \<open>nonce i j\<close> is the one the \<open>j\<close>-th fence of sample \<open>i\<close> mints. By theory PoolMap the calls of
  \<open>pool::parallel_map\<close> are a \<open>map\<close> over the sample indices, whatever the number of workers.
\<close>

section \<open>The provider behind a sample\<close>

definition parse_judge_spec :: "string \<Rightarrow> string \<times> string" where
  "parse_judge_spec spec = (case split_once (CHR ''/'') spec of
     Some (p, m) \<Rightarrow> if p \<noteq> [] \<and> m \<noteq> [] then (p, m) else (''anthropic'', spec)
   | None \<Rightarrow> (''anthropic'', spec))"

definition provider_gen :: "(string \<Rightarrow> engine_error + gen_outcome) \<Rightarrow> (string \<Rightarrow> engine_error + gen_outcome) \<Rightarrow> nat
    \<Rightarrow> generator" where
  "provider_gen generate generate_deterministic samples =
     (\<lambda>index prompt. if 1 < samples
        then map_sum id (\<lambda>out. out\<lparr>go_determinism := Sampled\<rparr>) (generate prompt)
        else generate_deterministic prompt)"

fun collect :: "('e + 'a) list \<Rightarrow> 'e + 'a list" where
  "collect [] = Inr []"
| "collect (Inl e # xs) = Inl e"
| "collect (Inr x # xs) = map_sum id (\<lambda>ys. x # ys) (collect xs)"

section \<open>Grounding one sample\<close>

record grounding =
  gr_output :: string
  gr_evidence :: "string list"
  gr_decompose :: generator
  gr_verify :: generator

definition grounding_dim :: "rubric \<Rightarrow> bool \<Rightarrow> engine_error + rubric_dimension option" where
  "grounding_dim r has_evidence =
     (case filter (\<lambda>d. is_grounding (rd_kind d)) (rb_dimensions r) of
        [] \<Rightarrow> Inr None
      | d # second # _ \<Rightarrow> Inl (Other (''rubric dimensions '' @ [quote] @ rd_key d @ [quote] @ '' and '' @ [quote]
          @ rd_key second @ [quote] @ '' are both `grounding`; the procedure takes no per-dimension setting, ''
          @ ''so a second one would bill the same verdict twice''))
      | [d] \<Rightarrow> if has_evidence then Inr (Some d)
          else Inl (Other (''rubric dimension '' @ [quote] @ rd_key d @ [quote]
            @ '' is `grounding` but this case carries no evidence passages ''
            @ ''(judge it through run_rubric_judge_with_evidence; batched judging carries none)'')))"

definition empty_ground :: ground_sample where
  "empty_ground = \<lparr>gs_score = None, gs_reasoning = [], gs_verdicts = [], gs_missing = 0, gs_stray = 0\<rparr>"

definition ground :: "json_env \<Rightarrow> (nat \<Rightarrow> string) \<Rightarrow> grounding \<Rightarrow> nat \<Rightarrow> engine_error + ground_sample parsed" where
  "ground je nonce g index =
     (let dp = decompose_prompt (nonce 0) (gr_output g) in
      case sample_parsed (gr_decompose g) (nonce 1) index (pr_text dp) (parse_claims je) of
        Inl e \<Rightarrow> Inl e
      | Inr step \<Rightarrow>
          (let step = step\<lparr>pd_injection_suspected := pd_injection_suspected step \<or> pr_injection_suspected dp\<rparr>;
               out = absorb parsed_empty step
           in case pd_value step of
             None \<Rightarrow> Inr out
           | Some [] \<Rightarrow> Inr (out\<lparr>pd_value := Some empty_ground\<rparr>)
           | Some (c # cs) \<Rightarrow>
               (let vp = verify_prompt (nonce 2) (gr_evidence g) (c # cs) in
                case sample_parsed (gr_verify g) (nonce 3) index (pr_text vp) (parse_verdicts je) of
                  Inl e \<Rightarrow> Inl e
                | Inr reading \<Rightarrow>
                    (let reading = reading\<lparr>pd_injection_suspected := pd_injection_suspected reading \<or> pr_injection_suspected vp\<rparr>
                     in Inr ((absorb out reading)\<lparr>pd_value := map_option (score_claims index (c # cs)) (pd_value reading)\<rparr>)))))"

definition ground_dims :: "rubric_dimension \<Rightarrow> ground_sample \<Rightarrow> sample_dims \<Rightarrow> sample_dims" where
  "ground_dims d gs dims = (case gs_score gs of Some x \<Rightarrow> dims @ [(rd_key d, x, gs_reasoning gs)] | None \<Rightarrow> dims)"

definition sample_case :: "json_env \<Rightarrow> (nat \<Rightarrow> string) \<Rightarrow> generator \<Rightarrow> rubric \<Rightarrow> string \<Rightarrow> nat
    \<Rightarrow> (rubric_dimension \<times> grounding) option \<Rightarrow> engine_error + sample_dims parsed \<times> ground_sample option" where
  "sample_case je nonce gen r prompt index grounded =
     (case (if has_llm_dims r then sample_parsed gen (nonce 4) index prompt (parse_sample je r)
            else Inr (parsed_empty\<lparr>pd_value := Some []\<rparr>)) of
        Inl e \<Rightarrow> Inl e
      | Inr s \<Rightarrow>
          (case grounded of
             None \<Rightarrow> Inr (s, None)
           | Some (d, g) \<Rightarrow>
               (case ground je nonce g index of
                  Inl e \<Rightarrow> Inl e
                | Inr step \<Rightarrow>
                    (let s = absorb s step in
                     case (pd_value s, pd_value step) of
                       (Some dims, Some gs) \<Rightarrow> Inr (s\<lparr>pd_value := Some (ground_dims d gs dims)\<rparr>, Some gs)
                     | _ \<Rightarrow> Inr (s\<lparr>pd_value := None\<rparr>, None)))))"

section \<open>The detail a grounding dimension carries\<close>

definition MAX_REASONING_CHARS :: nat where
  "MAX_REASONING_CHARS = 600"

definition MAX_CLAIMS_PER_DIM :: nat where
  "MAX_CLAIMS_PER_DIM = 32"

definition cap_str :: "string \<Rightarrow> string" where
  "cap_str s = (if char_count s \<le> MAX_REASONING_CHARS then s else take_chars (MAX_REASONING_CHARS - 1) s @ ellipsis)"

definition detail_capped :: "grounding_detail \<Rightarrow> grounding_detail" where
  "detail_capped g = g\<lparr>gd_claims := map (\<lambda>c. c\<lparr>cv_claim := cap_str (cv_claim c), cv_reason := cap_str (cv_reason c)\<rparr>)
     (take MAX_CLAIMS_PER_DIM (gd_claims g))\<rparr>"

definition grounding_detail_of :: "string \<Rightarrow> ground_sample option list \<Rightarrow> grounding_detail" where
  "grounding_detail_of pin grounds =
     (let scored = List.map_filter id grounds in
      detail_capped \<lparr>gd_version = pin, gd_claims = concat (map gs_verdicts scored),
        gd_claims_issued = sum_list (map (length \<circ> gs_verdicts) scored), gd_missing_verdicts = sum_list (map gs_missing scored),
        gd_stray_verdicts = sum_list (map gs_stray scored), gd_unscored_samples = length (filter (\<lambda>g. gs_score g = None) scored)\<rparr>)"

fun stamp_dims :: "string \<Rightarrow> grounding_detail \<Rightarrow> dim_score list \<Rightarrow> dim_score list" where
  "stamp_dims key detail [] = []"
| "stamp_dims key detail (d # ds) =
     (if dm_key d = key
      then d\<lparr>dm_reasonings := dm_reasonings d @ (if dm_voided d
               then [''grounding: the output yielded zero claims '' @ arrow @ '' unscored''] else []),
             dm_grounding := Some detail\<rparr> # ds
      else d # stamp_dims key detail ds)"

definition stamp :: "string \<Rightarrow> rubric_outcome \<Rightarrow> rubric_dimension \<Rightarrow> ground_sample option list \<Rightarrow> rubric_outcome" where
  "stamp pin out d grounds =
     out\<lparr>ro_dimensions := stamp_dims (rd_key d) (grounding_detail_of pin grounds) (ro_dimensions out)\<rparr>"

section \<open>One case\<close>

definition judge_samples :: "rubric \<Rightarrow> rubric_dimension option \<Rightarrow> nat \<Rightarrow> nat" where
  "judge_samples r gdim samples = (if has_llm_dims r \<or> gdim \<noteq> None then max samples 1 else 0)"

definition any_injection :: "prompt \<Rightarrow> 'v parsed list \<Rightarrow> bool" where
  "any_injection p results \<longleftrightarrow> pr_injection_suspected p \<or> (\<exists>r \<in> set results. pd_injection_suspected r)"

definition fold_determinism :: "'v parsed list \<Rightarrow> determinism" where
  "fold_determinism results = fold (\<lambda>r acc. weakest acc (pd_determinism r)) results Exact"

definition judge_grounded_with :: "json_env \<Rightarrow> (nat \<Rightarrow> nat \<Rightarrow> string) \<Rightarrow> string \<Rightarrow> generator \<Rightarrow> rubric \<Rightarrow> prompt \<Rightarrow> string
    \<Rightarrow> nat \<Rightarrow> det_score list \<Rightarrow> grounding option \<Rightarrow> engine_error + rubric_outcome" where
  "judge_grounded_with je nonce pin gen r p model samples det grounding =
     (case grounding_dim r (grounding \<noteq> None) of
        Inl e \<Rightarrow> Inl e
      | Inr gdim \<Rightarrow>
          (let k = judge_samples r gdim samples;
               grounded = (case (gdim, grounding) of (Some d, Some g) \<Rightarrow> Some (d, g) | _ \<Rightarrow> None)
           in case collect (map (\<lambda>i. sample_case je (nonce i) gen r (pr_text p) i grounded) [0..<k]) of
             Inl e \<Rightarrow> Inl e
           | Inr pairs \<Rightarrow>
               (let results = map fst pairs in
                case aggregate results r model k det of
                  Inl e \<Rightarrow> Inl e
                | Inr out \<Rightarrow>
                    (let out = (case gdim of Some d \<Rightarrow> stamp pin out d (map snd pairs) | None \<Rightarrow> out)
                     in Inr (out\<lparr>ro_injection_suspected := any_injection p results,
                               ro_determinism := fold_determinism results\<rparr>)))))"

text \<open>The text of one judged case, and the three generators of its provider.\<close>

record judged_case =
  jc_input :: string
  jc_expected :: "string option"
  jc_output :: string
  jc_evidence :: "string list option"

record judge_gens =
  jg_rubric :: generator
  jg_decompose :: generator
  jg_verify :: generator

definition judge_case :: "json_env \<Rightarrow> (nat \<Rightarrow> nat \<Rightarrow> string) \<Rightarrow> string \<Rightarrow> string \<Rightarrow> (f64 \<Rightarrow> string) \<Rightarrow> check_env \<Rightarrow> judge_gens
    \<Rightarrow> string \<Rightarrow> rubric \<Rightarrow> judged_case \<Rightarrow> nat \<Rightarrow> engine_error + rubric_outcome" where
  "judge_case je nonce pin first_nonce show_weight ce gens model r c samples =
     (case grounding_dim r (jc_evidence c \<noteq> None) of
        Inl e \<Rightarrow> Inl e
      | Inr _ \<Rightarrow>
          (case evaluate_all ce r (jc_expected c) (jc_output c) of
             Inl e \<Rightarrow> Inl e
           | Inr det \<Rightarrow>
               (let p = build_rubric_prompt first_nonce show_weight r (jc_input c) (jc_expected c) (jc_output c);
                    g = map_option (\<lambda>evidence. \<lparr>gr_output = jc_output c, gr_evidence = evidence,
                          gr_decompose = jg_decompose gens, gr_verify = jg_verify gens\<rparr>) (jc_evidence c)
                in judge_grounded_with je nonce pin (jg_rubric gens) r p model samples det g)))"

section \<open>A batch of cases\<close>

definition batch_ids :: "nat \<Rightarrow> string list" where
  "batch_ids n = map case_id [0..<n]"

definition batch_sample :: "json_env \<Rightarrow> (nat \<Rightarrow> string) \<Rightarrow> (f64 \<Rightarrow> string) \<Rightarrow> generator \<Rightarrow> rubric \<Rightarrow> batch_case list \<Rightarrow> nat
    \<Rightarrow> engine_error + batch_dims parsed" where
  "batch_sample je nonce show_weight gen r cases s =
     (let n = length cases;
          p = build_batch_rubric_prompt (nonce 0) show_weight r (map (\<lambda>i. (case_id i, cases ! i)) (rotated n s))
      in map_sum id (\<lambda>b. b\<lparr>pd_injection_suspected := pd_injection_suspected b \<or> pr_injection_suspected p\<rparr>)
        (sample_parsed gen (nonce 1) s (pr_text p) (parse_batch je r (batch_ids n))))"

definition batch_outcome :: "rubric \<Rightarrow> string \<Rightarrow> nat \<Rightarrow> nat \<Rightarrow> batch_dims parsed list \<Rightarrow> nat \<Rightarrow> det_score list
    \<Rightarrow> engine_error + rubric_outcome" where
  "batch_outcome r model n k batched i det =
     (let per_case = map (\<lambda>b. split_for b (case_id i) n) batched in
      map_sum id (\<lambda>out. out\<lparr>ro_injection_suspected := (\<exists>p \<in> set per_case. pd_injection_suspected p),
          ro_determinism := fold_determinism per_case, ro_batch_size := Some n\<rparr>)
        (aggregate per_case r model k det))"

definition batch_samples :: "rubric \<Rightarrow> nat \<Rightarrow> nat" where
  "batch_samples r samples = (if has_llm_dims r then max samples 1 else 0)"

definition batch_with :: "json_env \<Rightarrow> (nat \<Rightarrow> nat \<Rightarrow> string) \<Rightarrow> (f64 \<Rightarrow> string) \<Rightarrow> check_env \<Rightarrow> generator \<Rightarrow> rubric
    \<Rightarrow> batch_case list \<Rightarrow> string \<Rightarrow> nat \<Rightarrow> engine_error + (engine_error + rubric_outcome) list" where
  "batch_with je nonce show_weight ce gen r cases model samples =
     (case grounding_dim r False of
        Inl e \<Rightarrow> Inl e
      | Inr _ \<Rightarrow>
          (case collect (map (\<lambda>c. evaluate_all (ce\<lparr>ce_run_exec := None\<rparr>) r (bc_expected c) (bc_output c)) cases) of
             Inl e \<Rightarrow> Inl e
           | Inr det \<Rightarrow>
               (let n = length cases; k = batch_samples r samples
                in case collect (map (\<lambda>s. batch_sample je (nonce s) show_weight gen r cases s) [0..<k]) of
                  Inl e \<Rightarrow> Inl e
                | Inr batched \<Rightarrow> Inr (map (\<lambda>i. batch_outcome r model n k batched i (det ! i)) [0..<n]))))"

section \<open>The freeform contract\<close>

record judge_verdict =
  jv_score :: f64
  jv_max :: f64
  jv_pass :: bool
  jv_reasoning :: string

record freeform_contract =
  fc_criteria :: string
  fc_threshold :: f64
  fc_id :: string

definition freeform_id :: "(string \<Rightarrow> nat list) \<Rightarrow> string \<Rightarrow> string" where
  "freeform_id sha256 criteria = ''freeform:'' @ concat (map (\<lambda>b. [hex_char (b div 16), hex_char (b mod 16)]) (take 8 (sha256 criteria)))"

definition with_threshold :: "(string \<Rightarrow> nat list) \<Rightarrow> string \<Rightarrow> f64 \<Rightarrow> freeform_contract" where
  "with_threshold sha256 criteria threshold =
     \<lparr>fc_criteria = criteria, fc_threshold = fclamp threshold 0 1, fc_id = freeform_id sha256 criteria\<rparr>"

record freeform_outcome =
  fo_verdict :: judge_verdict
  fo_overall :: f64
  fo_pass :: bool
  fo_threshold :: f64
  fo_contract_id :: string
  fo_samples :: nat
  fo_samples_parsed :: nat
  fo_parse_failures :: nat
  fo_agreement :: f64
  fo_cost_usd :: "f64 option"
  fo_model :: string
  fo_latency_ms :: nat
  fo_input_tokens :: nat
  fo_output_tokens :: nat
  fo_injection_suspected :: bool
  fo_determinism :: determinism

definition model_dissented :: "freeform_outcome \<Rightarrow> bool" where
  "model_dissented out = (jv_pass (fo_verdict out) \<noteq> fo_pass out)"

text \<open>\<open>serde_json::from_str\<close> at the type of a verdict is an argument.\<close>

definition parse_verdict :: "(string \<Rightarrow> json option) \<Rightarrow> (string \<Rightarrow> judge_verdict option) \<Rightarrow> string \<Rightarrow> judge_verdict option" where
  "parse_verdict from_str verdict_from raw = Option.bind (extract_json_object from_str raw) verdict_from"

definition normalized :: "judge_verdict \<Rightarrow> f64" where
  "normalized v = (if 0 < jv_max v then jv_score v / jv_max v else jv_score v)"

text \<open>
  The fold of the samples of a freeform verdict: the readings in order, the readings' bookkeeping and
  the first raw text that could not be read.
\<close>

record freeform_tally =
  ft_verdicts :: "judge_verdict list"
  ft_total_cost :: f64
  ft_any_cost :: bool
  ft_max_latency :: nat
  ft_in_tok :: nat
  ft_out_tok :: nat
  ft_model_used :: string
  ft_parse_failures :: nat
  ft_first_raw_failure :: "string option"
  ft_injection :: bool
  ft_determinism :: determinism

definition freeform_step :: "judge_verdict parsed \<Rightarrow> freeform_tally \<Rightarrow> freeform_tally" where
  "freeform_step p t = t\<lparr>
     ft_verdicts := (case pd_value p of Some v \<Rightarrow> ft_verdicts t @ [v] | None \<Rightarrow> ft_verdicts t),
     ft_total_cost := (case pd_cost_usd p of Some c \<Rightarrow> ft_total_cost t + c | None \<Rightarrow> ft_total_cost t),
     ft_any_cost := ft_any_cost t \<or> pd_cost_usd p \<noteq> None,
     ft_max_latency := max (ft_max_latency t) (pd_latency_ms p),
     ft_in_tok := ft_in_tok t + pd_input_tokens p, ft_out_tok := ft_out_tok t + pd_output_tokens p,
     ft_model_used := (if pd_model p = [] then ft_model_used t else pd_model p),
     ft_parse_failures := ft_parse_failures t + (if pd_value p = None then 1 else 0),
     ft_first_raw_failure := (if pd_value p = None \<and> ft_first_raw_failure t = None then pd_raw_failure p
        else ft_first_raw_failure t),
     ft_injection := ft_injection t \<or> pd_injection_suspected p,
     ft_determinism := weakest (ft_determinism t) (pd_determinism p)\<rparr>"

definition freeform_start :: "prompt \<Rightarrow> string \<Rightarrow> freeform_tally" where
  "freeform_start p model = \<lparr>ft_verdicts = [], ft_total_cost = 0, ft_any_cost = False, ft_max_latency = 0, ft_in_tok = 0,
     ft_out_tok = 0, ft_model_used = model, ft_parse_failures = 0, ft_first_raw_failure = None,
     ft_injection = pr_injection_suspected p, ft_determinism = Exact\<rparr>"

definition aggregate_freeform :: "judge_verdict parsed list \<Rightarrow> freeform_contract \<Rightarrow> prompt \<Rightarrow> string \<Rightarrow> nat
    \<Rightarrow> engine_error + freeform_outcome" where
  "aggregate_freeform results contract p model k =
     (let t = fold freeform_step results (freeform_start p model);
          normals = map normalized (ft_verdicts t)
      in case ft_verdicts t of
        [] \<Rightarrow> Inl (Parse (case ft_first_raw_failure t of
            Some raw \<Rightarrow> ''no parseable freeform judge sample; last raw output: '' @ raw
          | None \<Rightarrow> ''freeform judge produced no parseable samples''))
      | v # _ \<Rightarrow>
          (let overall = fsum normals / f64_of_int (int (length normals)) in
           Inr \<lparr>fo_verdict = v, fo_overall = overall, fo_pass = (fc_threshold contract \<le> overall),
             fo_threshold = fc_threshold contract, fo_contract_id = fc_id contract, fo_samples = k,
             fo_samples_parsed = length (ft_verdicts t), fo_parse_failures = ft_parse_failures t,
             fo_agreement = agreement_of normals, fo_cost_usd = (if ft_any_cost t then Some (ft_total_cost t) else None),
             fo_model = ft_model_used t, fo_latency_ms = ft_max_latency t, fo_input_tokens = ft_in_tok t,
             fo_output_tokens = ft_out_tok t, fo_injection_suspected = ft_injection t, fo_determinism = ft_determinism t\<rparr>))"

definition freeform_with :: "(string \<Rightarrow> judge_verdict option) \<Rightarrow> (nat \<Rightarrow> string) \<Rightarrow> generator \<Rightarrow> freeform_contract \<Rightarrow> prompt
    \<Rightarrow> string \<Rightarrow> nat \<Rightarrow> engine_error + freeform_outcome" where
  "freeform_with read nonce gen contract p model samples =
     (let k = max samples 1 in
      case collect (map (\<lambda>i. sample_parsed gen (nonce i) i (pr_text p) read) [0..<k]) of
        Inl e \<Rightarrow> Inl e
      | Inr results \<Rightarrow> aggregate_freeform results contract p model k)"

section \<open>What a verdict depends on\<close>

lemma collect_Inr: "collect xs = Inr ys \<longleftrightarrow> xs = map Inr ys"
proof (induction xs arbitrary: ys)
  case (Cons x xs)
  then show ?case by (cases x; cases ys) (auto simp: map_sum_Inr)
qed auto

definition same_verdict :: "engine_error + rubric_outcome \<Rightarrow> engine_error + rubric_outcome \<Rightarrow> bool" where
  "same_verdict a b \<longleftrightarrow> (case (a, b) of
     (Inr x, Inr y) \<Rightarrow> ro_dimensions x = ro_dimensions y \<and> ro_overall x = ro_overall y \<and> ro_pass x = ro_pass y
       \<and> ro_agreement x = ro_agreement y \<and> ro_samples x = ro_samples y \<and> ro_samples_parsed x = ro_samples_parsed y
       \<and> ro_parse_failures x = ro_parse_failures y
   | (Inl _, Inl _) \<Rightarrow> True
   | _ \<Rightarrow> False)"

definition same_tally :: "tally \<Rightarrow> tally \<Rightarrow> bool" where
  "same_tally t u \<longleftrightarrow> ty_per_dim t = ty_per_dim u \<and> ty_reasonings t = ty_reasonings u \<and> ty_overalls t = ty_overalls u
     \<and> ty_parsed t = ty_parsed u \<and> ty_parse_failures t = ty_parse_failures u"

lemma same_tally_dims: "same_tally t u \<Longrightarrow> same_tally (fold tally_dim dims t) (fold tally_dim dims u)"
proof (induction dims arbitrary: t u)
  case (Cons d dims)
  have "same_tally (tally_dim d t) (tally_dim d u)"
    using Cons.prems by (auto simp: same_tally_def tally_dim_def split: prod.splits)
  then show ?case using Cons.IH by simp
qed simp

lemma same_tally_sample:
  assumes "same_tally t u" and "pd_value p = pd_value q"
  shows "same_tally (tally_sample r p t) (tally_sample r q u)"
proof -
  have c: "same_tally (tally_cost p t) (tally_cost q u)" using assms(1) by (simp add: same_tally_def tally_cost_def)
  then have "same_tally ((tally_cost p t)\<lparr>ty_parsed := ty_parsed (tally_cost p t) + 1\<rparr>)
      ((tally_cost q u)\<lparr>ty_parsed := ty_parsed (tally_cost q u) + 1\<rparr>)" by (simp add: same_tally_def)
  from same_tally_dims [OF this] c assms(2) show ?thesis
    by (auto simp: tally_sample_def Let_def same_tally_def split: option.splits)
qed

lemma same_tally_all:
  assumes "map pd_value xs = map pd_value ys"
  shows "same_tally (tally_all r model k xs) (tally_all r model k ys)"
proof -
  have "length xs = length ys" using assms map_eq_imp_length_eq by blast
  then have "same_tally (fold (tally_sample r) xs t) (fold (tally_sample r) ys u)" if "same_tally t u" for t u
    using assms that
  proof (induction xs ys arbitrary: t u rule: list_induct2)
    case (Cons x xs y ys)
    then show ?case using same_tally_sample [of t u x y r] by simp
  qed simp
  then show ?thesis by (simp add: tally_all_def same_tally_def)
qed

lemma aggregate_by_values:
  assumes "map pd_value xs = map pd_value ys"
  shows "same_verdict (aggregate xs r model k det) (aggregate ys r model k det)"
proof -
  let ?t = "tally_all r model k xs" and ?u = "tally_all r model k ys"
  have e: "ty_per_dim ?t = ty_per_dim ?u" "ty_reasonings ?t = ty_reasonings ?u" "ty_overalls ?t = ty_overalls ?u"
    "ty_parsed ?t = ty_parsed ?u" "ty_parse_failures ?t = ty_parse_failures ?u"
    using same_tally_all [OF assms, of r model k] by (simp_all add: same_tally_def)
  have dims: "dim_outcome det ?t = dim_outcome det ?u" by (intro ext) (simp only: dim_outcome_def dim_mean_def e)
  show ?thesis unfolding aggregate_def Let_def e dims by (simp add: same_verdict_def)
qed

lemma aggregate_parsed:
  "aggregate results r model k det = Inr out \<Longrightarrow> 0 < k \<Longrightarrow> \<exists>p \<in> set results. pd_value p \<noteq> None"
  using aggregate_Inr(4) [of results r model k det out] by (auto simp: tally_all_effect filter_empty_conv)

section \<open>A rubric without judged dimensions asks nobody\<close>

lemma no_grounding_dim: "\<forall>d \<in> set (rb_dimensions r). rd_kind d \<noteq> DkGrounding \<Longrightarrow> grounding_dim r has = Inr None"
proof -
  assume "\<forall>d \<in> set (rb_dimensions r). rd_kind d \<noteq> DkGrounding"
  then have "filter (\<lambda>d. is_grounding (rd_kind d)) (rb_dimensions r) = []" by (auto simp: filter_empty_conv is_grounding_def)
  then show ?thesis by (simp add: grounding_dim_def)
qed

text \<open>
  A rubric all of whose dimensions are mechanical is judged without a model: the outcome does not
  depend on the generator, it names no model and reports no cost and no tokens, and it is exactly
  reproducible. What is judged is the mechanical scores alone.
\<close>

theorem mechanical_rubric_asks_no_model:
  assumes "\<forall>d \<in> set (rb_dimensions r). rd_kind d \<noteq> DkLlm \<and> rd_kind d \<noteq> DkGrounding"
  shows "judge_grounded_with je nonce pin gen r p model samples det g
       = judge_grounded_with je' nonce' pin' gen' r p model' samples' det g'
    \<and> (case judge_grounded_with je nonce pin gen r p model samples det g of
         Inr out \<Rightarrow> ro_cost_usd out = None \<and> ro_tokens out = 0 \<and> ro_samples out = 0 \<and> ro_model out = ''deterministic''
           \<and> ro_determinism out = Exact \<and> ro_agreement out = 1 \<and> ro_injection_suspected out = pr_injection_suspected p
       | Inl e \<Rightarrow> aggregate [] r model 0 det = Inl e)"
proof -
  have no: "grounding_dim r has = Inr None" for has using assms by (intro no_grounding_dim) blast
  have "\<not> has_llm_dims r" using assms by (auto simp: has_llm_dims_def is_llm_def)
  then have j: "judge_grounded_with je nonce pin gen r p model samples det g =
      (case aggregate [] r model 0 det of Inl e \<Rightarrow> Inl e
       | Inr out \<Rightarrow> Inr (out\<lparr>ro_injection_suspected := pr_injection_suspected p, ro_determinism := Exact\<rparr>))"
    for je nonce pin gen model samples g
    by (simp add: judge_grounded_with_def no judge_samples_def any_injection_def fold_determinism_def split: sum.splits)
  have model: "aggregate [] r model 0 det = aggregate [] r model' 0 det" for model model'
    by (simp add: aggregate_def tally_all_def tally_start_def)
  have "case aggregate [] r model 0 det of Inl e \<Rightarrow> True | Inr out \<Rightarrow> ro_cost_usd out = None \<and> ro_tokens out = 0
      \<and> ro_samples out = 0 \<and> ro_model out = ''deterministic'' \<and> ro_agreement out = 1"
    by (simp add: aggregate_def tally_all_def tally_start_def agreement_of_def Let_def)
  then show ?thesis unfolding j model [of model model'] by (simp split: sum.splits)
qed

section \<open>Several samples are a distribution, and say so\<close>

lemma weakest_Sampled [simp]: "weakest Sampled d = Sampled" "weakest d Sampled = Sampled"
  by (cases d; simp add: weakest_def)+

lemma provider_gen_sampled: "1 < n \<Longrightarrow> provider_gen g gd n i p = Inr out \<Longrightarrow> go_determinism out = Sampled"
  by (auto simp: provider_gen_def map_sum_Inr)

lemma sampled_reading:
  assumes "sample_parsed (provider_gen g gd n) nonce i p parse = Inr q" and "1 < n" and "pd_value q \<noteq> None"
  shows "pd_determinism q = Sampled"
proof -
  have gen: "go_determinism out = Sampled" if "provider_gen g gd n i p = Inr out" for p out
    using assms(2) that by (rule provider_gen_sampled)
  show ?thesis using assms(1,3)
    by (auto simp: sample_parsed_def repair_call_def parsed_record_def parsed_empty_def Let_def dest!: gen
        split: sum.splits option.splits if_splits)
qed

lemma sampled_case:
  assumes "sample_case je nonce (provider_gen g gd n) r p i grounded = Inr (q, gs)" and "1 < n" and "has_llm_dims r"
    and "pd_value q \<noteq> None"
  shows "pd_determinism q = Sampled"
proof -
  obtain s where s: "sample_parsed (provider_gen g gd n) (nonce 4) i p (parse_sample je r) = Inr s"
    using assms(1,3) by (auto simp: sample_case_def split: sum.splits)
  show ?thesis
  proof (cases "pd_value s")
    case None
    then show ?thesis using assms s by (auto simp: sample_case_def absorb_def Let_def split: option.splits sum.splits)
  next
    case (Some dims)
    then have "pd_determinism s = Sampled" using sampled_reading [OF s assms(2)] by simp
    then show ?thesis using assms s by (auto simp: sample_case_def absorb_def Let_def split: option.splits sum.splits)
  qed
qed

lemma fold_weakest_Sampled: "fold (\<lambda>r acc. weakest acc (pd_determinism r)) rs Sampled = Sampled"
  by (induction rs) simp_all

lemma fold_weakest:
  "p \<in> set rs \<Longrightarrow> pd_determinism p = Sampled \<Longrightarrow> fold (\<lambda>r acc. weakest acc (pd_determinism r)) rs d = Sampled"
  by (induction rs arbitrary: d) (auto simp: fold_weakest_Sampled)

text \<open>
  More than one sample is drawn unpinned and stamped so: whenever several were asked for and a verdict
  comes back on a rubric with judged dimensions, the outcome is marked as sampled, so its agreement is
  never the agreement of one draw with itself.
\<close>

theorem several_samples_are_stamped:
  assumes "judge_grounded_with je nonce pin (provider_gen g gd n) r p model n det grounding = Inr out"
    and "1 < n" and "has_llm_dims r"
  shows "ro_determinism out = Sampled \<and> ro_samples out = n"
proof -
  obtain gdim grounded pairs res where pairs: "map (\<lambda>i. sample_case je (nonce i) (provider_gen g gd n) r (pr_text p) i grounded)
        [0..<judge_samples r gdim n] = map Inr pairs"
    and agg: "aggregate (map fst pairs) r model (judge_samples r gdim n) det = Inr res"
    and out: "ro_determinism out = fold_determinism (map fst pairs)" "ro_samples out = ro_samples res"
    using assms(1) by (auto simp: judge_grounded_with_def stamp_def Let_def collect_Inr split: sum.splits option.splits)
  have k: "judge_samples r gdim n = n" using assms(2,3) by (simp add: judge_samples_def)
  obtain q where q: "q \<in> set (map fst pairs)" "pd_value q \<noteq> None" using aggregate_parsed [OF agg] k assms(2) by auto
  then obtain gs where "(q, gs) \<in> set pairs" by auto
  then have "Inr (q, gs) \<in> set (map Inr pairs :: (engine_error + _) list)" by simp
  then obtain i where "sample_case je (nonce i) (provider_gen g gd n) r (pr_text p) i grounded = Inr (q, gs)"
    unfolding pairs [symmetric] by auto
  from sampled_case [OF this assms(2,3) q(2)] have "pd_determinism q = Sampled" .
  then have "fold_determinism (map fst pairs) = Sampled" unfolding fold_determinism_def by (rule fold_weakest [OF q(1)])
  moreover have "ro_samples res = n" using agg unfolding k by (auto simp: aggregate_def Let_def split: if_splits)
  ultimately show ?thesis using out by simp
qed

section \<open>A batch is a transport\<close>

lemma same_verdict_stamp:
  "same_verdict (map_sum id (\<lambda>out. out\<lparr>ro_injection_suspected := a, ro_determinism := d, ro_batch_size := n\<rparr>) x) y \<longleftrightarrow> same_verdict x y"
  by (cases x; cases y) (simp_all add: same_verdict_def)

lemma result_bind_Inr: "(case x of Inl e \<Rightarrow> Inl e | Inr y \<Rightarrow> f y) = Inr z \<Longrightarrow> \<exists>y. x = Inr y \<and> f y = Inr z"
  by (cases x) simp_all

lemma batch_with_Inr:
  assumes "batch_with je nonce show_weight ce gen r cases model samples = Inr outs"
  shows "\<exists>dets batched. collect (map (\<lambda>c. evaluate_all (ce\<lparr>ce_run_exec := None\<rparr>) r (bc_expected c) (bc_output c)) cases) = Inr dets
    \<and> collect (map (\<lambda>s. batch_sample je (nonce s) show_weight gen r cases s) [0..<batch_samples r samples]) = Inr batched
    \<and> outs = map (\<lambda>i. batch_outcome r model (length cases) (batch_samples r samples) batched i (dets ! i)) [0..<length cases]"
proof -
  note a = assms [unfolded batch_with_def Let_def]
  obtain gd where "grounding_dim r False = Inr gd" using result_bind_Inr [OF a] by blast
  note a = a [unfolded this sum.case]
  obtain dets where d: "collect (map (\<lambda>c. evaluate_all (ce\<lparr>ce_run_exec := None\<rparr>) r (bc_expected c) (bc_output c)) cases) = Inr dets"
    using result_bind_Inr [OF a] by (rule exE) (erule conjE, assumption)
  note a = a [unfolded this sum.case]
  obtain batched where b: "collect (map (\<lambda>s. batch_sample je (nonce s) show_weight gen r cases s) [0..<batch_samples r samples]) = Inr batched"
    using result_bind_Inr [OF a] by blast
  show ?thesis
    by (rule exI [of _ dets], rule exI [of _ batched]) (intro conjI d b a [unfolded b sum.case sum.inject, symmetric])
qed

text \<open>
  C35: No verdict is scored by other code for having shared a call. Every case of a batch gets the outcome
  that judging it alone computes from the same readings: however the singly judged samples were paid
  for, if they carry the case's verdicts, then dimensions, overall score, pass, agreement and the
  counters agree, and there is an outcome exactly when there is one.
\<close>

theorem batch_is_transport:
  assumes "batch_with je nonce show_weight ce gen r cases model samples = Inr outs" and "i < length cases"
  shows "length outs = length cases
    \<and> (\<exists>batched det. evaluate_all (ce\<lparr>ce_run_exec := None\<rparr>) r (bc_expected (cases ! i)) (bc_output (cases ! i)) = Inr det
    \<and> length batched = batch_samples r samples
    \<and> (\<forall>s < length batched. batch_sample je (nonce s) show_weight gen r cases s = Inr (batched ! s))
    \<and> (\<forall>singles. map pd_value singles = map (\<lambda>b. Option.bind (pd_value b) (\<lambda>m. m (case_id i))) batched
        \<longrightarrow> same_verdict (outs ! i) (aggregate singles r model (length batched) det)))"
proof -
  let ?ev = "\<lambda>c. evaluate_all (ce\<lparr>ce_run_exec := None\<rparr>) r (bc_expected c) (bc_output c)"
  obtain dets batched where dets: "collect (map ?ev cases) = Inr dets"
    and b: "collect (map (\<lambda>s. batch_sample je (nonce s) show_weight gen r cases s) [0..<batch_samples r samples]) = Inr batched"
    and outs: "outs = map (\<lambda>i. batch_outcome r model (length cases) (batch_samples r samples) batched i (dets ! i)) [0..<length cases]"
    by (rule exE [OF batch_with_Inr [OF assms(1)]]) (elim exE conjE, rule that)
  note dets = dets [unfolded collect_Inr] and b = b [unfolded collect_Inr]
  have len: "length batched = batch_samples r samples" "length dets = length cases"
    using arg_cong [OF b, of length] arg_cong [OF dets, of length] by simp_all
  have det: "?ev (cases ! i) = Inr (dets ! i)"
    using arg_cong [OF dets, of "\<lambda>xs. xs ! i"] assms(2) len(2) by simp
  have samples: "batch_sample je (nonce s) show_weight gen r cases s = Inr (batched ! s)" if "s < length batched" for s
    using arg_cong [OF b, of "\<lambda>xs. xs ! s"] that len(1) by simp
  have "same_verdict (outs ! i) (aggregate singles r model (length batched) (dets ! i))"
    if "map pd_value singles = map (\<lambda>b. Option.bind (pd_value b) (\<lambda>m. m (case_id i))) batched" for singles
  proof -
    have "map pd_value (map (\<lambda>b. split_for b (case_id i) (length cases)) batched) = map pd_value singles"
      unfolding that by (simp add: split_for_def Let_def)
    from aggregate_by_values [OF this] show ?thesis
      using assms(2) by (simp add: outs batch_outcome_def Let_def same_verdict_stamp len)
  qed
  moreover have "length outs = length cases" unfolding outs by simp
  ultimately show ?thesis using det len(1) samples by (intro conjI exI [of _ batched] exI [of _ "dets ! i"]) simp_all
qed

section \<open>The contract decides\<close>

lemma fold_freeform:
  "ft_verdicts (fold freeform_step results t) = ft_verdicts t @ List.map_filter pd_value results"
  "ft_parse_failures (fold freeform_step results t) = ft_parse_failures t + length (filter (\<lambda>p. pd_value p = None) results)"
  by (induction results arbitrary: t) (auto simp: freeform_step_def map_filter_simps split: option.splits)

lemma length_map_filter_None: "length (List.map_filter f xs) + length (filter (\<lambda>x. f x = None) xs) = length xs"
  by (induction xs) (auto simp: map_filter_simps split: option.splits)

definition same_reading :: "judge_verdict parsed \<Rightarrow> judge_verdict parsed \<Rightarrow> bool" where
  "same_reading p q \<longleftrightarrow> map_option normalized (pd_value p) = map_option normalized (pd_value q)"

lemma same_normals:
  "list_all2 same_reading xs ys \<Longrightarrow> map normalized (List.map_filter pd_value xs) = map normalized (List.map_filter pd_value ys)"
proof (induction rule: list_all2_induct)
  case (Cons x xs y ys)
  then show ?case by (cases "pd_value x"; cases "pd_value y") (simp_all add: same_reading_def map_filter_simps)
qed simp

lemma aggregate_freeform_Inr:
  assumes "aggregate_freeform results c p model k = Inr out"
  shows "fo_overall out = fsum (map normalized (List.map_filter pd_value results))
      / f64_of_int (int (length (List.map_filter pd_value results)))"
    "fo_pass out \<longleftrightarrow> fc_threshold c \<le> fo_overall out" "fo_samples_parsed out = length (List.map_filter pd_value results)"
    "fo_parse_failures out = length (filter (\<lambda>p. pd_value p = None) results)" "List.map_filter pd_value results \<noteq> []"
  using assms by (auto simp: aggregate_freeform_def fold_freeform freeform_start_def Let_def split: list.splits)

text \<open>
  The contract, not the model, decides whether a freeform verdict passes. The overall score is the mean
  of the normalized scores that were read and the verdict passes exactly when it reaches the
  contract's threshold; two runs whose readings differ only in the model's own opinion of passing, in
  its prose or in their bookkeeping are decided alike; and every sample is counted once, as read or as
  dropped.
\<close>

theorem freeform_pass_is_contract:
  assumes "aggregate_freeform results c p model k = Inr out"
    and "list_all2 same_reading results results'"
  shows "(fo_pass out \<longleftrightarrow> fc_threshold c \<le> fo_overall out)
    \<and> fo_overall out = fsum (map normalized (List.map_filter pd_value results)) / f64_of_int (int (fo_samples_parsed out))
    \<and> fo_samples_parsed out + fo_parse_failures out = length results
    \<and> (\<exists>out'. aggregate_freeform results' c p' model' k' = Inr out' \<and> fo_pass out' = fo_pass out
        \<and> fo_overall out' = fo_overall out)"
proof -
  note o = aggregate_freeform_Inr [OF assms(1)]
  have same: "map normalized (List.map_filter pd_value results) = map normalized (List.map_filter pd_value results')"
    using assms(2) by (rule same_normals)
  then have len: "length (List.map_filter pd_value results) = length (List.map_filter pd_value results')"
    by (metis length_map)
  with o(5) have "List.map_filter pd_value results' \<noteq> []" by auto
  then obtain out' where out': "aggregate_freeform results' c p' model' k' = Inr out'"
    by (cases "List.map_filter pd_value results'") (auto simp: aggregate_freeform_def fold_freeform freeform_start_def Let_def)
  note o' = aggregate_freeform_Inr [OF out']
  have "fo_overall out' = fo_overall out" unfolding o(1) o'(1) same len ..
  then show ?thesis using o o' out' length_map_filter_None [of pd_value results] by auto
qed

section \<open>Witnesses\<close>

lemma mechanical_rubric_asks_no_model_witness:
  "judge_grounded_with demo_json (\<lambda>_ _. []) [] (\<lambda>_ _. Inr demo_answer) (demo_rubric [demo_dimension ''q'' DkExact 1])
      \<lparr>pr_text = [], pr_injection_suspected = False\<rparr> ''m'' 3 [] None
   = judge_grounded_with demo_json (\<lambda>_ _. []) [] (\<lambda>_ _. Inl (Other [])) (demo_rubric [demo_dimension ''q'' DkExact 1])
      \<lparr>pr_text = [], pr_injection_suspected = False\<rparr> ''m'' 3 [] None"
proof -
  have "\<forall>d \<in> set (rb_dimensions (demo_rubric [demo_dimension ''q'' DkExact 1])). rd_kind d \<noteq> DkLlm \<and> rd_kind d \<noteq> DkGrounding"
    by (simp add: demo_rubric_def demo_dimension_def)
  from mechanical_rubric_asks_no_model [OF this] show ?thesis by blast
qed

definition one_question :: rubric where
  "one_question = demo_rubric [demo_dimension ''q'' DkLlm 1]"

definition scored_json :: json_env where
  "scored_json = demo_json\<lparr>je_from_str := (\<lambda>s. Some (demo_entry ''a'' ''1''))\<rparr>"

lemma demo_reading:
  "parse_sample scored_json one_question ''{}'' = Some [(''q'', fclamp 1 0 1, [])]"
  by (simp add: parse_sample_def extract_json_value_def extract_json_object_def scored_json_def demo_json_def backslash_def
      demo_entry_def parse_sample_value_def one_question_def demo_rubric_def demo_dimension_def is_llm_def unwrap_or_def)

lemma several_samples_are_stamped_witness:
  "\<exists>out. judge_grounded_with scored_json (\<lambda>_ _. []) [] (provider_gen (\<lambda>_. Inr (demo_answer\<lparr>go_output := ''{}''\<rparr>)) (\<lambda>_. Inl (Other [])) 2)
      one_question \<lparr>pr_text = [], pr_injection_suspected = False\<rparr> ''m'' 2 [] None = Inr out
     \<and> ro_determinism out = Sampled"
proof -
  let ?r = one_question and ?p = "\<lparr>pr_text = [], pr_injection_suspected = False\<rparr>"
  let ?gen = "provider_gen (\<lambda>_. Inr (demo_answer\<lparr>go_output := ''{}''\<rparr>)) (\<lambda>_. Inl (Other [])) 2"
  have llm: "has_llm_dims ?r" by (simp add: has_llm_dims_def one_question_def demo_rubric_def demo_dimension_def is_llm_def)
  define q where "q = (parsed_record parsed_empty (demo_answer\<lparr>go_output := ''{}'', go_determinism := Sampled\<rparr>))
      \<lparr>pd_value := Some [(''q'', fclamp 1 0 1, [] :: string)]\<rparr>"
  have case1: "sample_case scored_json (\<lambda>_. []) ?gen ?r [] i None = Inr (q, None)" for i
    using llm by (simp add: sample_case_def sample_parsed_def provider_gen_def demo_reading q_def parsed_record_def Let_def)
  have none: "grounding_dim ?r False = Inr None" by (rule no_grounding_dim) (simp add: one_question_def demo_rubric_def demo_dimension_def)
  have "\<nexists>e. aggregate [q, q] ?r ''m'' 2 [] = Inl e"
    unfolding no_verdict_iff by (simp add: q_def one_question_def demo_rubric_def demo_dimension_def)
  then obtain res where agg: "aggregate [q, q] ?r ''m'' 2 [] = Inr res" by (cases "aggregate [q, q] ?r ''m'' 2 []") auto
  have two: "[0..<2] = [0, 1]" by (simp add: upt_rec)
  obtain out where out: "judge_grounded_with scored_json (\<lambda>_ _. []) [] ?gen ?r ?p ''m'' 2 [] None = Inr out"
    using llm by (simp add: judge_grounded_with_def none judge_samples_def two case1 agg agg [unfolded numeral_2_eq_2] Let_def)
  from several_samples_are_stamped [OF out _ llm] out show ?thesis by simp
qed

lemma answered: "\<exists>q. sample_parsed (\<lambda>_ _. Inr a) nonce i p parse = Inr q"
  by (cases "parse (go_output a)") (simp_all add: sample_parsed_def repair_call_def Let_def)

lemma batch_is_transport_witness:
  "\<exists>outs. batch_with demo_json (\<lambda>_ _. []) (\<lambda>_. []) demo_checks (\<lambda>_ _. Inr (demo_answer\<lparr>go_output := ''{}''\<rparr>))
      one_question [\<lparr>bc_input = ''a'', bc_expected = None, bc_output = ''b''\<rparr>] ''m'' 1 = Inr outs
     \<and> length outs = 1"
proof -
  let ?r = one_question and ?c = "\<lparr>bc_input = ''a'', bc_expected = None, bc_output = ''b''\<rparr>"
  let ?gen = "\<lambda>_ _. Inr (demo_answer\<lparr>go_output := ''{}''\<rparr>)"
  have none: "grounding_dim ?r False = Inr None" by (rule no_grounding_dim) (simp add: one_question_def demo_rubric_def demo_dimension_def)
  have det: "evaluate_all ce ?r None ''b'' = Inr []" for ce
    by (simp add: evaluate_all_def one_question_def demo_rubric_def demo_dimension_def is_mechanical_def is_llm_def)
  have "\<exists>b. batch_sample demo_json (\<lambda>_. []) (\<lambda>_. []) ?gen ?r [?c] 0 = Inr b"
    unfolding batch_sample_def Let_def by (metis answered map_sum.simps(2))
  then obtain b where b: "batch_sample demo_json (\<lambda>_. []) (\<lambda>_. []) ?gen ?r [?c] 0 = Inr b" ..
  have "batch_samples ?r 1 = 1"
    by (simp add: batch_samples_def has_llm_dims_def one_question_def demo_rubric_def demo_dimension_def is_llm_def)
  then obtain outs where outs: "batch_with demo_json (\<lambda>_ _. []) (\<lambda>_. []) demo_checks ?gen ?r [?c] ''m'' 1 = Inr outs"
    using b by (simp add: batch_with_def none det Let_def)
  from batch_is_transport [OF outs, of 0] outs show ?thesis by simp
qed

lemma freeform_pass_is_contract_witness:
  "\<exists>out. aggregate_freeform [parsed_empty\<lparr>pd_value := Some \<lparr>jv_score = 1, jv_max = 1, jv_pass = False, jv_reasoning = []\<rparr>\<rparr>]
      (with_threshold (\<lambda>_. []) ''be kind'' 1) \<lparr>pr_text = [], pr_injection_suspected = False\<rparr> ''m'' 1 = Inr out
     \<and> fo_samples_parsed out + fo_parse_failures out = 1"
proof -
  let ?q = "parsed_empty\<lparr>pd_value := Some \<lparr>jv_score = 1, jv_max = 1, jv_pass = False, jv_reasoning = []\<rparr>\<rparr>"
  obtain out where out: "aggregate_freeform [?q] (with_threshold (\<lambda>_. []) ''be kind'' 1)
      \<lparr>pr_text = [], pr_injection_suspected = False\<rparr> ''m'' 1 = Inr out"
    by (simp add: aggregate_freeform_def freeform_step_def freeform_start_def Let_def)
  have "list_all2 same_reading [?q] [?q]" by (simp add: same_reading_def)
  from freeform_pass_is_contract [OF out this] out show ?thesis by simp
qed

text \<open>
  The scale of a freeform verdict is the model's own: a score above the maximum it names itself is not
  clamped, so the mean can exceed every threshold.
\<close>

lemma freeform_overall_exceeds_one:
  "\<exists>out. aggregate_freeform [parsed_empty\<lparr>pd_value := Some \<lparr>jv_score = Fin 5, jv_max = 1, jv_pass = False, jv_reasoning = []\<rparr>\<rparr>]
      (with_threshold (\<lambda>_. []) ''be kind'' 1) \<lparr>pr_text = [], pr_injection_suspected = False\<rparr> ''m'' 1 = Inr out
     \<and> fo_overall out = Fin 5 \<and> fo_pass out"
proof -
  have five: "rnd 5 = Fin 5" using rnd_of_int [of 5] by simp
  show ?thesis
    by (simp add: aggregate_freeform_def freeform_step_def freeform_start_def Let_def normalized_def fsum_def with_threshold_def
        fclamp_def five f64_of_int_exact)
qed

end
