(* ===== verification/RevenueBook.thy ===== *)
theory RevenueBook
  imports RevenueShare
begin

text \<open>
  Revenue rows and the currency book that prices them (\<^verbatim>\<open>crates/billing/src/fx.rs\<close>,
  \<^verbatim>\<open>crates/core/src/revenue.rs\<close>, \<^verbatim>\<open>crates/store/src/sqlite/revenue.rs\<close>,
  \<^verbatim>\<open>crates/api/src/revenue_reprice.rs\<close>): the conversion of a provider's minor units to dollars, the
  upsert a webhook delivery runs, and the deliberate restatement of rows that were stored without a
  rate. Currency codes are ASCII; SHA-256 and the printing of floats are arguments.
\<close>

section \<open>The book\<close>

definition upper_char :: "char \<Rightarrow> char" where
  "upper_char c = (if (97::nat) \<le> of_char c \<and> of_char c \<le> (122::nat) then char_of (of_char c - 32 :: nat) else c)"

definition to_uppercase :: "string \<Rightarrow> string" where
  "to_uppercase s = map upper_char s"

record usd_amount =
  ua_amount_usd :: f64
  ua_converted :: bool
  ua_rate :: "f64 option"

record fx_table =
  fx_base :: string
  fx_rates :: "string \<rightharpoonup> f64"
  fx_version :: string

definition zero_decimal :: "string list" where
  "zero_decimal = [''BIF'', ''CLP'', ''DJF'', ''GNF'', ''ISK'', ''JPY'', ''KMF'', ''KRW'', ''PYG'', ''RWF'', ''UGX'',
     ''VND'', ''VUV'', ''XAF'', ''XOF'', ''XPF'']"

definition three_decimal :: "string list" where
  "three_decimal = [''BHD'', ''IQD'', ''JOD'', ''KWD'', ''LYD'', ''OMR'', ''TND'']"

definition minor_divisor :: "string \<Rightarrow> f64" where
  "minor_divisor currency = (let e = (if currency \<in> set zero_decimal then 0 else if currency \<in> set three_decimal then 3 else 2)
     in Fin (10 ^ e))"

text \<open>The same table as the store repeats it.\<close>

definition store_minor_divisor :: "string \<Rightarrow> f64" where
  "store_minor_divisor currency =
     (if currency \<in> set zero_decimal then Fin 1 else if currency \<in> set three_decimal then Fin 1000 else Fin 100)"

text \<open>
  A table from a base and the entries of a rate map: codes in upper case (a later entry of the map
  with the same code in upper case wins), no entry for the base, no rate that is not positive.
\<close>

definition clean_rates :: "string \<Rightarrow> (string \<times> f64) list \<Rightarrow> string \<rightharpoonup> f64" where
  "clean_rates base rates = map_of (rev (filter (\<lambda>(k, v). k \<noteq> base \<and> 0 < v) (map (\<lambda>(k, v). (to_uppercase k, v)) rates)))"

definition book_version :: "(string \<Rightarrow> string) \<Rightarrow> (f64 \<Rightarrow> string) \<Rightarrow> string option \<Rightarrow> string \<Rightarrow> (string \<times> f64) list \<Rightarrow> string" where
  "book_version sha256_hex fixed10 last_verified base rates =
     (case Option.bind last_verified (\<lambda>v. if str_trim v = [] then None else Some (str_trim v)) of
        Some v \<Rightarrow> v
      | None \<Rightarrow> if rates = [] then to_ascii_lowercase base @ ''-only''
          else ''sha256:'' @ sha256_hex (base @ concat (map (\<lambda>(code, rate). [CHR 0x00] @ code @ ''='' @ fixed10 rate) rates)))"

text \<open>The pairs of the book's map in the order of their codes are an argument, as the hash needs them.\<close>

definition fx_new :: "(string \<Rightarrow> string) \<Rightarrow> (f64 \<Rightarrow> string) \<Rightarrow> string option \<Rightarrow> string \<Rightarrow> (string \<times> f64) list \<Rightarrow> (string \<times> f64) list \<Rightarrow> fx_table" where
  "fx_new sha256_hex fixed10 last_verified base rates ordered =
     (let b = to_uppercase base
      in \<lparr>fx_base = b, fx_rates = clean_rates b rates, fx_version = book_version sha256_hex fixed10 last_verified b ordered\<rparr>)"

definition fx_default :: fx_table where
  "fx_default = \<lparr>fx_base = ''USD'', fx_rates = Map.empty, fx_version = ''usd-only''\<rparr>"

definition to_usd :: "fx_table \<Rightarrow> int \<Rightarrow> string \<Rightarrow> usd_amount" where
  "to_usd fx minor currency =
     (let cur = to_uppercase currency; major = f64_of_int minor / minor_divisor cur in
      if cur = fx_base fx then \<lparr>ua_amount_usd = major, ua_converted = True, ua_rate = Some 1\<rparr>
      else (case fx_rates fx cur of
          Some rate \<Rightarrow> \<lparr>ua_amount_usd = major * rate, ua_converted = True, ua_rate = Some rate\<rparr>
        | None \<Rightarrow> \<lparr>ua_amount_usd = major, ua_converted = False, ua_rate = None\<rparr>))"

definition rate_for :: "fx_table \<Rightarrow> string \<Rightarrow> f64 option" where
  "rate_for fx currency = (let cur = to_uppercase currency in if cur = fx_base fx then Some 1 else fx_rates fx cur)"

definition is_convertible :: "fx_table \<Rightarrow> string \<Rightarrow> bool" where
  "is_convertible fx currency \<longleftrightarrow> (let cur = to_uppercase currency in cur = fx_base fx \<or> fx_rates fx cur \<noteq> None)"

section \<open>Revenue rows\<close>

record revenue_row = revenue_event +
  rr_id :: string
  rr_source :: string
  rr_external_id :: "string option"
  rr_product_id :: "string option"
  rr_currency :: string
  rr_amount_minor :: "int option"
  rr_fx_rate :: "f64 option"
  rr_fx_book_version :: "string option"
  rr_converted :: "bool option"

definition is_converted :: "revenue_row \<Rightarrow> bool" where
  "is_converted r = (case rr_converted r of Some b \<Rightarrow> b
     | None \<Rightarrow> to_ascii_lowercase (rr_currency r) = to_ascii_lowercase ''USD'')"

text \<open>When an upsert restates the money of the row it meets.\<close>

definition restate_money :: "revenue_row \<Rightarrow> revenue_row \<Rightarrow> bool" where
  "restate_money old new \<longleftrightarrow> rr_amount_minor new = None \<or> rr_amount_minor old = None \<or> rr_amount_minor new \<noteq> rr_amount_minor old"

definition keep_money :: "revenue_row \<Rightarrow> revenue_row \<Rightarrow> revenue_row" where
  "keep_money old new =
     (if restate_money old new then new
      else new\<lparr>rv_amount_usd := rv_amount_usd old, rr_fx_rate := rr_fx_rate old,
             rr_fx_book_version := rr_fx_book_version old, rr_converted := rr_converted old\<rparr>)"

definition revenue_insert :: "revenue_row \<Rightarrow> revenue_row list \<Rightarrow> revenue_row list" where
  "revenue_insert ev t =
     (if row_by rr_id (rr_id ev) t = None then t @ [ev]
      else update_where (\<lambda>r. rr_id r = rr_id ev) (\<lambda>old. keep_money old ev) t)"

text \<open>
  One transaction around the upserts of a batch: \<open>writes\<close> says whether the statement for a record
  succeeds, and a failure anywhere leaves the table as it was.
\<close>

definition insert_batch :: "(revenue_row \<Rightarrow> bool) \<Rightarrow> revenue_row list \<Rightarrow> revenue_row list \<Rightarrow> unit + revenue_row list" where
  "insert_batch writes evs t = (if \<forall>ev \<in> set evs. writes ev then Inr (fold revenue_insert evs t) else Inl ())"

section \<open>The restatement\<close>

record reprice_report =
  rp_currency :: string
  rp_rate :: f64
  rp_book_version :: string
  rp_matched :: nat
  rp_changed :: nat
  rp_dry_run :: bool

definition reprice_pred :: "string option \<Rightarrow> string \<Rightarrow> revenue_row \<Rightarrow> bool" where
  "reprice_pred project cur r \<longleftrightarrow> (case project of Some p \<Rightarrow> rv_project r = p | None \<Rightarrow> True)
     \<and> to_uppercase (rr_currency r) = cur \<and> rr_converted r = Some False"

definition reprice_row :: "string \<Rightarrow> f64 \<Rightarrow> string \<Rightarrow> revenue_row \<Rightarrow> revenue_row" where
  "reprice_row cur rate version r = (case rr_amount_minor r of
     Some minor \<Rightarrow> r\<lparr>rv_amount_usd := f64_of_int minor / store_minor_divisor cur * rate, rr_fx_rate := Some rate,
         rr_fx_book_version := Some version, rr_converted := Some True\<rparr>
   | None \<Rightarrow> r)"

definition reprice :: "string option \<Rightarrow> string \<Rightarrow> f64 \<Rightarrow> string \<Rightarrow> bool \<Rightarrow> revenue_row list \<Rightarrow> reprice_report \<times> revenue_row list" where
  "reprice project currency rate version dry_run t =
     (let cur = to_uppercase currency; hits = filter (reprice_pred project cur) t;
          changed = length (filter (\<lambda>r. rr_amount_minor r \<noteq> None) hits)
      in (\<lparr>rp_currency = cur, rp_rate = rate, rp_book_version = version, rp_matched = length hits,
           rp_changed = changed, rp_dry_run = dry_run\<rparr>,
          if dry_run \<or> hits = [] then t
          else update_where (\<lambda>r. reprice_pred project cur r \<and> rr_amount_minor r \<noteq> None) (reprice_row cur rate version) t))"

datatype reprice_refusal = BadCurrency string | NoRate string | BadRate f64

definition is_truthy :: "string option \<Rightarrow> bool" where
  "is_truthy v = (case v of None \<Rightarrow> False | Some s \<Rightarrow>
     (let t = str_trim s in t = ''1'' \<or> to_ascii_lowercase t = ''true'' \<or> to_ascii_lowercase t = ''yes''))"

definition is_alpha :: "char \<Rightarrow> bool" where
  "is_alpha c \<longleftrightarrow> ((65::nat) \<le> of_char c \<and> of_char c \<le> (90::nat)) \<or> ((97::nat) \<le> of_char c \<and> of_char c \<le> (122::nat))"

definition post_reprice :: "fx_table \<Rightarrow> string option \<Rightarrow> string \<Rightarrow> f64 option \<Rightarrow> string option \<Rightarrow> revenue_row list
    \<Rightarrow> reprice_refusal + reprice_report \<times> revenue_row list" where
  "post_reprice fx project currency rate dry_run t =
     (let cur = to_uppercase (str_trim currency) in
      if length cur \<noteq> 3 \<or> \<not> (\<forall>c \<in> set cur. is_alpha c) then Inl (BadCurrency currency)
      else (case (case rate of Some r \<Rightarrow> Some r | None \<Rightarrow> rate_for fx cur) of
          None \<Rightarrow> Inl (NoRate cur)
        | Some r \<Rightarrow>
            if \<not> (is_finite r \<and> 0 < r) then Inl (BadRate r)
            else Inr (reprice project cur r (fx_version fx) (case dry_run of None \<Rightarrow> True | Some v \<Rightarrow> is_truthy (Some v)) t)))"

section \<open>Rows and their keys\<close>

lemma find_append: "find P (xs @ ys) = (case find P xs of Some x \<Rightarrow> Some x | None \<Rightarrow> find P ys)"
  by (induction xs) simp_all

lemma row_by_append_None: "row_by rr_id i t = None \<Longrightarrow> row_by rr_id i (t @ [ev]) = (if rr_id ev = i then Some ev else None)"
  by (simp add: row_by_def find_append)

lemma row_by_Some_id: "row_by rr_id i t = Some r \<Longrightarrow> r \<in> set t \<and> rr_id r = i"
  by (auto simp: row_by_def find_Some_iff)

lemma keep_money_id [simp]: "rr_id (keep_money old new) = rr_id new"
  by (simp add: keep_money_def)

lemma row_by_None_iff: "row_by rr_id i t = None \<longleftrightarrow> i \<notin> rr_id ` set t"
  by (auto simp: row_by_def find_None_iff)

lemma row_by_update:
  "(\<And>r. rr_id (f r) = rr_id r) \<Longrightarrow> row_by rr_id i (update_where p f t)
     = map_option (\<lambda>r. if p r then f r else r) (row_by rr_id i t)"
  by (induction t) (auto simp: row_by_def update_where_def)

lemma row_by_insert:
  "row_by rr_id i (revenue_insert ev t) =
     (if i = rr_id ev then Some (case row_by rr_id i t of None \<Rightarrow> ev | Some old \<Rightarrow> keep_money old ev) else row_by rr_id i t)"
proof (cases "row_by rr_id (rr_id ev) t = None")
  case True
  then show ?thesis by (auto simp: revenue_insert_def row_by_def find_append split: option.splits)
next
  case False
  have "row_by rr_id i (update_where (\<lambda>r. rr_id r = rr_id ev) (\<lambda>old. keep_money old ev) t)
      = map_option (\<lambda>r. if rr_id r = rr_id ev then keep_money r ev else r) (row_by rr_id i t)"
    by (induction t) (auto simp: row_by_def update_where_def)
  then show ?thesis using False row_by_Some_id [of i t] by (cases "row_by rr_id i t") (auto simp: revenue_insert_def)
qed

lemma ids_insert: "map rr_id (revenue_insert ev t) = map rr_id t @ (if rr_id ev \<in> rr_id ` set t then [] else [rr_id ev])"
  by (auto simp: revenue_insert_def row_by_None_iff update_where_def)

lemma distinct_ids_insert: "distinct (map rr_id t) \<Longrightarrow> distinct (map rr_id (revenue_insert ev t))"
  unfolding ids_insert by auto

section \<open>A redelivery changes nothing\<close>

lemma keep_money_again [simp]: "keep_money (keep_money old ev) ev = keep_money old ev"
  by (simp add: keep_money_def restate_money_def)

lemma keep_money_self [simp]: "keep_money ev ev = ev"
  by (simp add: keep_money_def)

definition settled :: "revenue_row \<Rightarrow> revenue_row list \<Rightarrow> bool" where
  "settled ev t \<longleftrightarrow> (\<exists>r. row_by rr_id (rr_id ev) t = Some r \<and> keep_money r ev = r)"

lemma settled_insert: "settled ev (revenue_insert ev t)"
  by (auto simp: settled_def row_by_insert split: option.splits)

lemma settled_other: "settled ev t \<Longrightarrow> rr_id ev' \<noteq> rr_id ev \<Longrightarrow> settled ev (revenue_insert ev' t)"
  by (simp add: settled_def row_by_insert)

lemma row_by_unique: "distinct (map rr_id t) \<Longrightarrow> r \<in> set t \<Longrightarrow> row_by rr_id (rr_id r) t = Some r"
  by (induction t) (auto simp: row_by_def)

lemma settled_insert_same: "distinct (map rr_id t) \<Longrightarrow> settled ev t \<Longrightarrow> revenue_insert ev t = t"
proof -
  assume d: "distinct (map rr_id t)" and "settled ev t"
  then obtain r where r: "row_by rr_id (rr_id ev) t = Some r" "keep_money r ev = r" by (auto simp: settled_def)
  have "(if rr_id x = rr_id ev then keep_money x ev else x) = x" if "x \<in> set t" for x
    using row_by_unique [OF d that] r by auto
  then show "revenue_insert ev t = t" using r by (simp add: revenue_insert_def update_where_def map_idI)
qed

lemma settled_fold_other: "settled ev t \<Longrightarrow> rr_id ev \<notin> rr_id ` set evs \<Longrightarrow> settled ev (fold revenue_insert evs t)"
  by (induction evs arbitrary: t) (auto simp: settled_other)

lemma settled_fold: "distinct (map rr_id evs) \<Longrightarrow> ev \<in> set evs \<Longrightarrow> settled ev (fold revenue_insert evs t)"
  by (induction evs arbitrary: t) (auto intro: settled_fold_other settled_insert)

lemma distinct_ids_fold: "distinct (map rr_id t) \<Longrightarrow> distinct (map rr_id (fold revenue_insert evs t))"
  by (induction evs arbitrary: t) (auto intro: distinct_ids_insert)

lemma fold_settled_same: "distinct (map rr_id t) \<Longrightarrow> \<forall>ev \<in> set evs. settled ev t \<Longrightarrow> fold revenue_insert evs t = t"
  by (induction evs) (simp_all add: settled_insert_same)

text \<open>
  C15: A retried delivery neither duplicates nor restates. Storing a batch of records with different ids a
  second time leaves the table as it is; and a record whose provider amount is unchanged keeps the
  conversion its row was stored with, whatever book the redelivery was priced from, while the rows of
  other ids are not touched.
\<close>

theorem redelivery_changes_nothing:
  assumes "distinct (map rr_id t)" and "insert_batch writes evs t = Inr t'" and "distinct (map rr_id evs)"
  shows "insert_batch writes evs t' = Inr t' \<and> distinct (map rr_id t')
    \<and> (\<forall>i. i \<notin> rr_id ` set evs \<longrightarrow> row_by rr_id i t' = row_by rr_id i t)
    \<and> (\<forall>ev old m. row_by rr_id (rr_id ev) t = Some old \<and> rr_amount_minor old = Some m \<and> rr_amount_minor ev = Some m
        \<longrightarrow> (\<exists>new. row_by rr_id (rr_id ev) (revenue_insert ev t) = Some new \<and> rv_amount_usd new = rv_amount_usd old
              \<and> rr_fx_rate new = rr_fx_rate old \<and> rr_fx_book_version new = rr_fx_book_version old
              \<and> rr_converted new = rr_converted old))"
proof (intro conjI)
  have w: "\<forall>ev \<in> set evs. writes ev" and t': "t' = fold revenue_insert evs t"
    using assms(2) by (auto simp: insert_batch_def split: if_splits)
  show d: "distinct (map rr_id t')" unfolding t' by (rule distinct_ids_fold [OF assms(1)])
  have "\<forall>ev \<in> set evs. settled ev t'" unfolding t' using settled_fold [OF assms(3)] by blast
  then show "insert_batch writes evs t' = Inr t'" using fold_settled_same [OF d] w by (simp add: insert_batch_def)
  have "row_by rr_id i (fold revenue_insert es t) = row_by rr_id i t" if "i \<notin> rr_id ` set es" for i es t
    using that by (induction es arbitrary: t) (auto simp: row_by_insert)
  then show "\<forall>i. i \<notin> rr_id ` set evs \<longrightarrow> row_by rr_id i t' = row_by rr_id i t" unfolding t' by blast
  show "\<forall>ev old m. row_by rr_id (rr_id ev) t = Some old \<and> rr_amount_minor old = Some m \<and> rr_amount_minor ev = Some m
        \<longrightarrow> (\<exists>new. row_by rr_id (rr_id ev) (revenue_insert ev t) = Some new \<and> rv_amount_usd new = rv_amount_usd old
              \<and> rr_fx_rate new = rr_fx_rate old \<and> rr_fx_book_version new = rr_fx_book_version old
              \<and> rr_converted new = rr_converted old)"
    by (auto simp: row_by_insert keep_money_def restate_money_def)
qed

section \<open>The restatement is the conversion that was missed\<close>

lemma store_divisor_mirrors: "store_minor_divisor cur = minor_divisor cur"
  by (simp add: store_minor_divisor_def minor_divisor_def)

text \<open>What an adapter stamps on a row it prices from a book.\<close>

definition money_stamp :: "fx_table \<Rightarrow> int \<Rightarrow> revenue_row \<Rightarrow> revenue_row" where
  "money_stamp fx minor r = (let usd = to_usd fx minor (rr_currency r) in
     r\<lparr>rv_amount_usd := ua_amount_usd usd, rr_amount_minor := Some minor, rr_fx_rate := ua_rate usd,
       rr_fx_book_version := Some (fx_version fx), rr_converted := Some (ua_converted usd)\<rparr>)"

lemma money_stamp_fields [simp]:
  "rr_id (money_stamp fx m r) = rr_id r" "rr_currency (money_stamp fx m r) = rr_currency r"
  "rv_project (money_stamp fx m r) = rv_project r" "rr_amount_minor (money_stamp fx m r) = Some m"
  by (simp_all add: money_stamp_def Let_def)

lemma upper_char_idem [simp]: "upper_char (upper_char c) = upper_char c"
proof (cases "(97::nat) \<le> of_char c \<and> of_char c \<le> (122::nat)")
  case True
  then have b: "(of_char c - 32 :: nat) < 256" "\<not> (97::nat) \<le> of_char c - 32" by linarith+
  then have "of_char (char_of (of_char c - 32 :: nat)) = (of_char c - 32 :: nat)" by simp
  with True b(2) show ?thesis by (simp add: upper_char_def)
next
  case False
  then have "upper_char c = c" unfolding upper_char_def by (rule if_not_P)
  then show ?thesis by simp
qed

lemma to_uppercase_idem [simp]: "to_uppercase (to_uppercase s) = to_uppercase s"
  by (simp add: to_uppercase_def comp_def)

lemma reprice_row_id [simp]: "rr_id (reprice_row cur rate version r) = rr_id r"
  by (simp add: reprice_row_def split: option.splits)

lemma reprice_row_stamp:
  assumes "rate_for fx' (rr_currency r) = Some rate" and "to_uppercase (rr_currency r) \<noteq> fx_base fx'"
  shows "reprice_row (to_uppercase (rr_currency r)) rate (fx_version fx') (money_stamp fx m r) = money_stamp fx' m r"
  using assms by (simp add: reprice_row_def money_stamp_def rate_for_def to_usd_def store_divisor_mirrors Let_def)

text \<open>
  C16: Restating a row that was stored at the one-to-one fallback gives exactly the row that pricing the
  same delivery from the corrected book would have given, provenance included. Rows of other
  currencies or projects, rows that converted genuinely and rows without the provider's amount keep
  every field; and a preview counts the same rows and writes nothing.
\<close>

theorem reprice_is_late_conversion:
  assumes "distinct (map rr_id t)" and "money_stamp fx m r \<in> set t" and "rate_for fx (rr_currency r) = None"
    and "rate_for fx' (rr_currency r) = Some rate" and "to_uppercase (rr_currency r) \<noteq> fx_base fx'"
    and "project = None \<or> project = Some (rv_project r)"
    and "reprice project (rr_currency r) rate (fx_version fx') False t = (report, t')"
  shows "row_by rr_id (rr_id r) t' = Some (money_stamp fx' m r)
    \<and> (\<forall>x \<in> set t. \<not> (reprice_pred project (to_uppercase (rr_currency r)) x \<and> rr_amount_minor x \<noteq> None)
         \<longrightarrow> row_by rr_id (rr_id x) t' = Some x)
    \<and> fst (reprice project (rr_currency r) rate (fx_version fx') True t) = report\<lparr>rp_dry_run := True\<rparr>
    \<and> snd (reprice project (rr_currency r) rate (fx_version fx') True t) = t
    \<and> rp_matched (fst (reprice project (rr_currency r) rate (fx_version fx') False t'))
        = rp_matched report - rp_changed report"
proof -
  let ?cur = "to_uppercase (rr_currency r)"
  let ?p = "\<lambda>x. reprice_pred project ?cur x \<and> rr_amount_minor x \<noteq> None"
  have hit: "?p (money_stamp fx m r)"
    using assms(3,6) by (auto simp: reprice_pred_def money_stamp_def to_usd_def rate_for_def Let_def split: if_splits)
  then have hits: "filter (reprice_pred project ?cur) t \<noteq> []" using assms(2) by (auto simp: filter_empty_conv)
  have t': "t' = update_where ?p (reprice_row ?cur rate (fx_version fx')) t"
    and rep: "report = \<lparr>rp_currency = ?cur, rp_rate = rate, rp_book_version = fx_version fx',
        rp_matched = length (filter (reprice_pred project ?cur) t),
        rp_changed = length (filter (\<lambda>x. rr_amount_minor x \<noteq> None) (filter (reprice_pred project ?cur) t)), rp_dry_run = False\<rparr>"
    using assms(7) hits by (auto simp: reprice_def Let_def)
  have by_id: "row_by rr_id (rr_id x) t' = Some (if ?p x then reprice_row ?cur rate (fx_version fx') x else x)" if "x \<in> set t" for x
    unfolding t' using row_by_unique [OF assms(1) that] by (simp add: row_by_update)
  have "row_by rr_id (rr_id r) t' = Some (money_stamp fx' m r)"
    using by_id [OF assms(2)] hit reprice_row_stamp [OF assms(4,5)] by simp
  moreover have "row_by rr_id (rr_id x) t' = Some x" if "x \<in> set t" "\<not> ?p x" for x
    using by_id [OF that(1)] unfolding if_not_P [OF that(2)] .
  moreover have "length (filter (reprice_pred project ?cur) t') = length (filter (reprice_pred project ?cur) t)
      - length (filter (\<lambda>x. rr_amount_minor x \<noteq> None) (filter (reprice_pred project ?cur) t))"
  proof -
    have done_once: "\<not> reprice_pred project ?cur (reprice_row ?cur rate (fx_version fx') x)" if "rr_amount_minor x \<noteq> None" for x
      using that by (auto simp: reprice_pred_def reprice_row_def)
    have "length (filter (reprice_pred project ?cur) (update_where ?p (reprice_row ?cur rate (fx_version fx')) xs))
        + length (filter (\<lambda>x. rr_amount_minor x \<noteq> None) (filter (reprice_pred project ?cur) xs))
        = length (filter (reprice_pred project ?cur) xs)" for xs
      by (induction xs) (auto simp: update_where_def done_once)
    from this [of t] show ?thesis unfolding t' by simp
  qed
  ultimately show ?thesis unfolding rep by (simp add: reprice_def Let_def)
qed

section \<open>Witnesses\<close>

definition demo_row :: revenue_row where
  "demo_row = \<lparr>rv_project = ''p'', rv_customer = None, rv_amount_usd = 0, rv_kind = RkOneTime, rv_period_start = None,
     rv_period_end = None, rv_ts = 0, rr_id = ''stripe:in_1'', rr_source = ''stripe'', rr_external_id = Some ''in_1'',
     rr_product_id = None, rr_currency = ''GBP'', rr_amount_minor = Some 500, rr_fx_rate = None, rr_fx_book_version = None,
     rr_converted = Some False\<rparr>"

lemma redelivery_changes_nothing_witness:
  "\<exists>t'. insert_batch (\<lambda>_. True) [demo_row] [] = Inr t' \<and> insert_batch (\<lambda>_. True) [demo_row] t' = Inr t'"
proof -
  obtain t' where t': "insert_batch (\<lambda>_. True) [demo_row] [] = Inr t'" by (simp add: insert_batch_def)
  from redelivery_changes_nothing [OF _ this] t' show ?thesis by simp
qed

definition pound_book :: fx_table where
  "pound_book = \<lparr>fx_base = ''USD'', fx_rates = [''GBP'' \<mapsto> Fin 2], fx_version = ''v2''\<rparr>"

lemma reprice_is_late_conversion_witness:
  "row_by rr_id ''stripe:in_1'' (snd (reprice None ''GBP'' (Fin 2) ''v2'' False [money_stamp fx_default 500 demo_row]))
     = Some (money_stamp pound_book 500 demo_row)"
proof -
  have cur: "to_uppercase ''GBP'' = ''GBP''" by (simp add: to_uppercase_def upper_char_def)
  obtain report t' where r: "reprice None (rr_currency demo_row) (Fin 2) (fx_version pound_book) False [money_stamp fx_default 500 demo_row]
      = (report, t')" by fastforce
  have "rate_for fx_default (rr_currency demo_row) = None" "rate_for pound_book (rr_currency demo_row) = Some (Fin 2)"
    "to_uppercase (rr_currency demo_row) \<noteq> fx_base pound_book"
    by (simp_all add: rate_for_def demo_row_def fx_default_def pound_book_def cur)
  from reprice_is_late_conversion [OF _ _ this(1) this(2) this(3) _ r]
  have "row_by rr_id (rr_id demo_row) t' = Some (money_stamp pound_book 500 demo_row)" by simp
  then show ?thesis using r by (simp add: demo_row_def pound_book_def)
qed

end
