(* ===== verification/BillingHook.thy ===== *)
theory BillingHook
  imports RevenueBook JudgeSample
begin

text \<open>
  The billing adapters (\<^verbatim>\<open>crates/billing/src/stripe.rs\<close>, \<^verbatim>\<open>polar.rs\<close>): the check of a webhook's
  signature and the normalization of its payload into revenue rows. HMAC-SHA256, base64, JSON text, the
  reading of numbers and the two readings of a time are arguments of the environment. The arithmetic on
  the timestamp is that of a release build: it wraps.
\<close>

section \<open>Readers\<close>

record billing_env =
  be_hmac :: "string \<Rightarrow> string \<Rightarrow> string"
  be_base64 :: "string \<Rightarrow> string option"
  be_from_slice :: "string \<Rightarrow> json option"
  be_as_i64 :: "string \<Rightarrow> int option"
  be_timestamp :: "int \<Rightarrow> instant option"
  be_rfc3339 :: "string \<Rightarrow> instant option"
  be_now :: instant

datatype billing_error = SignatureError string | PayloadError

definition digit_value :: "char \<Rightarrow> nat" where
  "digit_value c = of_char c - 48"

definition parse_digits :: "string \<Rightarrow> nat option" where
  "parse_digits s = (if s = [] \<or> \<not> (\<forall>c \<in> set s. is_digit c) then None
     else Some (fold (\<lambda>c n. 10 * n + digit_value c) s 0))"

definition parse_i64 :: "string \<Rightarrow> int option" where
  "parse_i64 s =
     (let (negative, digits) = (case s of c # t \<Rightarrow> if c = CHR ''-'' then (True, t) else if c = CHR ''+'' then (False, t) else (False, s)
          | [] \<Rightarrow> (False, []))
      in case parse_digits digits of
           None \<Rightarrow> None
         | Some n \<Rightarrow> (let i = (if negative then - int n else int n) in if - (2 ^ 63) \<le> i \<and> i < 2 ^ 63 then Some i else None))"

definition show_int :: "int \<Rightarrow> string" where
  "show_int i = (if i < 0 then ''-'' else []) @ show_nat (nat \<bar>i\<bar>)"

text \<open>\<open>Value::pointer\<close> by its tokens; an array is indexed by a decimal without a leading zero.\<close>

definition array_index :: "string \<Rightarrow> nat option" where
  "array_index s = (if take 1 s = ''0'' \<and> length s \<noteq> 1 then None else parse_digits s)"

fun json_ptr :: "json \<Rightarrow> string list \<Rightarrow> json option" where
  "json_ptr v [] = Some v"
| "json_ptr v (k # ks) =
     (case v of
        JObject m \<Rightarrow> Option.bind (map_of m k) (\<lambda>x. json_ptr x ks)
      | JArray xs \<Rightarrow> (case array_index k of Some i \<Rightarrow> if i < length xs then json_ptr (xs ! i) ks else None | None \<Rightarrow> None)
      | _ \<Rightarrow> None)"

definition get_str :: "json \<Rightarrow> string \<Rightarrow> string option" where
  "get_str v k = Option.bind (json_get v k) json_str"

definition get_i64 :: "billing_env \<Rightarrow> json \<Rightarrow> string \<Rightarrow> int option" where
  "get_i64 e v k = Option.bind (json_get v k) (json_num (be_as_i64 e))"

definition or_else :: "'a option \<Rightarrow> 'a option \<Rightarrow> 'a option" where
  "or_else a b = (case a of Some x \<Rightarrow> Some x | None \<Rightarrow> b)"

definition unix_dt :: "billing_env \<Rightarrow> json option \<Rightarrow> instant option" where
  "unix_dt e v = Option.bind (Option.bind v (json_num (be_as_i64 e))) (be_timestamp e)"

definition rfc_dt :: "billing_env \<Rightarrow> json option \<Rightarrow> instant option" where
  "rfc_dt e v = Option.bind (Option.bind v json_str) (be_rfc3339 e)"

section \<open>Signatures\<close>

definition TOLERANCE_SECS :: int where
  "TOLERANCE_SECS = 300"

definition outside_tolerance :: "int \<Rightarrow> int \<Rightarrow> bool" where
  "outside_tolerance now_unix ts =
     (let d = (word_of_int now_unix - word_of_int ts :: 64 word); a = (if sint d < 0 then - d else d)
      in TOLERANCE_SECS < sint a)"

definition hex_value :: "char \<Rightarrow> nat option" where
  "hex_value c = (let n = of_char c :: nat in
     if 48 \<le> n \<and> n \<le> 57 then Some (n - 48)
     else if 97 \<le> n \<and> n \<le> 102 then Some (n - 87)
     else if 65 \<le> n \<and> n \<le> 70 then Some (n - 55) else None)"

text \<open>\<open>u8::from_str_radix\<close> of a pair: a leading plus sign is accepted.\<close>

definition hex_pair :: "char \<Rightarrow> char \<Rightarrow> nat option" where
  "hex_pair a b = (if a = CHR ''+'' then hex_value b
     else (case (hex_value a, hex_value b) of (Some x, Some y) \<Rightarrow> Some (16 * x + y) | _ \<Rightarrow> None))"

fun hex_pairs :: "string \<Rightarrow> string option" where
  "hex_pairs (a # b # s) = (case (hex_pair a b, hex_pairs s) of
     (Some n, Some t) \<Rightarrow> Some (char_of n # t) | _ \<Rightarrow> None)"
| "hex_pairs _ = Some []"

definition decode_hex :: "string \<Rightarrow> string option" where
  "decode_hex s = (if odd (length s) \<or> \<not> (\<forall>c \<in> set s. (of_char c :: nat) < 128) then None else hex_pairs s)"

fun sig_parts :: "string list \<Rightarrow> string option \<times> string list \<Rightarrow> string option \<times> string list" where
  "sig_parts [] acc = acc"
| "sig_parts (part # parts) (t, v1s) =
     sig_parts parts (case split_once (CHR ''='') part of
         Some (k, val) \<Rightarrow> if str_trim k = ''t'' then (Some (str_trim val), v1s)
           else if str_trim k = ''v1'' then (t, v1s @ [str_trim val]) else (t, v1s)
       | None \<Rightarrow> (t, v1s))"

definition stripe_signature :: "billing_env \<Rightarrow> string \<Rightarrow> string \<Rightarrow> string \<Rightarrow> int \<Rightarrow> billing_error + unit" where
  "stripe_signature e secret header body now_unix =
     (let (t, v1s) = sig_parts (split_char (CHR '','') header) (None, []) in
      case t of
        None \<Rightarrow> Inl (SignatureError ''missing timestamp'')
      | Some t \<Rightarrow>
          if v1s = [] then Inl (SignatureError ''missing v1 signature'')
          else (case parse_i64 t of
              None \<Rightarrow> Inl (SignatureError ''bad timestamp'')
            | Some ts \<Rightarrow>
                if outside_tolerance now_unix ts then Inl (SignatureError ''timestamp outside tolerance'')
                else if \<exists>v1 \<in> set v1s. decode_hex v1 = Some (be_hmac e secret (t @ ''.'' @ body)) then Inr ()
                else Inl (SignatureError ''signature mismatch'')))"

definition polar_entry :: "billing_env \<Rightarrow> string \<Rightarrow> string \<Rightarrow> bool" where
  "polar_entry e mac entry \<longleftrightarrow> (case split_once (CHR '','') entry of
     Some (version, sig) \<Rightarrow> version = ''v1'' \<and> be_base64 e sig = Some mac | None \<Rightarrow> False)"

definition polar_signature :: "billing_env \<Rightarrow> string \<Rightarrow> string \<Rightarrow> string \<Rightarrow> string \<Rightarrow> string \<Rightarrow> int \<Rightarrow> billing_error + unit" where
  "polar_signature e secret i timestamp sig_header body now_unix =
     (case parse_i64 timestamp of
        None \<Rightarrow> Inl (SignatureError ''bad timestamp'')
      | Some ts \<Rightarrow>
          if outside_tolerance now_unix ts then Inl (SignatureError ''timestamp outside tolerance'')
          else if \<exists>entry \<in> set (split_char (CHR '' '') sig_header).
              polar_entry e (be_hmac e secret (i @ ''.'' @ show_int ts @ ''.'' @ body)) entry then Inr ()
          else Inl (SignatureError ''no matching signature''))"

section \<open>Stripe\<close>

definition blank_row :: "billing_env \<Rightarrow> string \<Rightarrow> revenue_row" where
  "blank_row e source = \<lparr>rv_project = [], rv_customer = None, rv_amount_usd = 0, rv_kind = RkOneTime, rv_period_start = None,
     rv_period_end = None, rv_ts = be_now e, rr_id = [], rr_source = source, rr_external_id = None, rr_product_id = None,
     rr_currency = [], rr_amount_minor = None, rr_fx_rate = None, rr_fx_book_version = None, rr_converted = None\<rparr>"

definition stripe_currency :: "json \<Rightarrow> string" where
  "stripe_currency obj = unwrap_or ''usd'' (get_str obj ''currency'')"

definition stripe_invoice :: "billing_env \<Rightarrow> fx_table \<Rightarrow> json \<Rightarrow> revenue_row option" where
  "stripe_invoice e fx obj =
     Option.bind (get_str obj ''id'') (\<lambda>i.
     Option.bind (or_else (get_i64 e obj ''amount_paid'') (get_i64 e obj ''amount_due'')) (\<lambda>amount.
       let line = json_ptr obj [''lines'', ''data'', ''0''];
           period = Option.bind line (\<lambda>l. json_get l ''period'')
       in Some (money_stamp fx amount ((blank_row e ''stripe'')\<lparr>
            rr_id := ''stripe:'' @ i, rr_external_id := Some i, rv_customer := get_str obj ''customer'',
            rr_product_id := Option.bind (Option.bind line (\<lambda>l. json_ptr l [''price'', ''product''])) json_str,
            rr_currency := to_uppercase (stripe_currency obj),
            rv_kind := (if get_str obj ''subscription'' \<noteq> None then RkSubscription else RkOneTime),
            rv_period_start := Option.bind period (\<lambda>p. unix_dt e (json_get p ''start'')),
            rv_period_end := Option.bind period (\<lambda>p. unix_dt e (json_get p ''end'')),
            rv_ts := unwrap_or (be_now e) (unix_dt e (json_get obj ''created''))\<rparr>))))"

definition latest_refund_at :: "billing_env \<Rightarrow> json \<Rightarrow> instant option" where
  "latest_refund_at e charge =
     Option.bind (Option.bind (json_ptr charge [''refunds'', ''data'']) json_arr) (\<lambda>rs.
       case List.map_filter (\<lambda>r. unix_dt e (json_get r ''created'')) rs of [] \<Rightarrow> None | x # xs \<Rightarrow> Some (fold max xs x))"

definition stripe_refund :: "billing_env \<Rightarrow> fx_table \<Rightarrow> json \<Rightarrow> revenue_row option" where
  "stripe_refund e fx obj =
     Option.bind (get_str obj ''id'') (\<lambda>i.
     Option.bind (get_i64 e obj ''amount_refunded'') (\<lambda>refunded.
       if refunded = 0 then None
       else Some (money_stamp fx refunded ((blank_row e ''stripe'')\<lparr>
            rr_id := ''stripe:refund:'' @ i, rr_external_id := Some (''refund:'' @ i), rv_customer := get_str obj ''customer'',
            rr_currency := to_uppercase (stripe_currency obj), rv_kind := RkRefund,
            rv_ts := unwrap_or (be_now e) (or_else (latest_refund_at e obj) (unix_dt e (json_get obj ''created'')))\<rparr>))))"

definition option_list :: "'a option \<Rightarrow> 'a list" where
  "option_list x = (case x of Some v \<Rightarrow> [v] | None \<Rightarrow> [])"

definition stripe_normalize :: "billing_env \<Rightarrow> fx_table \<Rightarrow> json \<Rightarrow> revenue_row list" where
  "stripe_normalize e fx envelope =
     (let typ = unwrap_or [] (get_str envelope ''type''); obj = unwrap_or JNull (json_ptr envelope [''data'', ''object'']) in
      if typ = ''invoice.paid'' \<or> typ = ''invoice.payment_succeeded'' then option_list (stripe_invoice e fx obj)
      else if typ = ''charge.refunded'' then option_list (stripe_refund e fx obj)
      else [])"

definition stripe_verify :: "billing_env \<Rightarrow> string \<Rightarrow> fx_table \<Rightarrow> (string \<Rightarrow> string option) \<Rightarrow> string \<Rightarrow> int
    \<Rightarrow> billing_error + revenue_row list" where
  "stripe_verify e secret fx header body now_unix =
     (case header ''Stripe-Signature'' of
        None \<Rightarrow> Inl (SignatureError ''missing Stripe-Signature header'')
      | Some sig \<Rightarrow>
          (case stripe_signature e secret sig body now_unix of
             Inl err \<Rightarrow> Inl err
           | Inr _ \<Rightarrow> (case be_from_slice e body of None \<Rightarrow> Inl PayloadError | Some v \<Rightarrow> Inr (stripe_normalize e fx v))))"

section \<open>Polar\<close>

definition order_ref :: "json \<Rightarrow> string option" where
  "order_ref obj = or_else (get_str obj ''order_id'') (get_str obj ''id'')"

definition polar_currency :: "json \<Rightarrow> string" where
  "polar_currency obj = to_uppercase (unwrap_or ''usd'' (get_str obj ''currency''))"

definition amount_minor :: "billing_env \<Rightarrow> json \<Rightarrow> int option" where
  "amount_minor e obj = or_else (get_i64 e obj ''total_amount'') (or_else (get_i64 e obj ''net_amount'')
     (or_else (get_i64 e obj ''subtotal_amount'') (get_i64 e obj ''amount'')))"

definition polar_customer_id :: "string \<Rightarrow> json \<Rightarrow> string option" where
  "polar_customer_id meta_key obj = or_else (Option.bind (json_ptr obj (''metadata'' # split_char (CHR ''/'') meta_key)) json_str)
     (or_else (get_str obj ''customer_id'') (Option.bind (json_ptr obj [''customer'', ''id'']) json_str))"

definition product_id :: "json \<Rightarrow> string option" where
  "product_id obj = or_else (get_str obj ''product_id'') (Option.bind (json_ptr obj [''product'', ''id'']) json_str)"

definition polar_order :: "billing_env \<Rightarrow> string \<Rightarrow> fx_table \<Rightarrow> json \<Rightarrow> revenue_row option" where
  "polar_order e meta_key fx obj =
     Option.bind (get_str obj ''id'') (\<lambda>i.
     Option.bind (amount_minor e obj) (\<lambda>amount.
       let period = json_get obj ''subscription''
       in Some (money_stamp fx amount ((blank_row e ''polar'')\<lparr>
            rr_id := ''polar:'' @ i, rr_external_id := Some i, rv_customer := polar_customer_id meta_key obj,
            rr_product_id := product_id obj, rr_currency := polar_currency obj,
            rv_kind := (if get_str obj ''subscription_id'' \<noteq> None then RkSubscription else RkOneTime),
            rv_period_start := Option.bind period (\<lambda>s. rfc_dt e (json_get s ''current_period_start'')),
            rv_period_end := Option.bind period (\<lambda>s. rfc_dt e (json_get s ''current_period_end'')),
            rv_ts := unwrap_or (be_now e) (rfc_dt e (json_get obj ''created_at''))\<rparr>))))"

definition refund_event :: "billing_env \<Rightarrow> string \<Rightarrow> fx_table \<Rightarrow> string \<Rightarrow> int \<Rightarrow> json \<Rightarrow> revenue_row" where
  "refund_event e meta_key fx order_id amount obj =
     money_stamp fx amount ((blank_row e ''polar'')\<lparr>
       rr_id := ''polar:refund:'' @ order_id, rr_external_id := Some (''refund:'' @ order_id),
       rv_customer := polar_customer_id meta_key obj, rr_currency := polar_currency obj, rv_kind := RkRefund,
       rv_ts := unwrap_or (be_now e) (rfc_dt e (json_get obj ''created_at''))\<rparr>)"

definition polar_order_refund :: "billing_env \<Rightarrow> string \<Rightarrow> fx_table \<Rightarrow> instant option \<Rightarrow> json \<Rightarrow> revenue_row option" where
  "polar_order_refund e meta_key fx refunded_at obj =
     Option.bind (order_ref obj) (\<lambda>i.
     Option.bind (or_else (get_i64 e obj ''refunded_amount'') (amount_minor e obj)) (\<lambda>amount.
       if amount = 0 then None
       else (let ev = refund_event e meta_key fx i amount obj in
         Some (case refunded_at of Some t \<Rightarrow> ev\<lparr>rv_ts := t\<rparr> | None \<Rightarrow> ev))))"

definition polar_refund :: "billing_env \<Rightarrow> string \<Rightarrow> fx_table \<Rightarrow> json \<Rightarrow> revenue_row option" where
  "polar_refund e meta_key fx obj =
     Option.bind (order_ref obj) (\<lambda>i.
     Option.bind (get_i64 e obj ''amount'') (\<lambda>amount.
       if amount = 0 then None else Some (refund_event e meta_key fx i amount obj)))"

definition polar_normalize :: "billing_env \<Rightarrow> string \<Rightarrow> fx_table \<Rightarrow> json \<Rightarrow> revenue_row list" where
  "polar_normalize e meta_key fx envelope =
     (let typ = unwrap_or [] (get_str envelope ''type''); data = unwrap_or JNull (json_get envelope ''data'') in
      if typ = ''order.paid'' then option_list (polar_order e meta_key fx data)
      else if typ = ''order.refunded''
        then option_list (polar_order_refund e meta_key fx (rfc_dt e (json_get envelope ''timestamp'')) data)
      else if typ = ''refund.created'' then option_list (polar_refund e meta_key fx data)
      else [])"

definition polar_verify :: "billing_env \<Rightarrow> string \<Rightarrow> string \<Rightarrow> fx_table \<Rightarrow> (string \<Rightarrow> string option) \<Rightarrow> string \<Rightarrow> int
    \<Rightarrow> billing_error + revenue_row list" where
  "polar_verify e secret meta_key fx header body now_unix =
     (case header ''webhook-id'' of
        None \<Rightarrow> Inl (SignatureError ''missing webhook-id'')
      | Some i \<Rightarrow>
          (case header ''webhook-timestamp'' of
             None \<Rightarrow> Inl (SignatureError ''missing webhook-timestamp'')
           | Some ts \<Rightarrow>
               (case header ''webhook-signature'' of
                  None \<Rightarrow> Inl (SignatureError ''missing webhook-signature'')
                | Some sig \<Rightarrow>
                    (case polar_signature e secret i ts sig body now_unix of
                       Inl err \<Rightarrow> Inl err
                     | Inr _ \<Rightarrow> (case be_from_slice e body of None \<Rightarrow> Inl PayloadError
                         | Some v \<Rightarrow> Inr (polar_normalize e meta_key fx v))))))"

section \<open>The window of a timestamp\<close>

text \<open>
  The difference of two 64-bit times wraps, and so does the absolute value of its least value: apart
  from the times within the tolerance, exactly one other timestamp passes.
\<close>

lemma sint_word_of_int_range: "- (2 ^ 63) \<le> i \<Longrightarrow> i < 2 ^ 63 \<Longrightarrow> sint (word_of_int i :: 64 word) = i"
  by (simp add: signed_of_int signed_take_bit_int_eq_self_iff signed_take_bit_int_eq_self)

definition wrapping_abs :: "64 word \<Rightarrow> 64 word" where
  "wrapping_abs d = (if sint d < 0 then - d else d)"

lemma wrapping_abs_of_int: "- (2 ^ 63) < x \<Longrightarrow> x < 2 ^ 63 \<Longrightarrow> sint (wrapping_abs (word_of_int x)) = \<bar>x\<bar>"
  using sint_word_of_int_range [of x] sint_word_of_int_range [of "- x"] by (simp add: wrapping_abs_def)

lemma wrapping_abs_least: "sint (wrapping_abs (word_of_int (- (2 ^ 63)))) = - (2 ^ 63)"
  by (simp add: wrapping_abs_def)

lemma outside_tolerance_iff:
  assumes "0 \<le> now" and "now < 2 ^ 62" and "- (2 ^ 63) \<le> ts" and "ts < 2 ^ 63"
  shows "outside_tolerance now ts \<longleftrightarrow> 300 < \<bar>now - ts\<bar> \<and> ts \<noteq> now - 2 ^ 63"
proof -
  have out: "outside_tolerance now ts \<longleftrightarrow> 300 < sint (wrapping_abs (word_of_int (now - ts)))"
    by (simp add: outside_tolerance_def wrapping_abs_def TOLERANCE_SECS_def Let_def)
  show ?thesis
  proof (cases "now - ts < 2 ^ 63")
    case True
    then have "sint (wrapping_abs (word_of_int (now - ts))) = \<bar>now - ts\<bar>" using assms by (intro wrapping_abs_of_int) auto
    then show ?thesis using True unfolding out by auto
  next
    case False
    have e: "(word_of_int (now - ts) :: 64 word) = word_of_int (now - ts - 2 ^ 64)"
      by (rule word_of_int_eq_iff [THEN iffD2]) (simp add: take_bit_eq_mod)
    show ?thesis
    proof (cases "now - ts = 2 ^ 63")
      case True
      then have "now - ts - 2 ^ 64 = - (2 ^ 63)" by simp
      then have "sint (wrapping_abs (word_of_int (now - ts))) = - (2 ^ 63)" unfolding e using wrapping_abs_least by presburger
      then show ?thesis using True unfolding out by simp
    next
      case ne: False
      then have "sint (wrapping_abs (word_of_int (now - ts - 2 ^ 64))) = \<bar>now - ts - 2 ^ 64\<bar>"
        using False assms by (intro wrapping_abs_of_int) auto
      then show ?thesis using False assms ne unfolding out e by auto
    qed
  qed
qed

lemma parse_i64_range: "parse_i64 s = Some i \<Longrightarrow> - (2 ^ 63) \<le> i \<and> i < 2 ^ 63"
  by (auto simp: parse_i64_def Let_def split: option.splits if_splits prod.splits)

section \<open>What is accepted was signed\<close>

definition fresh :: "int \<Rightarrow> int \<Rightarrow> bool" where
  "fresh now ts \<longleftrightarrow> \<bar>now - ts\<bar> \<le> TOLERANCE_SECS \<or> ts = now - 2 ^ 63"

lemma not_outside_fresh:
  "0 \<le> now \<Longrightarrow> now < 2 ^ 62 \<Longrightarrow> parse_i64 t = Some ts \<Longrightarrow> \<not> outside_tolerance now ts \<Longrightarrow> fresh now ts"
  using outside_tolerance_iff [of now ts] parse_i64_range [of t ts] by (auto simp: fresh_def TOLERANCE_SECS_def)

definition sig_entry :: "string \<Rightarrow> string \<Rightarrow> string \<Rightarrow> bool" where
  "sig_entry key val part \<longleftrightarrow> (\<exists>k v. split_once (CHR ''='') part = Some (k, v) \<and> str_trim k = key \<and> str_trim v = val)"

lemma sig_parts_entries:
  "sig_parts parts (t0, vs0) = (t, vs) \<Longrightarrow>
     (t = t0 \<or> (\<exists>x. t = Some x \<and> (\<exists>p \<in> set parts. sig_entry ''t'' x p)))
     \<and> (\<forall>v \<in> set vs. v \<in> set vs0 \<or> (\<exists>p \<in> set parts. sig_entry ''v1'' v p))"
proof (induction parts arbitrary: t0 vs0)
  case (Cons p parts)
  obtain t1 vs1 where one: "(case split_once (CHR ''='') p of
         Some (k, val) \<Rightarrow> if str_trim k = ''t'' then (Some (str_trim val), vs0)
           else if str_trim k = ''v1'' then (t0, vs0 @ [str_trim val]) else (t0, vs0)
       | None \<Rightarrow> (t0, vs0)) = (t1, vs1)" by fastforce
  then have "sig_parts parts (t1, vs1) = (t, vs)" using Cons.prems by simp
  note ih = Cons.IH [OF this]
  have "(t1 = t0 \<or> (\<exists>x. t1 = Some x \<and> sig_entry ''t'' x p)) \<and> (\<forall>v \<in> set vs1. v \<in> set vs0 \<or> sig_entry ''v1'' v p)"
    using one by (auto simp: sig_entry_def split: option.splits prod.splits if_splits)
  with ih show ?case by auto
qed simp


lemma stripe_signature_sound:
  assumes "stripe_signature e secret header body now = Inr u" and "0 \<le> now" and "now < 2 ^ 62"
  shows "\<exists>t ts v1. (\<exists>p \<in> set (split_char (CHR '','') header). sig_entry ''t'' t p)
    \<and> (\<exists>p \<in> set (split_char (CHR '','') header). sig_entry ''v1'' v1 p)
    \<and> parse_i64 t = Some ts \<and> fresh now ts \<and> decode_hex v1 = Some (be_hmac e secret (t @ ''.'' @ body))"
proof -
  obtain t v1s where p: "sig_parts (split_char (CHR '','') header) (None, []) = (t, v1s)" by fastforce
  then obtain x ts v1 where x: "t = Some x" "parse_i64 x = Some ts" "\<not> outside_tolerance now ts" "v1 \<in> set v1s"
      "decode_hex v1 = Some (be_hmac e secret (x @ ''.'' @ body))"
    using assms(1) by (auto simp: stripe_signature_def split: option.splits if_splits)
  have "\<exists>q \<in> set (split_char (CHR '','') header). sig_entry ''t'' x q"
    "\<exists>q \<in> set (split_char (CHR '','') header). sig_entry ''v1'' v1 q"
    using sig_parts_entries [OF p] x(1,4) by auto
  then show ?thesis using x(2,5) not_outside_fresh [OF assms(2,3) x(2,3)] by blast
qed

text \<open>
  C14: Nothing is stored that the provider did not sign. When either adapter accepts a delivery, one of the
  signatures in its header is the MAC of this body together with the timestamp it carries, under the
  configured secret, and that timestamp is fresh: within five minutes of now, or the single value
  that wraps the 64-bit difference.
\<close>

theorem accepted_webhook_was_signed:
  assumes "0 \<le> now" and "now < 2 ^ 62"
  shows "(\<forall>rows. stripe_verify e secret fx header body now = Inr rows \<longrightarrow>
      (\<exists>sig t ts v1. header ''Stripe-Signature'' = Some sig
        \<and> (\<exists>p \<in> set (split_char (CHR '','') sig). sig_entry ''t'' t p)
        \<and> (\<exists>p \<in> set (split_char (CHR '','') sig). sig_entry ''v1'' v1 p)
        \<and> parse_i64 t = Some ts \<and> fresh now ts \<and> decode_hex v1 = Some (be_hmac e secret (t @ ''.'' @ body))))
    \<and> (\<forall>rows. polar_verify e secret key fx header body now = Inr rows \<longrightarrow>
      (\<exists>i t ts sig. header ''webhook-id'' = Some i \<and> header ''webhook-timestamp'' = Some t
        \<and> parse_i64 t = Some ts \<and> fresh now ts
        \<and> (\<exists>p \<in> set (split_char (CHR '' '') (the (header ''webhook-signature''))).
            split_once (CHR '','') p = Some (''v1'', sig)
            \<and> be_base64 e sig = Some (be_hmac e secret (i @ ''.'' @ show_int ts @ ''.'' @ body)))))"
proof (intro conjI allI impI)
  fix rows assume a: "stripe_verify e secret fx header body now = Inr rows"
  then obtain sig u where "header ''Stripe-Signature'' = Some sig" "stripe_signature e secret sig body now = Inr u"
    by (auto simp: stripe_verify_def split: option.splits sum.splits)
  with stripe_signature_sound [OF this(2) assms] show "\<exists>sig t ts v1. header ''Stripe-Signature'' = Some sig
        \<and> (\<exists>p \<in> set (split_char (CHR '','') sig). sig_entry ''t'' t p)
        \<and> (\<exists>p \<in> set (split_char (CHR '','') sig). sig_entry ''v1'' v1 p)
        \<and> parse_i64 t = Some ts \<and> fresh now ts \<and> decode_hex v1 = Some (be_hmac e secret (t @ ''.'' @ body))" by blast
next
  fix rows assume a: "polar_verify e secret key fx header body now = Inr rows"
  then obtain i t sig u where h: "header ''webhook-id'' = Some i" "header ''webhook-timestamp'' = Some t"
      "header ''webhook-signature'' = Some sig" "polar_signature e secret i t sig body now = Inr u"
    by (auto simp: polar_verify_def split: option.splits sum.splits)
  then obtain ts p where p: "parse_i64 t = Some ts" "\<not> outside_tolerance now ts" "p \<in> set (split_char (CHR '' '') sig)"
      "polar_entry e (be_hmac e secret (i @ ''.'' @ show_int ts @ ''.'' @ body)) p"
    by (auto simp: polar_signature_def split: option.splits if_splits)
  then obtain x where x: "split_once (CHR '','') p = Some (''v1'', x)"
      "be_base64 e x = Some (be_hmac e secret (i @ ''.'' @ show_int ts @ ''.'' @ body))"
    by (auto simp: polar_entry_def split: option.splits)
  show "\<exists>i t ts sig. header ''webhook-id'' = Some i \<and> header ''webhook-timestamp'' = Some t
        \<and> parse_i64 t = Some ts \<and> fresh now ts
        \<and> (\<exists>p \<in> set (split_char (CHR '' '') (the (header ''webhook-signature''))).
            split_once (CHR '','') p = Some (''v1'', sig)
            \<and> be_base64 e sig = Some (be_hmac e secret (i @ ''.'' @ show_int ts @ ''.'' @ body)))"
    using h p x not_outside_fresh [OF assms p(1,2)] by auto
qed

section \<open>Every adapter stamps its rows from the book\<close>

lemma starts_with_own_prefix [simp]: "starts_with (p @ s) p"
  by (simp add: starts_with_def)

lemma to_usd_uppercase [simp]: "to_usd fx m (to_uppercase c) = to_usd fx m c"
  by (simp add: to_usd_def)

lemma money_stamp_twice: "money_stamp fx m (money_stamp fx m r) = money_stamp fx m r"
  by (simp add: money_stamp_def Let_def)

definition stamped_row :: "fx_table \<Rightarrow> string \<Rightarrow> revenue_row \<Rightarrow> bool" where
  "stamped_row fx source r \<longleftrightarrow> (\<exists>m. r = money_stamp fx m r) \<and> rr_source r = source \<and> starts_with (rr_id r) (source @ '':'')
     \<and> rv_project r = [] \<and> rr_external_id r \<noteq> None"

lemma money_stamp_more [simp]:
  "rr_source (money_stamp fx m r) = rr_source r" "rr_external_id (money_stamp fx m r) = rr_external_id r"
  "rv_ts_update f (money_stamp fx m r) = money_stamp fx m (rv_ts_update f r)"
  by (simp_all add: money_stamp_def Let_def)

lemma stamped_rowI:
  "r = money_stamp fx m q \<Longrightarrow> rr_source q = source \<Longrightarrow> starts_with (rr_id q) (source @ '':'') \<Longrightarrow> rv_project q = []
   \<Longrightarrow> rr_external_id q \<noteq> None \<Longrightarrow> stamped_row fx source r"
  unfolding stamped_row_def by (metis money_stamp_twice money_stamp_fields(1,3) money_stamp_more(1,2))

lemma stripe_invoice_stamped: "stripe_invoice e fx obj = Some r \<Longrightarrow> stamped_row fx ''stripe'' r"
  unfolding stripe_invoice_def Let_def bind_eq_Some_conv option.inject
  by (elim exE conjE, erule stamped_rowI [OF sym]) (simp_all add: blank_row_def starts_with_def)

lemma stripe_refund_stamped: "stripe_refund e fx obj = Some r \<Longrightarrow> stamped_row fx ''stripe'' r"
  unfolding stripe_refund_def bind_eq_Some_conv
  by (elim exE conjE, simp split: if_splits, drule sym, erule stamped_rowI) (simp_all add: blank_row_def starts_with_def)

lemma polar_order_stamped: "polar_order e key fx obj = Some r \<Longrightarrow> stamped_row fx ''polar'' r"
  unfolding polar_order_def Let_def bind_eq_Some_conv option.inject
  by (elim exE conjE, erule stamped_rowI [OF sym]) (simp_all add: blank_row_def starts_with_def)

lemma refund_event_stamped: "stamped_row fx ''polar'' (refund_event e key fx i m obj)"
  unfolding refund_event_def by (rule stamped_rowI [OF refl]) (simp_all add: blank_row_def starts_with_def)

lemma stamped_row_ts: "stamped_row fx source r \<Longrightarrow> stamped_row fx source (r\<lparr>rv_ts := t\<rparr>)"
proof -
  assume r: "stamped_row fx source r"
  then obtain m where m: "r = money_stamp fx m r" by (auto simp: stamped_row_def)
  have "r\<lparr>rv_ts := t\<rparr> = (money_stamp fx m r)\<lparr>rv_ts := t\<rparr>" using m by (rule arg_cong)
  also have "\<dots> = money_stamp fx m (r\<lparr>rv_ts := t\<rparr>)" by (rule money_stamp_more(3))
  finally show ?thesis using r unfolding stamped_row_def by (intro conjI exI) simp_all
qed

lemma polar_order_refund_stamped: "polar_order_refund e key fx at_time obj = Some r \<Longrightarrow> stamped_row fx ''polar'' r"
  unfolding polar_order_refund_def bind_eq_Some_conv
  by (auto simp: refund_event_stamped stamped_row_ts Let_def split: if_splits option.splits)

lemma polar_refund_stamped: "polar_refund e key fx obj = Some r \<Longrightarrow> stamped_row fx ''polar'' r"
  unfolding polar_refund_def bind_eq_Some_conv by (auto simp: refund_event_stamped split: if_splits)

text \<open>
  Every record an adapter makes carries the money of the book it was priced from: amount, rate, version
  and whether a rate was there are those of one conversion of the provider's own minor units. Its id
  names the provider, so records of different providers never meet, and it belongs to no project until
  the handler says which.
\<close>

theorem normalized_rows_are_stamped:
  "list_all (stamped_row fx ''stripe'') (stripe_normalize e fx v) \<and> list_all (stamped_row fx ''polar'') (polar_normalize e key fx v)"
  by (auto simp: stripe_normalize_def polar_normalize_def option_list_def Let_def list_all_iff split: option.splits
      dest!: stripe_invoice_stamped [OF sym] stripe_refund_stamped [OF sym] polar_order_stamped [OF sym]
        polar_order_refund_stamped [OF sym] polar_refund_stamped [OF sym])

section \<open>The two deliveries of a refund\<close>

text \<open>
  Both deliveries of a Polar refund are keyed on the order, so they share a row; the last one stored
  decides its amount. The order's delivery carries the running total, the refund's its own amount: of
  two partial refunds of 5 and 3 the row keeps 8 or 3 by the order in which the deliveries arrive.
\<close>

definition demo_env :: billing_env where
  "demo_env = \<lparr>be_hmac = (\<lambda>_ _. ''M''), be_base64 = (\<lambda>_. Some ''M''), be_from_slice = (\<lambda>_. Some JNull),
     be_as_i64 = parse_i64, be_timestamp = (\<lambda>i. Some i), be_rfc3339 = (\<lambda>_. None), be_now = 0\<rparr>"

definition order_delivery :: json where
  "order_delivery = JObject [(''type'', JString ''order.refunded''),
     (''data'', JObject [(''id'', JString ''o1''), (''refunded_amount'', JNumber ''8'')])]"

definition refund_delivery :: json where
  "refund_delivery = JObject [(''type'', JString ''refund.created''),
     (''data'', JObject [(''id'', JString ''r2''), (''order_id'', JString ''o1''), (''amount'', JNumber ''3'')])]"

lemma refund_amount_depends_on_order:
  "map rr_amount_minor (fold revenue_insert (polar_normalize demo_env [] fx_default order_delivery
      @ polar_normalize demo_env [] fx_default refund_delivery) []) = [Some 3]
   \<and> map rr_amount_minor (fold revenue_insert (polar_normalize demo_env [] fx_default refund_delivery
      @ polar_normalize demo_env [] fx_default order_delivery) []) = [Some 8]"
proof -
  let ?o = "refund_event demo_env [] fx_default ''o1'' 8 (JObject [(''id'', JString ''o1''), (''refunded_amount'', JNumber ''8'')])"
  let ?r = "refund_event demo_env [] fx_default ''o1'' 3
    (JObject [(''id'', JString ''r2''), (''order_id'', JString ''o1''), (''amount'', JNumber ''3'')])"
  have n: "parse_i64 ''8'' = Some 8" "parse_i64 ''3'' = Some 3"
    by (simp_all add: parse_i64_def parse_digits_def digit_value_def is_digit_def)
  have o: "polar_normalize demo_env [] fx_default order_delivery = [?o]"
    by (simp add: polar_normalize_def order_delivery_def polar_order_refund_def get_str_def get_i64_def or_else_def order_ref_def
        unwrap_or_def option_list_def demo_env_def rfc_dt_def n Let_def)
  have r: "polar_normalize demo_env [] fx_default refund_delivery = [?r]"
    by (simp add: polar_normalize_def refund_delivery_def polar_refund_def get_str_def get_i64_def or_else_def order_ref_def
        unwrap_or_def option_list_def demo_env_def n Let_def)
  have f: "rr_id ?o = rr_id ?r" "rr_amount_minor ?o = Some 8" "rr_amount_minor ?r = Some 3" by (simp_all add: refund_event_def)
  show ?thesis unfolding o r using f by (simp add: revenue_insert_def row_by_def update_where_def keep_money_def restate_money_def)
qed

text \<open>A timestamp from the other end of the range passes the tolerance: the difference wraps to the least value.\<close>

lemma wrapped_timestamp_passes: "0 \<le> now \<Longrightarrow> now < 2 ^ 62 \<Longrightarrow> \<not> outside_tolerance now (now - 2 ^ 63)"
  using outside_tolerance_iff [of now "now - 2 ^ 63"] by simp

text \<open>The hexadecimal of a signature is read back.\<close>

definition hex_encode :: "string \<Rightarrow> string" where
  "hex_encode s = concat (map (\<lambda>c. [hex_char (of_char c div 16), hex_char (of_char c mod 16)]) s)"

lemma hex_value_char: "n < 16 \<Longrightarrow> hex_value (hex_char n) = Some n"
  by (cases "n < 10") (auto simp: hex_char_def hex_value_def)

lemma hex_char_not_plus: "n < 16 \<Longrightarrow> hex_char n \<noteq> CHR ''+''"
  using hex_char_code [of n] by auto

lemma hex_roundtrip: "decode_hex (hex_encode s) = Some s"
proof -
  have byte: "(of_char c :: nat) div 16 < 16" for c using nat_of_char_less_256 [of c] by (simp add: less_mult_imp_div_less)
  have small: "n < 16 \<Longrightarrow> (of_char (hex_char n) :: nat) < 128" for n by (simp add: hex_char_def)
  have ascii: "\<forall>c \<in> set (hex_encode s). (of_char c :: nat) < 128" using small byte by (auto simp: hex_encode_def)
  have len: "even (length (hex_encode s))" by (induction s) (simp_all add: hex_encode_def)
  have "hex_pairs (hex_encode s) = Some s"
    by (induction s) (simp_all add: hex_encode_def hex_pair_def hex_value_char hex_char_not_plus byte)
  then show ?thesis using ascii len by (simp add: decode_hex_def)
qed

section \<open>Witness\<close>

lemma accepted_webhook_was_signed_witness:
  "\<exists>t ts v1. parse_i64 t = Some ts \<and> fresh 0 ts \<and> decode_hex v1 = Some (be_hmac demo_env ''s'' (t @ ''.''))"
proof -
  have t: "parse_i64 ''0'' = Some 0" by (simp add: parse_i64_def parse_digits_def digit_value_def is_digit_def)
  have "decode_hex ''4d'' = Some ''M''" by code_simp
  then have "stripe_signature demo_env ''s'' ''t=0,v1=4d'' [] 0 = Inr ()"
    using t outside_tolerance_iff [of 0 0] by (simp add: stripe_signature_def str_trim_def is_space_def demo_env_def)
  then have "stripe_verify demo_env ''s'' fx_default (\<lambda>_. Some ''t=0,v1=4d'') [] 0 = Inr (stripe_normalize demo_env fx_default JNull)"
    by (simp add: stripe_verify_def demo_env_def)
  with accepted_webhook_was_signed [of 0 demo_env "''s''" fx_default "\<lambda>_. Some ''t=0,v1=4d''" "[]" "[]"]
  show ?thesis by (auto simp del: fresh_def)
qed

end
