(* ===== verification/Webhooks.thy ===== *)
theory Webhooks
  imports BillingHook
begin

text \<open>
  The webhook route (\<^verbatim>\<open>crates/api/src/billing.rs\<close>) and the delivery keys it remembers
  (\<^verbatim>\<open>crates/api/src/idempotency.rs\<close>), with the debounce of key stamps of the same file. The
  deliveries in progress are a state machine: each step is one section under the lock of the key set,
  one transaction of the store, or one end of a request. A client that disconnects drops its claim while
  the store's thread still runs, so such a write may land later.
\<close>

section \<open>The keys seen\<close>

record seen =
  sw_capacity :: nat
  sw_set :: "string set"
  sw_in_flight :: "string set"
  sw_fifo :: "string list"

datatype begin_result = BeginNew | BeginDone | BeginInFlight

definition seen_new :: "nat \<Rightarrow> seen" where
  "seen_new capacity = \<lparr>sw_capacity = max capacity 1, sw_set = {}, sw_in_flight = {}, sw_fifo = []\<rparr>"

definition DEFAULT_CAPACITY :: nat where
  "DEFAULT_CAPACITY = 8192"

fun evict_oldest :: "nat \<Rightarrow> string list \<Rightarrow> string set \<Rightarrow> string set \<Rightarrow> string list \<times> string set \<times> string set" where
  "evict_oldest capacity [] keys in_flight = ([], keys, in_flight)"
| "evict_oldest capacity (k # ks) keys in_flight =
     (if capacity < length (k # ks) then evict_oldest capacity ks (keys - {k}) (in_flight - {k})
      else (k # ks, keys, in_flight))"

definition begin_delivery :: "string \<Rightarrow> seen \<Rightarrow> begin_result \<times> seen" where
  "begin_delivery key s =
     (if key \<in> sw_set s then (if key \<in> sw_in_flight s then BeginInFlight else BeginDone, s)
      else (let (fifo, keys, in_flight) =
                evict_oldest (sw_capacity s) (sw_fifo s @ [key]) (insert key (sw_set s)) (insert key (sw_in_flight s))
            in (BeginNew, s\<lparr>sw_set := keys, sw_in_flight := in_flight, sw_fifo := fifo\<rparr>)))"

definition commit_claim :: "string \<Rightarrow> seen \<Rightarrow> seen" where
  "commit_claim key s = s\<lparr>sw_in_flight := sw_in_flight s - {key}\<rparr>"

definition forget_claim :: "string \<Rightarrow> seen \<Rightarrow> seen" where
  "forget_claim key s = (let s = s\<lparr>sw_in_flight := sw_in_flight s - {key}\<rparr> in
     if key \<in> sw_set s then s\<lparr>sw_set := sw_set s - {key}, sw_fifo := filter (\<lambda>k. k \<noteq> key) (sw_fifo s)\<rparr> else s)"

section \<open>The debounce of a key's last use\<close>

definition KEY_TOUCH_INTERVAL :: duration where
  "KEY_TOUCH_INTERVAL = duration_of_secs 60"

definition KEY_TOUCH_MAX_TRACKED :: nat where
  "KEY_TOUCH_MAX_TRACKED = 4096"

definition touch_due :: "(string \<times> instant) list \<Rightarrow> string \<Rightarrow> instant \<Rightarrow> duration \<Rightarrow> bool \<times> (string \<times> instant) list" where
  "touch_due m i now every =
     (case map_of m i of
        Some t \<Rightarrow> if duration_since now t < every then (False, m) else (True, AList.update i now m)
      | None \<Rightarrow>
          (let m = (if KEY_TOUCH_MAX_TRACKED \<le> length m then filter (\<lambda>(k, t). duration_since now t < every) m else m)
           in (True, AList.update i now m)))"

section \<open>The route\<close>

datatype hook_reply = HookOk | NotConfigured string | MissingProject | Unauthorized billing_error | UnknownProject string
  | StillProcessing | StoreFailed

type_synonym billing_source = "(string \<Rightarrow> string option) \<Rightarrow> string \<Rightarrow> int \<Rightarrow> billing_error + revenue_row list"

definition hook_door :: "(string \<rightharpoonup> billing_source) \<Rightarrow> (string \<Rightarrow> bool) \<Rightarrow> string \<Rightarrow> string option
    \<Rightarrow> (string \<Rightarrow> string option) \<Rightarrow> string \<Rightarrow> int \<Rightarrow> hook_reply + string option \<times> revenue_row list" where
  "hook_door sources project_exists provider project header body now =
     (case sources provider of
        None \<Rightarrow> Inl (NotConfigured provider)
      | Some verify \<Rightarrow>
          (case project of
             None \<Rightarrow> Inl MissingProject
           | Some p \<Rightarrow>
               (case verify header body now of
                  Inl e \<Rightarrow> Inl (Unauthorized e)
                | Inr events \<Rightarrow>
                    if \<not> project_exists p then Inl (UnknownProject p)
                    else Inr (map_option (\<lambda>i. provider @ '':'' @ i) (header ''webhook-id''),
                      map (\<lambda>ev. ev\<lparr>rv_project := p\<rparr>) events))))"

text \<open>
  The deliveries past the door: those whose request runs (and whether their batch is stored), those
  whose request is gone while the store's thread runs on, the batches stored so far in order, and the
  deliveries answered with success.
\<close>

type_synonym delivery = "string option \<times> revenue_row list"

record hooks =
  hk_seen :: seen
  hk_table :: "revenue_row list"
  hk_running :: "(delivery \<times> bool) list"
  hk_orphans :: "delivery list"
  hk_log :: "delivery list"
  hk_acked :: "delivery list"

definition hooks_start :: "nat \<Rightarrow> revenue_row list \<Rightarrow> hooks" where
  "hooks_start capacity t = \<lparr>hk_seen = seen_new capacity, hk_table = t, hk_running = [], hk_orphans = [], hk_log = [], hk_acked = []\<rparr>"

definition drop_nth :: "nat \<Rightarrow> 'a list \<Rightarrow> 'a list" where
  "drop_nth i xs = take i xs @ drop (Suc i) xs"

definition forget_key :: "string option \<Rightarrow> seen \<Rightarrow> seen" where
  "forget_key k s = (case k of Some key \<Rightarrow> forget_claim key s | None \<Rightarrow> s)"

definition commit_key :: "string option \<Rightarrow> seen \<Rightarrow> seen" where
  "commit_key k s = (case k of Some key \<Rightarrow> commit_claim key s | None \<Rightarrow> s)"

inductive hook_step :: "(revenue_row \<Rightarrow> bool) \<Rightarrow> hooks \<Rightarrow> hooks \<Rightarrow> bool" for writes where
  arrive_keyless: "hook_step writes s (s\<lparr>hk_running := hk_running s @ [((None, evs), False)]\<rparr>)"
| arrive_new: "begin_delivery key (hk_seen s) = (BeginNew, seen')
    \<Longrightarrow> hook_step writes s (s\<lparr>hk_seen := seen', hk_running := hk_running s @ [((Some key, evs), False)]\<rparr>)"
| arrive_done: "begin_delivery key (hk_seen s) = (BeginDone, seen')
    \<Longrightarrow> hook_step writes s (s\<lparr>hk_seen := seen', hk_acked := hk_acked s @ [(Some key, evs)]\<rparr>)"
| arrive_busy: "begin_delivery key (hk_seen s) = (BeginInFlight, seen') \<Longrightarrow> hook_step writes s (s\<lparr>hk_seen := seen'\<rparr>)"
| store_ok: "i < length (hk_running s) \<Longrightarrow> hk_running s ! i = ((k, evs), False) \<Longrightarrow> insert_batch writes evs (hk_table s) = Inr t
    \<Longrightarrow> hook_step writes s (s\<lparr>hk_table := t, hk_running := (hk_running s)[i := ((k, evs), True)], hk_log := hk_log s @ [(k, evs)]\<rparr>)"
| store_fail: "i < length (hk_running s) \<Longrightarrow> hk_running s ! i = ((k, evs), False)
    \<Longrightarrow> hook_step writes s (s\<lparr>hk_seen := forget_key k (hk_seen s), hk_running := drop_nth i (hk_running s)\<rparr>)"
| finish: "i < length (hk_running s) \<Longrightarrow> hk_running s ! i = ((k, evs), True)
    \<Longrightarrow> hook_step writes s (s\<lparr>hk_seen := commit_key k (hk_seen s), hk_running := drop_nth i (hk_running s),
          hk_acked := hk_acked s @ [(k, evs)]\<rparr>)"
| disconnect: "i < length (hk_running s) \<Longrightarrow> hk_running s ! i = ((k, evs), stored)
    \<Longrightarrow> hook_step writes s (s\<lparr>hk_seen := forget_key k (hk_seen s), hk_running := drop_nth i (hk_running s),
          hk_orphans := (if stored then hk_orphans s else hk_orphans s @ [(k, evs)])\<rparr>)"
| orphan_ok: "i < length (hk_orphans s) \<Longrightarrow> hk_orphans s ! i = (k, evs) \<Longrightarrow> insert_batch writes evs (hk_table s) = Inr t
    \<Longrightarrow> hook_step writes s (s\<lparr>hk_table := t, hk_orphans := drop_nth i (hk_orphans s), hk_log := hk_log s @ [(k, evs)]\<rparr>)"
| orphan_fail: "i < length (hk_orphans s) \<Longrightarrow> hook_step writes s (s\<lparr>hk_orphans := drop_nth i (hk_orphans s)\<rparr>)"

inductive hook_run :: "(revenue_row \<Rightarrow> bool) \<Rightarrow> hooks \<Rightarrow> hooks \<Rightarrow> bool" for writes where
  hook_run_refl: "hook_run writes s s"
| hook_run_step: "hook_run writes s s' \<Longrightarrow> hook_step writes s' s'' \<Longrightarrow> hook_run writes s s''"

section \<open>The key set is bounded and consistent\<close>

definition seen_ok :: "seen \<Rightarrow> bool" where
  "seen_ok s \<longleftrightarrow> distinct (sw_fifo s) \<and> sw_set s = set (sw_fifo s) \<and> sw_in_flight s \<subseteq> sw_set s
     \<and> length (sw_fifo s) \<le> sw_capacity s \<and> 0 < sw_capacity s"

lemma seen_ok_new: "seen_ok (seen_new capacity)"
  by (simp add: seen_ok_def seen_new_def)

lemma evict_oldest_effect:
  "evict_oldest capacity ks keys in_flight = (fifo, keys', in_flight') \<Longrightarrow> distinct ks \<Longrightarrow> keys = set ks \<Longrightarrow> in_flight \<subseteq> keys
   \<Longrightarrow> fifo = drop (length ks - capacity) ks \<and> keys' = set fifo \<and> in_flight' = in_flight \<inter> set fifo"
proof (induction ks arbitrary: keys in_flight)
  case (Cons k ks)
  show ?case
  proof (cases "capacity < length (k # ks)")
    case True
    then have "evict_oldest capacity ks (keys - {k}) (in_flight - {k}) = (fifo, keys', in_flight')" using Cons.prems(1) by simp
    from Cons.IH [OF this] Cons.prems(2-) have ih: "fifo = drop (length ks - capacity) ks" "keys' = set fifo"
      "in_flight' = (in_flight - {k}) \<inter> set fifo" by auto
    have "k \<notin> set fifo" using ih(1) Cons.prems(2) by (auto dest: in_set_dropD)
    then show ?thesis using ih True by (auto simp: Suc_diff_le)
  qed (use Cons.prems in auto)
qed simp

lemma begin_delivery_effect:
  assumes "seen_ok s" and "begin_delivery key s = (b, s')"
  shows "seen_ok s'" and "b = BeginNew \<longleftrightarrow> key \<notin> sw_set s"
    and "b = BeginDone \<longleftrightarrow> key \<in> sw_set s \<and> key \<notin> sw_in_flight s"
    and "sw_set s' - sw_in_flight s' \<subseteq> sw_set s - sw_in_flight s"
proof -
  have "seen_ok s' \<and> (b = BeginNew \<longleftrightarrow> key \<notin> sw_set s) \<and> (b = BeginDone \<longleftrightarrow> key \<in> sw_set s \<and> key \<notin> sw_in_flight s)
      \<and> sw_set s' - sw_in_flight s' \<subseteq> sw_set s - sw_in_flight s"
  proof (cases "key \<in> sw_set s")
    case False
    obtain fifo keys in_flight where e: "evict_oldest (sw_capacity s) (sw_fifo s @ [key]) (insert key (sw_set s))
        (insert key (sw_in_flight s)) = (fifo, keys, in_flight)" by (metis prod_cases3)
    have "distinct (sw_fifo s @ [key])" "insert key (sw_set s) = set (sw_fifo s @ [key])"
      "insert key (sw_in_flight s) \<subseteq> insert key (sw_set s)" using assms(1) False by (auto simp: seen_ok_def)
    from evict_oldest_effect [OF e this]
    have f: "fifo = drop (length (sw_fifo s @ [key]) - sw_capacity s) (sw_fifo s @ [key])" "keys = set fifo"
      "in_flight = insert key (sw_in_flight s) \<inter> set fifo" by auto
    have sub: "set fifo \<subseteq> insert key (sw_set s)"
      using assms(1) set_drop_subset [of "length (sw_fifo s @ [key]) - sw_capacity s" "sw_fifo s @ [key]"]
      unfolding f(1) by (auto simp: seen_ok_def)
    have "distinct fifo" using assms(1) False unfolding f(1) by (intro distinct_drop) (auto simp: seen_ok_def)
    moreover have "length fifo \<le> sw_capacity s" unfolding f(1) by simp
    moreover have s': "b = BeginNew" "s' = s\<lparr>sw_set := keys, sw_in_flight := in_flight, sw_fifo := fifo\<rparr>"
      using assms(2) False e by (auto simp: begin_delivery_def)
    ultimately show ?thesis using False assms(1) f(2,3) sub by (auto simp: seen_ok_def)
  qed (use assms in \<open>auto simp: begin_delivery_def split: if_splits\<close>)
  then show "seen_ok s'" and "b = BeginNew \<longleftrightarrow> key \<notin> sw_set s"
    and "b = BeginDone \<longleftrightarrow> key \<in> sw_set s \<and> key \<notin> sw_in_flight s"
    and "sw_set s' - sw_in_flight s' \<subseteq> sw_set s - sw_in_flight s" by blast+
qed

lemma seen_ok_commit: "seen_ok s \<Longrightarrow> seen_ok (commit_key k s)"
  by (auto simp: seen_ok_def commit_key_def commit_claim_def split: option.splits)

lemma forget_claim_effect:
  "sw_set (forget_claim key s) = sw_set s - {key}" "sw_in_flight (forget_claim key s) = sw_in_flight s - {key}"
  "sw_capacity (forget_claim key s) = sw_capacity s"
  "sw_fifo (forget_claim key s) = (if key \<in> sw_set s then filter (\<lambda>k. k \<noteq> key) (sw_fifo s) else sw_fifo s)"
  by (auto simp: forget_claim_def Let_def)

lemma seen_ok_forget: "seen_ok s \<Longrightarrow> seen_ok (forget_key k s)"
proof -
  assume s: "seen_ok s"
  have "length (filter (\<lambda>k. k \<noteq> key) (sw_fifo s)) \<le> sw_capacity s" for key
    using s le_trans [OF length_filter_le] by (auto simp: seen_ok_def)
  then show ?thesis using s by (auto simp: seen_ok_def forget_key_def forget_claim_effect split: option.splits)
qed

lemma done_commit: "sw_set (commit_key k s) - sw_in_flight (commit_key k s)
    \<subseteq> (sw_set s - sw_in_flight s) \<union> (case k of Some key \<Rightarrow> {key} | None \<Rightarrow> {})"
  by (auto simp: commit_key_def commit_claim_def split: option.splits)

lemma done_forget: "sw_set (forget_key k s) - sw_in_flight (forget_key k s) \<subseteq> sw_set s - sw_in_flight s"
  by (auto simp: forget_key_def forget_claim_effect split: option.splits)

text \<open>A dropped claim leaves its key unseen, so the provider's retry is processed anew.\<close>

lemma retry_is_reprocessed: "seen_ok s \<Longrightarrow> fst (begin_delivery key (forget_claim key s)) = BeginNew"
  using begin_delivery_effect(2) [OF seen_ok_forget [of s "Some key"]]
  by (metis forget_key_def forget_claim_effect(1) Diff_iff insertI1 option.simps(5) prod.collapse)

section \<open>An acknowledged delivery is stored\<close>

definition committed :: "hooks \<Rightarrow> string set" where
  "committed s = {key. \<exists>evs. (Some key, evs) \<in> set (hk_log s)}"

definition hooks_inv :: "revenue_row list \<Rightarrow> hooks \<Rightarrow> bool" where
  "hooks_inv t0 s \<longleftrightarrow> seen_ok (hk_seen s)
     \<and> hk_table s = fold (\<lambda>d. fold revenue_insert (snd d)) (hk_log s) t0
     \<and> (\<forall>d. (d, True) \<in> set (hk_running s) \<longrightarrow> d \<in> set (hk_log s))
     \<and> sw_set (hk_seen s) - sw_in_flight (hk_seen s) \<subseteq> committed s
     \<and> (\<forall>k evs. (k, evs) \<in> set (hk_acked s) \<longrightarrow>
          (case k of Some key \<Rightarrow> key \<in> committed s | None \<Rightarrow> (k, evs) \<in> set (hk_log s)))"

lemma set_drop_nth: "set (drop_nth i xs) \<subseteq> set xs"
  unfolding drop_nth_def using set_take_subset [of i xs] set_drop_subset [of "Suc i" xs] by auto

lemma committed_snoc: "committed s \<subseteq> committed (s\<lparr>hk_log := hk_log s @ [d]\<rparr>)"
  by (auto simp: committed_def)

lemma hooks_invD:
  assumes "hooks_inv t0 s"
  shows "seen_ok (hk_seen s)" "hk_table s = fold (\<lambda>d. fold revenue_insert (snd d)) (hk_log s) t0"
    "(d, True) \<in> set (hk_running s) \<Longrightarrow> d \<in> set (hk_log s)"
    "sw_set (hk_seen s) - sw_in_flight (hk_seen s) \<subseteq> committed s"
    "(k, evs) \<in> set (hk_acked s) \<Longrightarrow> case k of Some key \<Rightarrow> key \<in> committed s | None \<Rightarrow> (k, evs) \<in> set (hk_log s)"
  using assms unfolding hooks_inv_def by blast+

lemma hooks_invI:
  assumes "seen_ok (hk_seen s)" "hk_table s = fold (\<lambda>d. fold revenue_insert (snd d)) (hk_log s) t0"
    "\<And>d. (d, True) \<in> set (hk_running s) \<Longrightarrow> d \<in> set (hk_log s)"
    "sw_set (hk_seen s) - sw_in_flight (hk_seen s) \<subseteq> committed s"
    "\<And>k evs. (k, evs) \<in> set (hk_acked s) \<Longrightarrow> case k of Some key \<Rightarrow> key \<in> committed s | None \<Rightarrow> (k, evs) \<in> set (hk_log s)"
  shows "hooks_inv t0 s"
  using assms unfolding hooks_inv_def by blast

lemma committed_simps [simp]:
  "committed (hk_seen_update f s) = committed s" "committed (hk_table_update g s) = committed s"
  "committed (hk_running_update h s) = committed s" "committed (hk_orphans_update j s) = committed s"
  "committed (hk_acked_update l s) = committed s"
  "committed (hk_log_update (\<lambda>_. hk_log s @ [(k, evs)]) s) = committed s \<union> (case k of Some key \<Rightarrow> {key} | None \<Rightarrow> {})"
  by (auto simp: committed_def split: option.splits)

lemma insert_batch_Inr: "insert_batch writes evs t = Inr t' \<Longrightarrow> t' = fold revenue_insert evs t"
  by (simp add: insert_batch_def split: if_splits)

lemma hooks_inv_arrive:
  assumes "hooks_inv t0 s" and "begin_delivery key (hk_seen s) = (b, seen')"
  shows "seen_ok seen'" "sw_set seen' - sw_in_flight seen' \<subseteq> committed s" "b = BeginDone \<Longrightarrow> key \<in> committed s"
  using begin_delivery_effect [OF hooks_invD(1) [OF assms(1)] assms(2)] hooks_invD(4) [OF assms(1)] by blast+

lemma hooks_inv_log:
  assumes inv: "hooks_inv t0 s" and t: "insert_batch writes evs (hk_table s) = Inr t"
    and run: "\<And>d. (d, True) \<in> set run \<Longrightarrow> d = (k, evs) \<or> (d, True) \<in> set (hk_running s)"
  shows "hooks_inv t0 (s\<lparr>hk_table := t, hk_running := run, hk_orphans := orphans, hk_log := hk_log s @ [(k, evs)]\<rparr>)"
proof (rule hooks_invI)
  let ?s = "s\<lparr>hk_table := t, hk_running := run, hk_orphans := orphans, hk_log := hk_log s @ [(k, evs)]\<rparr>"
  have c: "committed s \<subseteq> committed ?s" by (auto simp: committed_def)
  show "seen_ok (hk_seen ?s)" using hooks_invD(1) [OF inv] by simp
  show "hk_table ?s = fold (\<lambda>d. fold revenue_insert (snd d)) (hk_log ?s) t0"
    using insert_batch_Inr [OF t] hooks_invD(2) [OF inv] by simp
  show "d \<in> set (hk_log ?s)" if "(d, True) \<in> set (hk_running ?s)" for d
    using run [of d] that hooks_invD(3) [OF inv, of d] by auto
  show "sw_set (hk_seen ?s) - sw_in_flight (hk_seen ?s) \<subseteq> committed ?s" using hooks_invD(4) [OF inv] c by simp
  show "case j of Some key \<Rightarrow> key \<in> committed ?s | None \<Rightarrow> (j, xs) \<in> set (hk_log ?s)" if "(j, xs) \<in> set (hk_acked ?s)" for j xs
    using hooks_invD(5) [OF inv, of j xs] that c by (auto split: option.splits)
qed

lemma hooks_inv_quiet:
  assumes inv: "hooks_inv t0 s" and "seen_ok seen'" and "sw_set seen' - sw_in_flight seen' \<subseteq> committed s"
    and "\<And>d. (d, True) \<in> set run \<Longrightarrow> (d, True) \<in> set (hk_running s)"
    and "\<And>k evs. (k, evs) \<in> set acked \<Longrightarrow> (k, evs) \<in> set (hk_acked s)
      \<or> (case k of Some key \<Rightarrow> key \<in> committed s | None \<Rightarrow> (k, evs) \<in> set (hk_log s))"
  shows "hooks_inv t0 (s\<lparr>hk_seen := seen', hk_running := run, hk_orphans := orphans, hk_acked := acked\<rparr>)"
proof (rule hooks_invI)
  let ?s = "s\<lparr>hk_seen := seen', hk_running := run, hk_orphans := orphans, hk_acked := acked\<rparr>"
  have c: "committed ?s = committed s" by (simp add: committed_def)
  show "seen_ok (hk_seen ?s)" using assms(2) by simp
  show "hk_table ?s = fold (\<lambda>d. fold revenue_insert (snd d)) (hk_log ?s) t0" using hooks_invD(2) [OF inv] by simp
  show "d \<in> set (hk_log ?s)" if "(d, True) \<in> set (hk_running ?s)" for d
    using that assms(4) hooks_invD(3) [OF inv, of d] by simp
  show "sw_set (hk_seen ?s) - sw_in_flight (hk_seen ?s) \<subseteq> committed ?s" using assms(3) c by simp
  show "case k of Some key \<Rightarrow> key \<in> committed ?s | None \<Rightarrow> (k, evs) \<in> set (hk_log ?s)" if "(k, evs) \<in> set (hk_acked ?s)" for k evs
    using assms(5) [of k evs] that hooks_invD(5) [OF inv, of k evs] c by (auto split: option.splits)
qed

lemma hooks_inv_forget:
  assumes "hooks_inv t0 s"
  shows "hooks_inv t0 (s\<lparr>hk_seen := forget_key k (hk_seen s), hk_running := drop_nth i (hk_running s), hk_orphans := orphans\<rparr>)"
proof -
  have "sw_set (forget_key k (hk_seen s)) - sw_in_flight (forget_key k (hk_seen s)) \<subseteq> committed s"
    using done_forget hooks_invD(4) [OF assms] by blast
  then have "hooks_inv t0 (s\<lparr>hk_seen := forget_key k (hk_seen s), hk_running := drop_nth i (hk_running s),
      hk_orphans := orphans, hk_acked := hk_acked s\<rparr>)"
    using set_drop_nth [of i "hk_running s"]
    by (intro hooks_inv_quiet [OF assms seen_ok_forget [OF hooks_invD(1) [OF assms]]]) auto
  then show ?thesis by simp
qed

lemma hooks_inv_step: "hook_step writes s s' \<Longrightarrow> hooks_inv t0 s \<Longrightarrow> hooks_inv t0 s'"
proof (induction rule: hook_step.induct)
  case (arrive_keyless s evs)
  show ?case using hooks_inv_quiet [OF arrive_keyless hooks_invD(1,4) [OF arrive_keyless],
      where run = "hk_running s @ [((None, evs), False)]" and acked = "hk_acked s" and orphans = "hk_orphans s"] by simp
next
  case (arrive_new key s seen' evs)
  note a = hooks_inv_arrive [OF arrive_new(2,1)]
  show ?case using hooks_inv_quiet [OF arrive_new(2) a(1,2), where run = "hk_running s @ [((Some key, evs), False)]" and acked = "hk_acked s" and orphans = "hk_orphans s"]
    by simp
next
  case (arrive_done key s seen' evs)
  note a = hooks_inv_arrive [OF arrive_done(2,1)]
  have "(k, xs) \<in> set (hk_acked s) \<or> (case k of Some key \<Rightarrow> key \<in> committed s | None \<Rightarrow> (k, xs) \<in> set (hk_log s))"
    if "(k, xs) \<in> set (hk_acked s @ [(Some key, evs)])" for k xs
    using that a(3) by auto
  then have "hooks_inv t0 (s\<lparr>hk_seen := seen', hk_running := hk_running s, hk_orphans := hk_orphans s,
      hk_acked := hk_acked s @ [(Some key, evs)]\<rparr>)"
    by (intro hooks_inv_quiet [OF arrive_done(2) a(1,2)]) simp_all
  then show ?case by simp
next
  case (arrive_busy key s seen')
  note a = hooks_inv_arrive [OF arrive_busy(2,1)]
  show ?case using hooks_inv_quiet [OF arrive_busy(2) a(1,2), where run = "hk_running s" and acked = "hk_acked s" and orphans = "hk_orphans s"] by simp
next
  case (store_ok i s k evs t)
  have "d = (k, evs) \<or> (d, True) \<in> set (hk_running s)" if "(d, True) \<in> set ((hk_running s)[i := ((k, evs), True)])" for d
    using set_update_subset_insert [of "hk_running s" i "((k, evs), True)"] that by auto
  from hooks_inv_log [OF store_ok(4,3) this, where orphans = "hk_orphans s"] show ?case by simp
next
  case (store_fail i s k evs)
  from hooks_inv_forget [OF store_fail(3), where k = k and i = i and orphans = "hk_orphans s"] show ?case by simp
next
  case (finish i s k evs)
  have mem: "(k, evs) \<in> set (hk_log s)" using hooks_invD(3) [OF finish(3)] nth_mem [OF finish(1)] finish(2) by simp
  then have c: "(case k of Some key \<Rightarrow> {key} | None \<Rightarrow> {}) \<subseteq> committed s" by (auto simp: committed_def split: option.splits)
  have settled: "sw_set (commit_key k (hk_seen s)) - sw_in_flight (commit_key k (hk_seen s)) \<subseteq> committed s"
    using done_commit [of k "hk_seen s"] hooks_invD(4) [OF finish(3)] c by blast
  have acked: "(j, xs) \<in> set (hk_acked s) \<or> (case j of Some key \<Rightarrow> key \<in> committed s | None \<Rightarrow> (j, xs) \<in> set (hk_log s))"
    if "(j, xs) \<in> set (hk_acked s @ [(k, evs)])" for j xs
    using that mem c by (auto split: option.splits)
  have "hooks_inv t0 (s\<lparr>hk_seen := commit_key k (hk_seen s), hk_running := drop_nth i (hk_running s),
      hk_orphans := hk_orphans s, hk_acked := hk_acked s @ [(k, evs)]\<rparr>)"
    using set_drop_nth [of i "hk_running s"] acked
    by (intro hooks_inv_quiet [OF finish(3) seen_ok_commit [OF hooks_invD(1) [OF finish(3)]] settled]) auto
  then show ?case by simp
next
  case (disconnect i s k evs stored)
  from disconnect(3) show ?case by (rule hooks_inv_forget)
next
  case (orphan_ok i s k evs t)
  from hooks_inv_log [OF orphan_ok(4,3), where run = "hk_running s" and k = k and orphans = "drop_nth i (hk_orphans s)"] show ?case by simp
next
  case (orphan_fail i s)
  from hooks_inv_quiet [OF orphan_fail(2) hooks_invD(1,4) [OF orphan_fail(2)], where run = "hk_running s" and acked = "hk_acked s" and orphans = "drop_nth i (hk_orphans s)"]
  show ?case by simp
qed

lemma hooks_inv_start: "hooks_inv t (hooks_start capacity t)"
  by (rule hooks_invI) (simp_all add: hooks_start_def seen_ok_new, simp add: seen_new_def)

lemma hooks_inv_run: "hook_run writes s s' \<Longrightarrow> hooks_inv t0 s \<Longrightarrow> hooks_inv t0 s'"
  by (induction rule: hook_run.induct) (auto intro: hooks_inv_step)

lemma ids_kept: "rr_id ` set t \<subseteq> rr_id ` set (fold revenue_insert evs t)"
proof (induction evs arbitrary: t)
  case (Cons ev evs)
  have "rr_id ` set t \<subseteq> rr_id ` set (revenue_insert ev t)" using arg_cong [OF ids_insert [of ev t], of set] by auto
  then show ?case using Cons.IH [of "revenue_insert ev t"] by auto
qed simp

lemma ids_stored: "rr_id ` set evs \<subseteq> rr_id ` set (fold revenue_insert evs t)"
proof (induction evs arbitrary: t)
  case (Cons ev evs)
  have "rr_id ev \<in> rr_id ` set (revenue_insert ev t)" using arg_cong [OF ids_insert [of ev t], of set] by auto
  then show ?case using Cons.IH [of "revenue_insert ev t"] ids_kept [of "revenue_insert ev t" evs] by auto
qed simp

lemma ids_kept_log: "rr_id ` set t \<subseteq> rr_id ` set (fold (\<lambda>d. fold revenue_insert (snd d)) ds t)"
proof (induction ds arbitrary: t)
  case (Cons d ds)
  show ?case using ids_kept [of t "snd d"] Cons.IH [of "fold revenue_insert (snd d) t"] by simp
qed simp

lemma ids_log: "d \<in> set ds \<Longrightarrow> rr_id ` set (snd d) \<subseteq> rr_id ` set (fold (\<lambda>d. fold revenue_insert (snd d)) ds t)"
proof (induction ds arbitrary: t)
  case (Cons e ds)
  show ?case
  proof (cases "d = e")
    case True
    then show ?thesis
      using ids_stored [of "snd e" t] ids_kept_log [of "fold revenue_insert (snd e) t" ds] by simp
  qed (use Cons in simp)
qed simp

text \<open>
  C5: A delivery answered with success is in the books. However the requests, the store's threads and the
  disconnections interleave, every acknowledged delivery, or the earlier delivery of the same key it was
  taken for, was stored in one batch that succeeded, and the rows of that batch are in the table; and the
  set of remembered keys keeps within its capacity.
\<close>

theorem acknowledged_delivery_is_stored:
  assumes "hook_run writes (hooks_start capacity t0) s"
  shows "(\<forall>(k, evs) \<in> set (hk_acked s). \<exists>evs'. (k, evs') \<in> set (hk_log s) \<and> rr_id ` set evs' \<subseteq> rr_id ` set (hk_table s)
        \<and> (k = None \<longrightarrow> evs' = evs))
    \<and> card (sw_set (hk_seen s)) \<le> sw_capacity (hk_seen s) \<and> sw_in_flight (hk_seen s) \<subseteq> sw_set (hk_seen s)
    \<and> hk_table s = fold (\<lambda>d. fold revenue_insert (snd d)) (hk_log s) t0"
proof -
  note inv = hooks_inv_run [OF assms hooks_inv_start]
  have "\<exists>evs'. (k, evs') \<in> set (hk_log s) \<and> rr_id ` set evs' \<subseteq> rr_id ` set (hk_table s) \<and> (k = None \<longrightarrow> evs' = evs)"
    if acked: "(k, evs) \<in> set (hk_acked s)" for k evs
  proof -
    obtain evs' where "(k, evs') \<in> set (hk_log s)" "k = None \<longrightarrow> evs' = evs"
      using hooks_invD(5) [OF inv acked] by (cases k) (auto simp: committed_def)
    then show ?thesis using ids_log [of "(k, evs')" "hk_log s" t0] hooks_invD(2) [OF inv] by auto
  qed
  moreover have "card (sw_set (hk_seen s)) \<le> sw_capacity (hk_seen s)" "sw_in_flight (hk_seen s) \<subseteq> sw_set (hk_seen s)"
    using hooks_invD(1) [OF inv] card_length [of "sw_fifo (hk_seen s)"] by (auto simp: seen_ok_def)
  ultimately show ?thesis using hooks_invD(2) [OF inv] by blast
qed

lemma acknowledged_delivery_is_stored_witness:
  "\<exists>s. hook_run (\<lambda>_. True) (hooks_start 1 []) s \<and> hk_acked s = [(Some ''stripe:wh_1'', [demo_row])]
     \<and> rr_id ` set [demo_row] \<subseteq> rr_id ` set (hk_table s)"
proof -
  let ?d = "(Some ''stripe:wh_1'', [demo_row])"
  let ?seen = "(seen_new 1)\<lparr>sw_set := {''stripe:wh_1''}, sw_in_flight := {''stripe:wh_1''}, sw_fifo := [''stripe:wh_1'']\<rparr>"
  let ?s1 = "(hooks_start 1 [])\<lparr>hk_seen := ?seen, hk_running := hk_running (hooks_start 1 []) @ [(?d, False)]\<rparr>"
  let ?s2 = "?s1\<lparr>hk_table := [demo_row], hk_running := (hk_running ?s1)[0 := (?d, True)], hk_log := hk_log ?s1 @ [?d]\<rparr>"
  let ?s3 = "?s2\<lparr>hk_seen := commit_key (Some ''stripe:wh_1'') (hk_seen ?s2), hk_running := drop_nth 0 (hk_running ?s2),
      hk_acked := hk_acked ?s2 @ [?d]\<rparr>"
  have 1: "hook_step (\<lambda>_. True) (hooks_start 1 []) ?s1"
    by (rule hook_step.arrive_new) (simp add: begin_delivery_def hooks_start_def seen_new_def)
  have 2: "hook_step (\<lambda>_. True) ?s1 ?s2"
    by (rule hook_step.store_ok [where evs = "[demo_row]"])
      (simp_all add: hooks_start_def insert_batch_def revenue_insert_def row_by_def)
  have 3: "hook_step (\<lambda>_. True) ?s2 ?s3"
    by (rule hook_step.finish [where evs = "[demo_row]"]) (simp_all add: hooks_start_def)
  have run: "hook_run (\<lambda>_. True) (hooks_start 1 []) ?s3"
    by (rule hook_run_step [OF hook_run_step [OF hook_run_step [OF hook_run_refl 1] 2] 3])
  have acked: "hk_acked ?s3 = [?d]" "hk_log ?s3 = [?d]" by (simp_all add: hooks_start_def)
  have "rr_id ` set [demo_row] \<subseteq> rr_id ` set (hk_table ?s3)"
    using acknowledged_delivery_is_stored [OF run] unfolding acked by auto
  with run acked(1) show ?thesis by blast
qed

section \<open>The debounce does not bound its map\<close>

text \<open>
  Past the bound only stale entries are swept: when every tracked key was used within the interval, a
  new one is admitted all the same, so the map grows with the keys in use.
\<close>

lemma touch_map_exceeds_its_bound:
  assumes "\<forall>(k, t) \<in> set m. duration_since now t < every" and "map_of m i = None"
  shows "touch_due m i now every = (True, AList.update i now m)" and "length (AList.update i now m) = length m + 1"
proof -
  have "filter (\<lambda>(k, t). duration_since now t < every) m = m" using assms(1) by (induction m) auto
  then show "touch_due m i now every = (True, AList.update i now m)" using assms(2) by (simp add: touch_due_def)
  show "length (AList.update i now m) = length m + 1" using assms(2) by (induction m) (auto split: if_splits)
qed

end
