(* ===== verification/Spec2Isabelle.thy ===== *)
theory Spec2Isabelle
  imports GatewayFailover JobQueue RelayQueue PriceFill IngestBatch TraceView AccessLayer Breaker JudgeRun Webhooks
begin

text \<open>
  LightTrack: a verification library for the decision logic of the workspace's crates.
\<close>

section \<open>The door and the trace view\<close>

text \<open>The door stores the latency a call reports, whatever it is.\<close>

lemma prepared_latency:
  assumes "prepare_event e cfg ev0 pid key_id p new_id now = Inr ev"
  shows "ev_latency_ms ev = ev_latency_ms ev0"
proof -
  have "ev_latency_ms (stamped ev0 pid key_id new_id now) = ev_latency_ms ev0"
    by (simp add: stamped_def stamp_api_key_def normalize_ids_def Let_def split: option.splits metadata.splits)
  moreover have "ev_latency_ms (apply_class e r x p) = ev_latency_ms x" for r x
    by (cases p) (simp_all add: apply_class_def redact_event_def write_stamp_def scrub_event_def apply_policy_def
        strip_client_stamp_def case_prod_beta Let_def split: metadata.splits)
  ultimately show ?thesis
    unfolding prepare_event_Inr [OF assms]
    by (simp add: normalize_failure_class_def mark_cost_source_def ensure_cost_def Let_def)
qed

text \<open>
  One call is enough to hide a trace: the door admits an event whose latency is the largest a signed
  clock holds, and no read of its trace, however it is bounded, answers again.
\<close>

lemma one_event_blinds_its_trace:
  "\<exists>ev. prepare_event clean_env plain_door endless_call ''p'' (Some ''k1'') RedactNone ''fresh'' 1000 = Inr ev
     \<and> (\<forall>events n. trace_from_events_bounded (ev # events) n = Panic)"
proof -
  have "validate_event (dc_policy plain_door) (stamped endless_call ''p'' (Some ''k1'') ''fresh'' 1000) 1000 = Inr ()"
    by (simp add: validate_event_def stamped_frame stamped_def endless_call_def span_at_def sample_event_def
        normalize_ids_def stamp_api_key_def plain_door_def ingest_policy_from_env_def usage_check_def
        check_subcounts_def event_usage_def opt_within_bound_def num_seconds_def Let_def) code_simp
  then obtain ev where ev: "prepare_event clean_env plain_door endless_call ''p'' (Some ''k1'') RedactNone ''fresh'' 1000 = Inr ev"
    by (simp add: prepare_event_stages Let_def)
  have "finish_of ev = finish_of endless_call"
    by (simp only: finish_of_def prepared_latency [OF ev] prepared_frame(4) [OF ev])
  then have "trace_from_events_bounded (ev # events) n = Panic" for events n
    using endless_call_panics trace_read_iff(1) [of "ev # events" n] by simp
  with ev show ?thesis by blast
qed

end
